(* ===== verification/Cdsm_Prelude.thy ===== *)
theory Cdsm_Prelude
  imports Main "HOL-Library.Word" "HOL-Library.Monad_Syntax"
begin

text \<open>
  What every component of the development shares.

  The program is C. A computation of the model has the type \<open>'a option\<close>: \<open>Some\<close> is a run that
  C defines, \<open>None\<close> a run that has no defined result: an array access outside the array, a NULL
  pointer followed, a signed overflow, a shift by a bad amount, a division by zero, the use of a
  variable that was never assigned. An error that the code itself reports (a return of \<open>-1\<close>, a
  failed allocation that is tested) is a value inside \<open>Some\<close>.

  The theory holds: the machine types, checked arrays and checked signed arithmetic; \<open>wp\<close>, a
  total-correctness reading of a run (it returns and its result satisfies a predicate), with its
  rules in the collection \<open>wp_rules\<close>; the loops of the code as \<open>foldM\<close> and \<open>loopM\<close>, with one
  invariant rule each; the decimal printing of \<open>%u\<close> and \<open>%d\<close>.
\<close>

section \<open>Machine types\<close>

type_synonym u8 = "8 word"
type_synonym u16 = "16 word"
type_synonym u32 = "32 word"
type_synonym u64 = "64 word"

text \<open>A C \<open>int\<close> is an \<open>int\<close> inside this range; leaving it in an arithmetic operation is undefined.\<close>

definition in_int :: "int \<Rightarrow> bool" where
  "in_int x \<longleftrightarrow> - (2 ^ 31) \<le> x \<and> x < 2 ^ 31"

definition cint :: "int \<Rightarrow> int option" where
  "cint x = (if in_int x then Some x else None)"

definition shl_int :: "int \<Rightarrow> int \<Rightarrow> int option" where
  "shl_int a k = (if 0 \<le> a \<and> 0 \<le> k \<and> k < 32 then cint (a * 2 ^ nat k) else None)"

definition div_u64 :: "u64 \<Rightarrow> u64 \<Rightarrow> u64 option" where
  "div_u64 a b = (if b = 0 then None else Some (a div b))"

text \<open>Widening a nonnegative \<open>int\<close> does not change it.\<close>

lemma unat_lt_bound: "unat (w :: u32) < 2 ^ 32"
  using unsigned_less [of w] by simp

lemma sint_small: "uint w < 2 ^ 31 \<Longrightarrow> sint (w :: u32) = uint w"
proof -
  assume lt: "uint w < 2 ^ 31"
  have eq: "sint w = signed_take_bit 31 (uint w)"
    by (simp add: sint_uint)
  have "- (2 ^ 31) \<le> (0::int)" by simp
  then have ge: "- (2 ^ 31) \<le> uint w" using uint_ge_0 by (rule order_trans)
  show ?thesis
    unfolding eq by (rule signed_take_bit_int_eq_self [OF ge lt])
qed

lemma scast_small: "unat w < 2 ^ 31 \<Longrightarrow> scast (w :: u32) = (ucast w :: u64)"
proof -
  assume "unat w < 2 ^ 31"
  then have "int (unat w) < int (2 ^ 31)" by (simp only: of_nat_less_iff)
  then have "uint w < 2 ^ 31" by (simp only: uint_nat of_nat_power of_nat_numeral)
  then have "sint w = uint w" by (rule sint_small)
  then show ?thesis by (simp only: scast_eq ucast_eq)
qed

section \<open>Runs and their total correctness\<close>

named_theorems wp_rules

definition wp :: "'a option \<Rightarrow> ('a \<Rightarrow> bool) \<Rightarrow> bool" where
  "wp m Q \<longleftrightarrow> (case m of None \<Rightarrow> False | Some r \<Rightarrow> Q r)"

lemma wp_None [simp, wp_rules]: "wp None Q = False"
  by (simp add: wp_def)

lemma wp_Some [simp, wp_rules]: "wp (Some r) Q = Q r"
  by (simp add: wp_def)

lemma wp_bind [simp, wp_rules]: "wp (Option.bind m f) Q = wp m (\<lambda>x. wp (f x) Q)"
  by (cases m) simp_all

lemma wp_if [wp_rules]: "wp (if b then m else n) Q = ((b \<longrightarrow> wp m Q) \<and> (\<not> b \<longrightarrow> wp n Q))"
  by simp

lemma wp_map_option [simp, wp_rules]: "wp (map_option f m) Q = wp m (\<lambda>x. Q (f x))"
  by (cases m) simp_all

lemma wp_iff: "wp m Q \<longleftrightarrow> (\<exists>r. m = Some r \<and> Q r)"
  by (cases m) simp_all

lemma wpI: "m = Some r \<Longrightarrow> Q r \<Longrightarrow> wp m Q"
  by simp

lemma wpE: "wp m Q \<Longrightarrow> (\<And>r. m = Some r \<Longrightarrow> Q r \<Longrightarrow> P) \<Longrightarrow> P"
  by (auto simp: wp_iff)

lemma wp_mono: "wp m P \<Longrightarrow> (\<And>r. P r \<Longrightarrow> Q r) \<Longrightarrow> wp m Q"
  by (auto simp: wp_iff)

lemma wp_conj: "wp m P \<Longrightarrow> wp m Q \<Longrightarrow> wp m (\<lambda>r. P r \<and> Q r)"
  by (auto simp: wp_iff)

section \<open>Checked arrays\<close>

definition aget :: "'a list \<Rightarrow> nat \<Rightarrow> 'a option" where
  "aget xs i = (if i < length xs then Some (xs ! i) else None)"

definition aput :: "'a list \<Rightarrow> nat \<Rightarrow> 'a \<Rightarrow> 'a list option" where
  "aput xs i v = (if i < length xs then Some (xs[i := v]) else None)"

text \<open>The index of a C array access is often an \<open>int\<close>; a negative one is outside the array.\<close>

definition agetz :: "'a list \<Rightarrow> int \<Rightarrow> 'a option" where
  "agetz xs i = (if i < 0 then None else aget xs (nat i))"

definition aputz :: "'a list \<Rightarrow> int \<Rightarrow> 'a \<Rightarrow> 'a list option" where
  "aputz xs i v = (if i < 0 then None else aput xs (nat i) v)"

lemma aget_Some [simp]: "i < length xs \<Longrightarrow> aget xs i = Some (xs ! i)"
  by (simp add: aget_def)

lemma aget_None [simp]: "length xs \<le> i \<Longrightarrow> aget xs i = None"
  by (simp add: aget_def)

lemma aput_Some [simp]: "i < length xs \<Longrightarrow> aput xs i v = Some (xs[i := v])"
  by (simp add: aput_def)

lemma aput_None [simp]: "length xs \<le> i \<Longrightarrow> aput xs i v = None"
  by (simp add: aput_def)

lemma agetz_Some [simp]: "0 \<le> i \<Longrightarrow> nat i < length xs \<Longrightarrow> agetz xs i = Some (xs ! nat i)"
  by (simp add: agetz_def)

lemma aputz_Some [simp]: "0 \<le> i \<Longrightarrow> nat i < length xs \<Longrightarrow> aputz xs i v = Some (xs[nat i := v])"
  by (simp add: aputz_def)

lemma agetz_int [simp]: "agetz xs (int n) = aget xs n"
  by (simp add: agetz_def)

lemma aputz_int [simp]: "aputz xs (int n) v = aput xs n v"
  by (simp add: aputz_def)

lemma aget_eq_Some_iff: "aget xs i = Some x \<longleftrightarrow> i < length xs \<and> xs ! i = x"
  by (auto simp: aget_def)

lemma aput_eq_Some_iff: "aput xs i v = Some ys \<longleftrightarrow> i < length xs \<and> ys = xs[i := v]"
  by (auto simp: aput_def)

lemma wp_aget [wp_rules]: "wp (aget xs i) Q \<longleftrightarrow> i < length xs \<and> Q (xs ! i)"
  by (simp add: aget_def wp_def)

lemma wp_aput [wp_rules]: "wp (aput xs i v) Q \<longleftrightarrow> i < length xs \<and> Q (xs[i := v])"
  by (simp add: aput_def wp_def)

lemma wp_agetz [wp_rules]:
  "wp (agetz xs i) Q \<longleftrightarrow> 0 \<le> i \<and> nat i < length xs \<and> Q (xs ! nat i)"
  by (auto simp: agetz_def wp_aget)

lemma wp_aputz [wp_rules]:
  "wp (aputz xs i v) Q \<longleftrightarrow> 0 \<le> i \<and> nat i < length xs \<and> Q (xs[nat i := v])"
  by (auto simp: aputz_def wp_aput)

lemma wp_cint [wp_rules]: "wp (cint x) Q \<longleftrightarrow> in_int x \<and> Q x"
  by (simp add: cint_def)

section \<open>Loops\<close>

text \<open>\<open>foldM f xs s\<close> runs the body for each loop value in turn, \<open>for (x in xs) s = f(x, s)\<close>.\<close>

primrec foldM :: "('a \<Rightarrow> 's \<Rightarrow> 's option) \<Rightarrow> 'a list \<Rightarrow> 's \<Rightarrow> 's option" where
  "foldM f [] s = Some s"
| "foldM f (x # xs) s = Option.bind (f x s) (foldM f xs)"

lemma foldM_append: "foldM f (xs @ ys) s = Option.bind (foldM f xs s) (foldM f ys)"
  by (induction xs arbitrary: s) (simp_all, metis bind_assoc)

lemma foldM_snoc: "foldM f (xs @ [x]) s = Option.bind (foldM f xs s) (f x)"
proof (cases "foldM f xs s")
  case (Some t)
  then show ?thesis by (cases "f x t") (simp_all add: foldM_append)
qed (simp add: foldM_append)

lemma foldM_cong [fundef_cong]:
  assumes "xs = ys" and "s = t" and "\<And>x s. x \<in> set ys \<Longrightarrow> f x s = g x s"
  shows "foldM f xs s = foldM g ys t"
proof -
  have "(\<And>x s. x \<in> set ys \<Longrightarrow> f x s = g x s) \<Longrightarrow> foldM f ys t = foldM g ys t"
  proof (induction ys arbitrary: t)
    case (Cons y ys)
    then show ?case by (cases "g y t") auto
  qed simp
  with assms show ?thesis by simp
qed

text \<open>The invariant rule for a loop over a list: the invariant may mention what is left to do.\<close>

lemma wp_foldM_list:
  assumes "I xs s"
    and "\<And>x ys s. I (x # ys) s \<Longrightarrow> wp (f x s) (I ys)"
  shows "wp (foldM f xs s) (I [])"
  using assms(1)
proof (induction xs arbitrary: s)
  case Nil
  then show ?case by simp
next
  case (Cons x xs)
  from assms(2)[OF Cons.prems] obtain t where "f x s = Some t" "I xs t"
    by (rule wpE)
  with Cons.IH show ?case by simp
qed

lemma wp_foldM_all:
  assumes "I s" and "\<And>x s. x \<in> set xs \<Longrightarrow> I s \<Longrightarrow> wp (f x s) I"
  shows "wp (foldM f xs s) I"
proof -
  have "wp (foldM f xs s) (\<lambda>t. set [] \<subseteq> set xs \<and> I t)"
    by (rule wp_foldM_list [where I = "\<lambda>ys t. set ys \<subseteq> set xs \<and> I t"])
      (use assms in \<open>auto intro: wp_mono\<close>)
  then show ?thesis by simp
qed

text \<open>The invariant rule for \<open>for (i = m; i < n; i++)\<close>.\<close>

lemma wp_for:
  assumes "m \<le> n" and "I m s"
    and "\<And>i s. m \<le> i \<Longrightarrow> i < n \<Longrightarrow> I i s \<Longrightarrow> wp (f i s) (I (Suc i))"
  shows "wp (foldM f [m..<n] s) (I n)"
  using assms
proof (induction n)
  case 0
  then show ?case by simp
next
  case (Suc n)
  show ?case
  proof (cases "m \<le> n")
    case True
    then have "wp (foldM f [m..<n] s) (I n)"
      using Suc by (intro Suc.IH) auto
    then show ?thesis
      using True Suc.prems(3)[of n]
      by (auto simp: foldM_snoc wp_iff)
  next
    case False
    then show ?thesis using Suc.prems by (auto simp: le_Suc_eq)
  qed
qed

lemma wp_for0:
  assumes "I 0 s" and "\<And>i s. i < n \<Longrightarrow> I i s \<Longrightarrow> wp (f i s) (I (Suc i))"
  shows "wp (foldM f [0..<n] s) (I n)"
  by (rule wp_for [where I = I]) (use assms in auto)

text \<open>
  A loop with an early exit: the body's first component says whether to go on. The result says
  whether the loop ran to its end.
\<close>

primrec loopM :: "('a \<Rightarrow> 's \<Rightarrow> (bool \<times> 's) option) \<Rightarrow> 'a list \<Rightarrow> 's \<Rightarrow> (bool \<times> 's) option" where
  "loopM f [] s = Some (True, s)"
| "loopM f (x # xs) s =
     Option.bind (f x s) (\<lambda>(go, t). if go then loopM f xs t else Some (False, t))"

lemma loopM_cong [fundef_cong]:
  assumes "xs = ys" and "s = t" and "\<And>x s. x \<in> set ys \<Longrightarrow> f x s = g x s"
  shows "loopM f xs s = loopM g ys t"
proof -
  have "(\<And>x s. x \<in> set ys \<Longrightarrow> f x s = g x s) \<Longrightarrow> loopM f ys t = loopM g ys t"
  proof (induction ys arbitrary: t)
    case (Cons y ys)
    then show ?case by (cases "g y t") (auto split: prod.splits)
  qed simp
  with assms show ?thesis by simp
qed

text \<open>A pure loop is a \<open>fold\<close>.\<close>

lemma foldM_pure: "foldM (\<lambda>x s. Some (f x s)) xs s = Some (fold f xs s)"
  by (induction xs arbitrary: s) simp_all

section \<open>Printing\<close>

text \<open>The digits of \<open>%u\<close>, and of \<open>%d\<close> with its sign.\<close>

fun show_nat :: "nat \<Rightarrow> string" where
  "show_nat n = (if n < 10 then [char_of (48 + n)] else show_nat (n div 10) @ [char_of (48 + n mod 10)])"

declare show_nat.simps [simp del]

definition show_int :: "int \<Rightarrow> string" where
  "show_int z = (if z < 0 then CHR ''-'' # show_nat (nat (- z)) else show_nat (nat z))"

text \<open>Rows of numbers separated by commas, each ended by a newline, the format of the matrix files.\<close>

fun csv :: "string list \<Rightarrow> string" where
  "csv [] = []"
| "csv [x] = x"
| "csv (x # y # xs) = x @ '','' @ csv (y # xs)"

definition newline :: string where
  "newline = [CHR 0x0A]"

definition csv_lines :: "string list list \<Rightarrow> string" where
  "csv_lines rows = concat (map (\<lambda>r. csv r @ newline) rows)"

text \<open>The digits can be read back.\<close>

definition read_digit :: "char \<Rightarrow> nat" where
  "read_digit c = of_char c - 48"

definition read_nat :: "string \<Rightarrow> nat" where
  "read_nat = foldl (\<lambda>n c. 10 * n + read_digit c) 0"

lemma read_digit_char: "d < 10 \<Longrightarrow> read_digit (char_of (48 + d)) = d"
  by (simp add: read_digit_def)

lemma read_show_nat: "read_nat (show_nat n) = n"
proof (induction n rule: show_nat.induct)
  case (1 n)
  show ?case
  proof (cases "n < 10")
    case True
    then show ?thesis by (subst show_nat.simps) (simp add: read_nat_def read_digit_char)
  next
    case False
    with 1 have "read_nat (show_nat (n div 10)) = n div 10" by simp
    with False show ?thesis
      by (subst show_nat.simps) (simp add: read_nat_def read_digit_char)
  qed
qed

lemma show_nat_inj: "show_nat m = show_nat n \<Longrightarrow> m = n"
  by (metis read_show_nat)

text \<open>The loop that prints \<open>n\<close> items separated by commas.\<close>

lemma csv_snoc: "xs \<noteq> [] \<Longrightarrow> csv (xs @ [x]) = csv xs @ '','' @ x"
  by (induction xs rule: csv.induct) auto

lemma csv_concat: "xs \<noteq> [] \<Longrightarrow> csv xs = concat (map (\<lambda>x. x @ '','') (butlast xs)) @ last xs"
  by (induction xs rule: csv.induct) auto

text \<open>A reader of the format, to state that nothing is lost in printing.\<close>

fun split_on :: "char \<Rightarrow> string \<Rightarrow> string list" where
  "split_on c [] = [[]]"
| "split_on c (x # xs) = (if x = c then [] # split_on c xs
     else (case split_on c xs of [] \<Rightarrow> [[x]] | y # ys \<Rightarrow> (x # y) # ys))"

lemma split_on_append: "c \<notin> set x \<Longrightarrow> split_on c (x @ c # rest) = x # split_on c rest"
  by (induction x) auto

lemma split_on_none: "c \<notin> set x \<Longrightarrow> split_on c x = [x]"
  by (induction x) auto

lemma split_csv:
  assumes "xs \<noteq> []" "\<forall>x \<in> set xs. CHR '','' \<notin> set x"
  shows "split_on (CHR '','') (csv xs) = xs"
  using assms by (induction xs rule: csv.induct) (simp_all add: split_on_none split_on_append)

definition read_lines :: "string \<Rightarrow> nat list list" where
  "read_lines text = map (\<lambda>l. map read_nat (split_on (CHR '','') l)) (butlast (split_on (CHR 0x0A) text))"

lemma split_lines:
  assumes "\<forall>r \<in> set rows. CHR 0x0A \<notin> set (csv r)"
  shows "split_on (CHR 0x0A) (csv_lines rows) = map csv rows @ [[]]"
  using assms by (induction rows) (simp_all add: csv_lines_def newline_def split_on_append)

lemma show_nat_digits: "c \<in> set (show_nat n) \<Longrightarrow> 48 \<le> (of_char c :: nat) \<and> (of_char c :: nat) \<le> 57"
proof (induction n rule: show_nat.induct)
  case (1 n)
  have digit: "d < 10 \<Longrightarrow> (of_char (char_of (48 + d :: nat)) :: nat) = 48 + d" for d
    by simp
  show ?case
  proof (cases "n < 10")
    case True
    with "1.prems" show ?thesis
      using digit[of n] by (subst (asm) show_nat.simps) auto
  next
    case False
    with "1.prems" have "c \<in> set (show_nat (n div 10)) \<or> c = char_of (48 + n mod 10)"
      by (subst (asm) show_nat.simps) auto
    with False "1.IH" digit[of "n mod 10"] show ?thesis by auto
  qed
qed

lemma show_nat_no_sep [simp]: "CHR '','' \<notin> set (show_nat n)" "CHR 0x0A \<notin> set (show_nat n)"
  using show_nat_digits[of "CHR '',''" n] show_nat_digits[of "CHR 0x0A" n] by auto

lemma set_csv: "set (csv xs) \<subseteq> insert (CHR '','') (\<Union> (set ` set xs))"
  by (induction xs rule: csv.induct) auto

lemma read_csv_lines:
  assumes "\<forall>r \<in> set rows. r \<noteq> []"
  shows "read_lines (csv_lines (map (map show_nat) rows)) = rows"
proof -
  have "CHR 0x0A \<notin> set (csv (map show_nat r))" for r
    using set_csv[of "map show_nat r"] by auto
  moreover have "map read_nat (split_on (CHR '','') (csv (map show_nat r))) = r" if "r \<in> set rows" for r
    using that assms by (subst split_csv) (auto simp: read_show_nat comp_def)
  ultimately show ?thesis by (simp add: read_lines_def split_lines butlast_append map_idI)
qed

section \<open>From one step to a history\<close>

text \<open>
  An operation \<open>exec e\<close> that, on the states of an invariant and for admissible inputs, returns, keeps the invariant and
  does what \<open>spec e\<close> does to the abstract state. Then a sequence of admissible inputs does what the sequence of
  specifications does.
\<close>

locale simulation =
  fixes exec :: "'e \<Rightarrow> 's \<Rightarrow> 's option"
    and adm :: "'e \<Rightarrow> bool"
    and inv :: "'s \<Rightarrow> bool"
    and abst :: "'s \<Rightarrow> 'a"
    and spec :: "'e \<Rightarrow> 'a \<Rightarrow> 'a"
  assumes step: "inv s \<Longrightarrow> adm e \<Longrightarrow> wp (exec e s) (\<lambda>s'. inv s' \<and> abst s' = spec e (abst s))"
begin

lemma history:
  assumes "inv s" "\<forall>e \<in> set es. adm e"
  shows "wp (foldM exec es s) (\<lambda>s'. inv s' \<and> abst s' = fold spec es (abst s))"
  using assms
proof (induction es arbitrary: s)
  case (Cons e es)
  then obtain s1 where "exec e s = Some s1" "inv s1" "abst s1 = spec e (abst s)"
    using step[of s e] by (auto elim: wpE)
  with Cons.IH[of s1] Cons.prems(2) show ?case by simp
qed simp

end

end
