(* ===== verification/Cdsm_Config.thy ===== *)
theory Cdsm_Config
  imports Cdsm_Prelude
begin

text \<open>
  The global settings of the module, the \<open>int\<close> variables of \<open>src/spcd_main.c\<close>: its parameters, two of
  which (\<open>spcd_shift\<close>, \<open>spcd_num_faults\<close>) a write to a procfs file changes while the module runs.
\<close>

record config =
  max_threads :: int
  max_threads_bits :: int
  spcd_shift :: int
  spcd_mem_hash_bits :: int
  spcd_num_faults :: int
  do_pf :: bool
  do_map :: bool

text \<open>\<open>PAGE_SHIFT\<close> of the x86 kernels the module is built for.\<close>

definition PAGE_SHIFT :: nat where
  "PAGE_SHIFT = 12"

definition PAGE_SIZE :: u64 where
  "PAGE_SIZE = 2 ^ PAGE_SHIFT"

end
