(* ===== verification/Cdsm_Pid.thy ===== *)
theory Cdsm_Pid
  imports Cdsm_Prelude
begin

text \<open>
  The thread registry, \<open>src/pid.c\<close>: an array of \<open>2 ^ 14\<close> slots indexed by the hash of a pid, its
  reverse (the array from a tid to the entry that received it), and two counters, the threads
  numbered since the last clear and the threads alive.

  \<open>hash_32\<close> belongs to the kernel (\<open>linux/hash.h\<close>) and is the argument \<open>hash\<close>; the code relies on
  its result having the number of bits asked for, which is \<open>hash_32_ok\<close>.

  \<open>pid_wf\<close> is the invariant, \<open>live\<close> the abstraction (the finite map from a live pid to its tid), and
  the locale \<open>thread_registry\<close> the contract that the probes rely on, interpreted on the code at the
  end of the theory.
\<close>

section \<open>The code\<close>

definition SPCD_PID_HASH_BITS :: nat where
  "SPCD_PID_HASH_BITS = 14"

definition SPCD_PID_HASH_SIZE :: nat where
  "SPCD_PID_HASH_SIZE = 2 ^ SPCD_PID_HASH_BITS"

record pid_s =
  ps_pid :: int
  ps_tid :: int

record pid_state =
  spcd_pid :: "pid_s list"
  spcd_pid_reverse :: "pid_s list"
  spcd_num_threads :: int
  spcd_active_threads :: int

type_synonym hash_fun = "u32 \<Rightarrow> nat \<Rightarrow> u32"

definition hash_32_ok :: "hash_fun \<Rightarrow> bool" where
  "hash_32_ok hash \<longleftrightarrow> (\<forall>v b. 0 < b \<longrightarrow> b \<le> 32 \<longrightarrow> unat (hash v b) < 2 ^ b)"

definition pid_slot :: "hash_fun \<Rightarrow> int \<Rightarrow> nat" where
  "pid_slot hash pid = unat (hash (word_of_int pid) SPCD_PID_HASH_BITS)"

text \<open>The memory of the two static arrays before the first \<open>spcd_pid_clear\<close>: zero bytes.\<close>

definition pid_boot :: pid_state where
  "pid_boot =
     \<lparr>spcd_pid = replicate SPCD_PID_HASH_SIZE \<lparr>ps_pid = 0, ps_tid = 0\<rparr>,
      spcd_pid_reverse = replicate SPCD_PID_HASH_SIZE \<lparr>ps_pid = 0, ps_tid = 0\<rparr>,
      spcd_num_threads = 0, spcd_active_threads = 0\<rparr>"

definition spcd_delete_pid :: "hash_fun \<Rightarrow> int \<Rightarrow> pid_state \<Rightarrow> pid_state option" where
  "spcd_delete_pid hash pid st = do {
     let h = pid_slot hash pid;
     e \<leftarrow> aget (spcd_pid st) h;
     if ps_tid e \<noteq> -1 \<and> ps_pid e = pid then do {
       a \<leftarrow> aput (spcd_pid st) h \<lparr>ps_pid = -1, ps_tid = -1\<rparr>;
       Some (st\<lparr>spcd_pid := a, spcd_active_threads := spcd_active_threads st - 1\<rparr>)
     } else Some st
   }"

definition spcd_get_num_threads :: "pid_state \<Rightarrow> int" where
  "spcd_get_num_threads st = spcd_num_threads st"

definition spcd_get_active_threads :: "pid_state \<Rightarrow> int" where
  "spcd_get_active_threads st = spcd_active_threads st"

definition spcd_add_pid :: "hash_fun \<Rightarrow> int \<Rightarrow> int \<Rightarrow> pid_state \<Rightarrow> (int \<times> pid_state) option" where
  "spcd_add_pid hash max_threads pid st =
     (if spcd_get_num_threads st \<ge> max_threads then Some (-1, st)
      else do {
        let h = pid_slot hash pid;
        e \<leftarrow> aget (spcd_pid st) h;
        if ps_pid e = -1 then do {
          let tid = spcd_num_threads st;
          let new = \<lparr>ps_pid = pid, ps_tid = tid\<rparr>;
          a \<leftarrow> aput (spcd_pid st) h new;
          r \<leftarrow> aputz (spcd_pid_reverse st) tid new;
          Some (tid, st\<lparr>spcd_pid := a, spcd_pid_reverse := r,
                       spcd_num_threads := tid + 1,
                       spcd_active_threads := spcd_active_threads st + 1\<rparr>)
        } else Some (-1, st)
      })"

definition spcd_pid_clear :: "pid_state \<Rightarrow> pid_state" where
  "spcd_pid_clear st =
     st\<lparr>spcd_pid := replicate SPCD_PID_HASH_SIZE \<lparr>ps_pid = -1, ps_tid = -1\<rparr>,
        spcd_pid_reverse := replicate SPCD_PID_HASH_SIZE \<lparr>ps_pid = -1, ps_tid = -1\<rparr>,
        spcd_num_threads := 0, spcd_active_threads := 0\<rparr>"

definition spcd_get_pid :: "int \<Rightarrow> pid_state \<Rightarrow> int option" where
  "spcd_get_pid tid st = map_option ps_pid (agetz (spcd_pid_reverse st) tid)"

definition spcd_get_tid :: "hash_fun \<Rightarrow> int \<Rightarrow> pid_state \<Rightarrow> int option" where
  "spcd_get_tid hash pid st =
     map_option (\<lambda>e. if ps_pid e = pid then ps_tid e else -1) (aget (spcd_pid st) (pid_slot hash pid))"

section \<open>Invariant and abstraction\<close>

definition entry_free :: "pid_s \<Rightarrow> bool" where
  "entry_free e \<longleftrightarrow> ps_pid e = -1 \<and> ps_tid e = -1"

definition live_slots :: "pid_state \<Rightarrow> nat set" where
  "live_slots st = {h. h < SPCD_PID_HASH_SIZE \<and> \<not> entry_free (spcd_pid st ! h)}"

definition pid_wf :: "hash_fun \<Rightarrow> int \<Rightarrow> pid_state \<Rightarrow> bool" where
  "pid_wf hash max_threads st \<longleftrightarrow>
     hash_32_ok hash \<and> max_threads \<le> int SPCD_PID_HASH_SIZE \<and>
     length (spcd_pid st) = SPCD_PID_HASH_SIZE \<and>
     length (spcd_pid_reverse st) = SPCD_PID_HASH_SIZE \<and>
     0 \<le> spcd_num_threads st \<and>
     (0 < spcd_num_threads st \<longrightarrow> spcd_num_threads st \<le> max_threads) \<and>
     spcd_active_threads st = int (card (live_slots st)) \<and>
     (\<forall>h \<in> live_slots st. let e = spcd_pid st ! h in
        ps_pid e \<noteq> -1 \<and> pid_slot hash (ps_pid e) = h \<and>
        0 \<le> ps_tid e \<and> ps_tid e < spcd_num_threads st \<and>
        spcd_pid_reverse st ! nat (ps_tid e) = e)"

text \<open>The abstraction: the live pids with their tids.\<close>

definition live :: "hash_fun \<Rightarrow> pid_state \<Rightarrow> int \<rightharpoonup> int" where
  "live hash st pid =
     (if pid \<noteq> -1 \<and> ps_pid (spcd_pid st ! pid_slot hash pid) = pid
      then Some (ps_tid (spcd_pid st ! pid_slot hash pid)) else None)"

lemma pid_hash_size [simp]: "SPCD_PID_HASH_SIZE = 16384"
  by (simp add: SPCD_PID_HASH_SIZE_def SPCD_PID_HASH_BITS_def)

lemma pid_slot_less [simp]: "hash_32_ok hash \<Longrightarrow> pid_slot hash pid < 16384"
proof -
  assume "hash_32_ok hash"
  then have "unat (hash (word_of_int pid) 14) < 2 ^ 14"
    unfolding hash_32_ok_def by (elim allE[of _ "word_of_int pid"] allE[of _ 14]) simp
  then show ?thesis by (simp add: pid_slot_def SPCD_PID_HASH_BITS_def)
qed

lemma finite_live_slots [simp]: "finite (live_slots st)"
  by (simp add: live_slots_def)

lemma pid_wf_hash: "pid_wf hash m st \<Longrightarrow> hash_32_ok hash"
  by (simp add: pid_wf_def)

lemma pid_wf_length:
  "pid_wf hash m st \<Longrightarrow> length (spcd_pid st) = 16384 \<and> length (spcd_pid_reverse st) = 16384"
  by (simp add: pid_wf_def)

lemma pid_wf_live:
  assumes "pid_wf hash m st" and "h < 16384" and "\<not> entry_free (spcd_pid st ! h)"
  shows "ps_pid (spcd_pid st ! h) \<noteq> -1" "pid_slot hash (ps_pid (spcd_pid st ! h)) = h"
    "0 \<le> ps_tid (spcd_pid st ! h)" "ps_tid (spcd_pid st ! h) < spcd_num_threads st"
    "spcd_pid_reverse st ! nat (ps_tid (spcd_pid st ! h)) = spcd_pid st ! h"
  using assms by (auto simp: pid_wf_def Let_def live_slots_def)

lemma pid_wf_free:
  assumes "pid_wf hash m st" and "h < 16384"
  shows "ps_pid (spcd_pid st ! h) = -1 \<longleftrightarrow> entry_free (spcd_pid st ! h)"
  using pid_wf_live(1)[OF assms] by (auto simp: entry_free_def)

lemma pid_wf_free_tid:
  assumes "pid_wf hash m st" and "h < 16384"
  shows "ps_tid (spcd_pid st ! h) = -1 \<longleftrightarrow> entry_free (spcd_pid st ! h)"
  using pid_wf_live(3)[OF assms] by (force simp: entry_free_def)

lemma live_slots_update:
  assumes "h < 16384" and "length (spcd_pid st) = 16384"
    and "spcd_pid st' = (spcd_pid st)[h := e]"
  shows "live_slots st' = (if entry_free e then live_slots st - {h} else insert h (live_slots st))"
  using assms by (auto simp: live_slots_def nth_list_update)

lemma live_conv:
  assumes "pid_wf hash m st"
  shows "live hash st pid = Some t \<longleftrightarrow>
    (\<exists>h. h < 16384 \<and> \<not> entry_free (spcd_pid st ! h) \<and> spcd_pid st ! h = \<lparr>ps_pid = pid, ps_tid = t\<rparr>)"
    (is "_ \<longleftrightarrow> ?R")
proof
  assume "live hash st pid = Some t"
  then have *: "pid \<noteq> -1" "ps_pid (spcd_pid st ! pid_slot hash pid) = pid"
    "ps_tid (spcd_pid st ! pid_slot hash pid) = t"
    by (auto simp: live_def split: if_splits)
  moreover have "pid_slot hash pid < 16384"
    using assms by (simp add: pid_wf_hash)
  ultimately show ?R
    using pid_wf_free[OF assms] by (intro exI[of _ "pid_slot hash pid"]) (metis pid_s.surjective old.unit.exhaust)
next
  assume ?R
  then obtain h where "h < 16384" "\<not> entry_free (spcd_pid st ! h)"
    "spcd_pid st ! h = \<lparr>ps_pid = pid, ps_tid = t\<rparr>" by blast
  with pid_wf_live[OF assms this(1,2)] show "live hash st pid = Some t"
    by (simp add: live_def)
qed

lemma liveE:
  assumes "pid_wf hash m st" and "live hash st pid = Some t"
  obtains "pid \<noteq> -1" "0 \<le> t" "t < spcd_num_threads st"
    "spcd_pid st ! pid_slot hash pid = \<lparr>ps_pid = pid, ps_tid = t\<rparr>"
    "spcd_pid_reverse st ! nat t = \<lparr>ps_pid = pid, ps_tid = t\<rparr>"
proof -
  from assms(2) obtain h where h: "h < 16384" "\<not> entry_free (spcd_pid st ! h)"
    "spcd_pid st ! h = \<lparr>ps_pid = pid, ps_tid = t\<rparr>" by (auto simp: live_conv[OF assms(1)])
  from pid_wf_live[OF assms(1) h(1,2)] h(3) show thesis
    by (intro that) auto
qed

lemma live_range:
  assumes "pid_wf hash m st" and "live hash st pid = Some t"
  shows "0 \<le> t \<and> t < spcd_num_threads st"
  using assms by (blast elim: liveE)

lemma live_reverse:
  assumes "pid_wf hash m st" and "live hash st pid = Some t"
  shows "spcd_get_pid t st = Some pid"
  using assms
proof (rule liveE)
  assume "0 \<le> t" "t < spcd_num_threads st"
    and r: "spcd_pid_reverse st ! nat t = \<lparr>ps_pid = pid, ps_tid = t\<rparr>"
  moreover from this have "spcd_num_threads st \<le> 16384"
    using assms(1) by (auto simp: pid_wf_def)
  ultimately show ?thesis
    using assms(1) by (simp add: spcd_get_pid_def pid_wf_length nat_less_iff)
qed

lemma live_inj:
  assumes "pid_wf hash m st" and "live hash st p = Some t" and "live hash st q = Some t"
  shows "p = q"
  using live_reverse[OF assms(1,2)] live_reverse[OF assms(1,3)] by simp

section \<open>What each operation does\<close>

lemma spcd_get_tid_live:
  assumes "pid_wf hash m st" and "p \<noteq> -1"
  shows "spcd_get_tid hash p st = Some (case live hash st p of None \<Rightarrow> -1 | Some t \<Rightarrow> t)"
  using assms pid_wf_length[OF assms(1)] by (simp add: spcd_get_tid_def live_def pid_wf_hash)

lemma pid_clear_wf:
  assumes "hash_32_ok hash" and "m \<le> 16384"
  shows "pid_wf hash m (spcd_pid_clear st)"
  using assms by (simp add: pid_wf_def spcd_pid_clear_def live_slots_def entry_free_def)

lemma pid_clear_live:
  assumes "hash_32_ok hash"
  shows "live hash (spcd_pid_clear st) = Map.empty"
  using assms by (auto simp: live_def spcd_pid_clear_def)

lemma delete_pid_cases:
  assumes "pid_wf hash m st" and "p \<noteq> -1"
  shows "spcd_delete_pid hash p st =
    (if live hash st p = None then Some st
     else Some (st\<lparr>spcd_pid := (spcd_pid st)[pid_slot hash p := \<lparr>ps_pid = -1, ps_tid = -1\<rparr>],
                  spcd_active_threads := spcd_active_threads st - 1\<rparr>))"
proof -
  have h: "pid_slot hash p < 16384" using assms(1) by (simp add: pid_wf_hash)
  have "ps_tid (spcd_pid st ! pid_slot hash p) = -1 \<longleftrightarrow> ps_pid (spcd_pid st ! pid_slot hash p) = -1"
    using pid_wf_free_tid[OF assms(1) h] pid_wf_free[OF assms(1) h] by simp
  with h assms(2) show ?thesis
    using pid_wf_length[OF assms(1)]
    by (simp add: spcd_delete_pid_def live_def Let_def)
qed

lemma delete_pid_wf:
  assumes wf: "pid_wf hash m st" and p: "p \<noteq> -1" and "spcd_delete_pid hash p st = Some st'"
  shows "pid_wf hash m st'"
proof (cases "live hash st p")
  case None
  with assms show ?thesis by (simp add: delete_pid_cases)
next
  case (Some t)
  let ?h = "pid_slot hash p"
  have h: "?h < 16384" using wf by (simp add: pid_wf_hash)
  have st': "st' = st\<lparr>spcd_pid := (spcd_pid st)[?h := \<lparr>ps_pid = -1, ps_tid = -1\<rparr>],
      spcd_active_threads := spcd_active_threads st - 1\<rparr>"
    using assms Some by (simp add: delete_pid_cases)
  have ls: "live_slots st' = live_slots st - {?h}"
    using live_slots_update[OF h, of st st'] pid_wf_length[OF wf]
    by (simp add: st' entry_free_def)
  have mem: "?h \<in> live_slots st"
    using Some h p pid_wf_free[OF wf h] by (auto simp: live_slots_def live_def split: if_splits)
  have "0 < card (live_slots st)"
    using mem by (auto simp: card_gt_0_iff)
  then have "spcd_active_threads st' = int (card (live_slots st'))"
    using wf mem ls by (simp add: st' pid_wf_def card_Diff_singleton of_nat_diff)
  then show ?thesis
    using wf ls unfolding pid_wf_def by (auto simp: st' Let_def)
qed

lemma delete_pid_live:
  assumes wf: "pid_wf hash m st" and p: "p \<noteq> -1" and "spcd_delete_pid hash p st = Some st'"
  shows "live hash st' = (live hash st)(p := None)"
proof (cases "live hash st p")
  case None
  with assms show ?thesis by (auto simp: delete_pid_cases)
next
  case (Some t)
  let ?h = "pid_slot hash p"
  have h: "?h < 16384" using wf by (simp add: pid_wf_hash)
  have st': "st' = st\<lparr>spcd_pid := (spcd_pid st)[?h := \<lparr>ps_pid = -1, ps_tid = -1\<rparr>],
      spcd_active_threads := spcd_active_threads st - 1\<rparr>"
    using assms Some by (simp add: delete_pid_cases)
  show ?thesis
  proof
    fix q
    show "live hash st' q = ((live hash st)(p := None)) q"
      using Some h pid_wf_length[OF wf]
      by (cases "pid_slot hash q = ?h") (auto simp: live_def st' split: if_splits)
  qed
qed

lemma add_pid_cases:
  assumes wf: "pid_wf hash m st"
  shows "spcd_add_pid hash m p st = Some
    (if m \<le> spcd_num_threads st \<or> ps_pid (spcd_pid st ! pid_slot hash p) \<noteq> -1 then (-1, st)
     else (let tid = spcd_num_threads st; new = \<lparr>ps_pid = p, ps_tid = tid\<rparr> in
       (tid, st\<lparr>spcd_pid := (spcd_pid st)[pid_slot hash p := new],
                spcd_pid_reverse := (spcd_pid_reverse st)[nat tid := new],
                spcd_num_threads := tid + 1,
                spcd_active_threads := spcd_active_threads st + 1\<rparr>)))"
proof -
  have h: "pid_slot hash p < 16384" using wf by (simp add: pid_wf_hash)
  have "m \<le> 16384" "0 \<le> spcd_num_threads st" using wf by (simp_all add: pid_wf_def)
  then have "spcd_num_threads st < m \<Longrightarrow> nat (spcd_num_threads st) < 16384" by linarith
  with h \<open>0 \<le> spcd_num_threads st\<close> show ?thesis
    using pid_wf_length[OF wf] by (simp add: spcd_add_pid_def spcd_get_num_threads_def Let_def)
qed

text \<open>The successful branch, in one place: the slot was free and the tid is the next number.\<close>

lemma add_pid_success:
  assumes wf: "pid_wf hash m st" and p: "p \<noteq> -1"
    and add: "spcd_add_pid hash m p st = Some (t, st')" and t: "t \<noteq> -1"
  shows "t = spcd_num_threads st" and "pid_wf hash m st'"
    and "live hash st p = None" and "live hash st' = (live hash st)(p \<mapsto> t)"
    and "spcd_num_threads st' = t + 1" and "spcd_active_threads st' = spcd_active_threads st + 1"
proof -
  let ?h = "pid_slot hash p" and ?n = "spcd_num_threads st"
  let ?new = "\<lparr>ps_pid = p, ps_tid = ?n\<rparr>"
  have h: "?h < 16384" using wf by (simp add: pid_wf_hash)
  have n: "0 \<le> ?n" using wf by (simp add: pid_wf_def)
  have guard: "?n < m" "ps_pid (spcd_pid st ! ?h) = -1" and tn: "t = ?n"
    and st': "st' = st\<lparr>spcd_pid := (spcd_pid st)[?h := ?new],
                spcd_pid_reverse := (spcd_pid_reverse st)[nat ?n := ?new],
                spcd_num_threads := ?n + 1, spcd_active_threads := spcd_active_threads st + 1\<rparr>"
    using add t by (auto simp: add_pid_cases[OF wf] Let_def split: if_splits)
  show "t = ?n" "spcd_num_threads st' = t + 1"
    "spcd_active_threads st' = spcd_active_threads st + 1" by (simp_all add: tn st')
  show "live hash st p = None" using guard p by (simp add: live_def)
  have "\<not> entry_free ?new" using n by (simp add: entry_free_def)
  then have ls: "live_slots st' = insert ?h (live_slots st)"
    using live_slots_update[OF h, of st st'] pid_wf_length[OF wf] by (simp add: st')
  have free: "?h \<notin> live_slots st"
    using guard(2) h pid_wf_free[OF wf h] by (simp add: live_slots_def)
  have old: "nat (ps_tid (spcd_pid st ! k)) \<noteq> nat ?n" "nat (ps_tid (spcd_pid st ! k)) < 16384"
    "ps_tid (spcd_pid st ! k) < ?n + 1"
    if "k \<in> live_slots st" for k
  proof -
    from that have "k < 16384" "\<not> entry_free (spcd_pid st ! k)" by (auto simp: live_slots_def)
    from pid_wf_live[OF wf this] have "0 \<le> ps_tid (spcd_pid st ! k)" "ps_tid (spcd_pid st ! k) < ?n"
      by auto
    moreover have "m \<le> 16384" using wf by (simp add: pid_wf_def)
    ultimately show "nat (ps_tid (spcd_pid st ! k)) \<noteq> nat ?n" "nat (ps_tid (spcd_pid st ! k)) < 16384"
      "ps_tid (spcd_pid st ! k) < ?n + 1"
      using guard(1) by linarith+
  qed
  have rev_n: "nat ?n < 16384" using wf guard(1) n by (auto simp: pid_wf_def)
  have entries: "let e = spcd_pid st' ! k in ps_pid e \<noteq> -1 \<and> pid_slot hash (ps_pid e) = k \<and>
        0 \<le> ps_tid e \<and> ps_tid e < spcd_num_threads st' \<and> spcd_pid_reverse st' ! nat (ps_tid e) = e"
    if "k \<in> live_slots st'" for k
  proof (cases "k = ?h")
    case True
    then show ?thesis using p n h rev_n pid_wf_length[OF wf] by (simp add: st' Let_def)
  next
    case False
    with that ls have k: "k \<in> live_slots st" by simp
    with wf False old[OF k] show ?thesis by (auto simp: st' Let_def pid_wf_def)
  qed
  have "int (card (live_slots st')) = spcd_active_threads st'"
    using wf free by (simp add: ls) (simp add: st' pid_wf_def)
  then show "pid_wf hash m st'"
    using wf guard(1) n entries unfolding pid_wf_def by (simp add: st')
  show "live hash st' = (live hash st)(p \<mapsto> t)"
  proof
    fix q
    show "live hash st' q = ((live hash st)(p \<mapsto> t)) q"
      using guard(2) h p pid_wf_length[OF wf]
      by (cases "pid_slot hash q = ?h") (auto simp: live_def st' tn split: if_splits)
  qed
qed

lemma add_pid_refused:
  assumes "pid_wf hash m st" and "spcd_add_pid hash m p st = Some (-1, st')"
  shows "st' = st"
proof -
  have "0 \<le> spcd_num_threads st" using assms(1) by (simp add: pid_wf_def)
  then show ?thesis using assms(2) by (auto simp: add_pid_cases[OF assms(1)] Let_def split: if_splits)
qed

section \<open>The contract of the registry\<close>

text \<open>
  What the probes rely on: pids are looked up, added and deleted in any order; \<open>live\<close> is the map the
  registry stands for and \<open>numbered\<close> the number of tids given out since the last clear.
\<close>

datatype reg_op = RAdd int | RDelete int

fun reg_pid :: "reg_op \<Rightarrow> int" where
  "reg_pid (RAdd p) = p"
| "reg_pid (RDelete p) = p"

fun reg_run :: "(int \<Rightarrow> 's \<Rightarrow> (int \<times> 's) option) \<Rightarrow> (int \<Rightarrow> 's \<Rightarrow> 's option) \<Rightarrow> reg_op list \<Rightarrow> 's \<Rightarrow> 's option" where
  "reg_run add del [] s = Some s"
| "reg_run add del (RAdd p # ops) s = Option.bind (add p s) (\<lambda>(t, s'). reg_run add del ops s')"
| "reg_run add del (RDelete p # ops) s = Option.bind (del p s) (reg_run add del ops)"

locale thread_registry =
  fixes get_tid :: "int \<Rightarrow> 's \<Rightarrow> int option"
    and add :: "int \<Rightarrow> 's \<Rightarrow> (int \<times> 's) option"
    and del :: "int \<Rightarrow> 's \<Rightarrow> 's option"
    and numbered :: "'s \<Rightarrow> int"
    and tids :: "'s \<Rightarrow> int \<rightharpoonup> int"
    and inv :: "'s \<Rightarrow> bool"
  assumes get_tid_law: "inv s \<Longrightarrow> p \<noteq> -1 \<Longrightarrow>
      get_tid p s = Some (case tids s p of None \<Rightarrow> -1 | Some t \<Rightarrow> t)"
    and add_law: "inv s \<Longrightarrow> p \<noteq> -1 \<Longrightarrow> wp (add p s) (\<lambda>(t, s'). inv s' \<and>
      (if t = -1 then s' = s
       else t = numbered s \<and> tids s p = None \<and> tids s' = (tids s)(p \<mapsto> t) \<and> numbered s' = t + 1))"
    and del_law: "inv s \<Longrightarrow> p \<noteq> -1 \<Longrightarrow>
      wp (del p s) (\<lambda>s'. inv s' \<and> tids s' = (tids s)(p := None) \<and> numbered s' = numbered s)"
    and tids_range: "inv s \<Longrightarrow> tids s p = Some t \<Longrightarrow> 0 \<le> t \<and> t < numbered s"
    and tids_inj: "inv s \<Longrightarrow> tids s p = Some t \<Longrightarrow> tids s q = Some t \<Longrightarrow> p = q"
begin

lemma registered_then_found:
  assumes "inv s" "p \<noteq> -1" "add p s = Some (t, s')" "t \<noteq> -1"
  shows "get_tid p s' = Some t"
  using add_law[OF assms(1,2)] assms get_tid_law[of s' p] by simp

lemma deleted_then_unknown:
  assumes "inv s" "p \<noteq> -1" "del p s = Some s'"
  shows "get_tid p s' = Some (-1)"
  using del_law[OF assms(1,2)] assms get_tid_law[of s' p] by simp

text \<open>A run of adds and deletes returns, keeps the invariant and never lowers the numbering, and
  leaves alone the tid of a pid that it does not delete.\<close>

lemma run_keeps:
  assumes "inv s" and "\<forall>op \<in> set ops. reg_pid op \<noteq> -1"
  shows "wp (reg_run add del ops s) (\<lambda>s'. inv s' \<and> numbered s \<le> numbered s' \<and>
    (\<forall>p t. tids s p = Some t \<longrightarrow> RDelete p \<notin> set ops \<longrightarrow> tids s' p = Some t))"
  using assms
proof (induction ops arbitrary: s)
  case Nil
  then show ?case by simp
next
  case (Cons op ops)
  show ?case
  proof (cases op)
    case (RAdd p)
    with Cons.prems obtain t s1 where add: "add p s = Some (t, s1)" and s1: "inv s1"
      and cases: "if t = -1 then s1 = s else t = numbered s \<and> tids s p = None \<and>
        tids s1 = (tids s)(p \<mapsto> t) \<and> numbered s1 = t + 1"
      using add_law[of s p] by (auto simp: wp_iff)
    from Cons.IH[OF s1] Cons.prems(2) obtain s' where run: "reg_run add del ops s1 = Some s'"
      and s': "inv s'" "numbered s1 \<le> numbered s'"
      and keep: "\<And>q u. tids s1 q = Some u \<Longrightarrow> RDelete q \<notin> set ops \<Longrightarrow> tids s' q = Some u"
      by (auto elim!: wpE)
    have le: "numbered s \<le> numbered s1" using cases by (simp split: if_splits)
    have "tids s1 q = Some u" if "tids s q = Some u" for q u
      using cases that by (auto split: if_splits)
    with run s' le keep RAdd add show ?thesis by simp
  next
    case (RDelete p)
    with Cons.prems obtain s1 where del: "del p s = Some s1" and s1: "inv s1"
      "tids s1 = (tids s)(p := None)" "numbered s1 = numbered s"
      using del_law[of s p] by (auto simp: wp_iff)
    from Cons.IH[OF s1(1)] Cons.prems(2) obtain s' where run: "reg_run add del ops s1 = Some s'"
      and s': "inv s'" "numbered s1 \<le> numbered s'"
      and keep: "\<And>q u. tids s1 q = Some u \<Longrightarrow> RDelete q \<notin> set ops \<Longrightarrow> tids s' q = Some u"
      by (auto elim!: wpE)
    with s1 RDelete del show ?thesis by auto
  qed
qed

text \<open>A tid given out later differs from every tid given out before, alive or dead.\<close>

lemma never_reused:
  assumes "inv s" "\<forall>op \<in> set ops. reg_pid op \<noteq> -1" "p \<noteq> -1" "q \<noteq> -1"
    and "add p s = Some (t, s1)" "t \<noteq> -1" "reg_run add del ops s1 = Some s2"
    and "add q s2 = Some (u, s3)" "u \<noteq> -1"
  shows "t < u"
proof -
  have "inv s1" "numbered s1 = t + 1" using add_law[OF assms(1,3)] assms(5,6) by auto
  moreover from this have "inv s2" "numbered s1 \<le> numbered s2"
    using run_keeps[of s1 ops] assms(2,7) by auto
  moreover from this have "u = numbered s2" using add_law[of s2 q] assms by auto
  ultimately show ?thesis by simp
qed

end

text \<open>The code keeps the contract.\<close>

interpretation registry: thread_registry "spcd_get_tid hash" "spcd_add_pid hash m" "spcd_delete_pid hash"
  spcd_num_threads "live hash" "pid_wf hash m"
  for hash :: hash_fun and m :: int
proof unfold_locales
  fix s :: pid_state and p :: int
  assume wf: "pid_wf hash m s" and p: "p \<noteq> -1"
  show "spcd_get_tid hash p s = Some (case live hash s p of None \<Rightarrow> -1 | Some t \<Rightarrow> t)"
    by (rule spcd_get_tid_live [OF wf p])
  obtain t s' where add: "spcd_add_pid hash m p s = Some (t, s')"
    by (metis add_pid_cases[OF wf] surj_pair)
  show "wp (spcd_add_pid hash m p s) (\<lambda>(t, s'). pid_wf hash m s' \<and>
      (if t = -1 then s' = s else t = spcd_num_threads s \<and> live hash s p = None \<and>
        live hash s' = (live hash s)(p \<mapsto> t) \<and> spcd_num_threads s' = t + 1))"
  proof (cases "t = -1")
    case True
    with add add_pid_refused[OF wf] wf show ?thesis by auto
  next
    case False
    with add add_pid_success[OF wf p add] show ?thesis by simp
  qed
  obtain s'' where del: "spcd_delete_pid hash p s = Some s''"
    using delete_pid_cases[OF wf p] by (cases "live hash s p = None") auto
  then have "spcd_num_threads s'' = spcd_num_threads s"
    by (auto simp: delete_pid_cases[OF wf p] split: if_splits)
  with del delete_pid_wf[OF wf p del] delete_pid_live[OF wf p del]
  show "wp (spcd_delete_pid hash p s) (\<lambda>s'. pid_wf hash m s' \<and> live hash s' = (live hash s)(p := None) \<and>
      spcd_num_threads s' = spcd_num_threads s)"
    by simp
next
  fix s p t assume "pid_wf hash m s" "live hash s p = Some t"
  then show "0 \<le> t \<and> t < spcd_num_threads s" by (rule live_range)
next
  fix s p q t assume "pid_wf hash m s" "live hash s p = Some t" "live hash s q = Some t"
  then show "p = q" by (rule live_inj)
qed

section \<open>Properties\<close>

text \<open>
  A concrete hash for the witnesses, the low bits of the key; it has the documented range of
  \<open>hash_32\<close>.
\<close>

definition low_bits_hash :: hash_fun where
  "low_bits_hash v b = take_bit b v"

lemma low_bits_hash_ok [simp]: "hash_32_ok low_bits_hash"
  by (simp add: hash_32_ok_def low_bits_hash_def unsigned_take_bit_eq)

lemma low_bits_slot: "pid_slot low_bits_hash p = nat (take_bit 14 p)"
  by (simp add: pid_slot_def low_bits_hash_def SPCD_PID_HASH_BITS_def unsigned_take_bit_eq
        unsigned_of_int nat_take_bit_eq [symmetric])

lemma cleared_wf [simp]: "pid_wf low_bits_hash 1024 (spcd_pid_clear pid_boot)"
  by (rule pid_clear_wf) simp_all

definition one_thread :: pid_state where
  "one_thread = snd (the (spcd_add_pid low_bits_hash 1024 4711 (spcd_pid_clear pid_boot)))"

lemma one_thread_add:
  "spcd_add_pid low_bits_hash 1024 4711 (spcd_pid_clear pid_boot) = Some (0, one_thread)"
  unfolding one_thread_def add_pid_cases[OF cleared_wf]
  by (simp add: Let_def spcd_pid_clear_def low_bits_slot)

text \<open>
  C11: registering a thread. On a well-formed registry \<open>spcd_add_pid\<close> always returns. It refuses
  with \<open>-1\<close> and leaves the registry as it was exactly when \<open>max_threads\<close> threads have been numbered
  or the pid's slot is occupied; otherwise the pid gets the next tid, the registry stays well-formed,
  and looking the pid up, or the tid in the reverse array, gives the other back.
\<close>
theorem add_pid_spec:
  assumes "pid_wf hash m st" and "pid \<noteq> -1"
  shows "\<exists>t st'. spcd_add_pid hash m pid st = Some (t, st') \<and> pid_wf hash m st' \<and>
    (if m \<le> spcd_get_num_threads st \<or> ps_pid (spcd_pid st ! pid_slot hash pid) \<noteq> -1
     then t = -1 \<and> st' = st
     else t = spcd_get_num_threads st \<and> live hash st' = (live hash st)(pid \<mapsto> t) \<and>
       spcd_get_tid hash pid st' = Some t \<and> spcd_get_pid t st' = Some pid)"
proof (cases "m \<le> spcd_get_num_threads st \<or> ps_pid (spcd_pid st ! pid_slot hash pid) \<noteq> -1")
  case True
  then show ?thesis using assms by (auto simp: add_pid_cases spcd_get_num_threads_def)
next
  case False
  obtain t st' where add: "spcd_add_pid hash m pid st = Some (t, st')"
    by (metis add_pid_cases[OF assms(1)] surj_pair)
  have "0 \<le> spcd_num_threads st" using assms(1) by (simp add: pid_wf_def)
  with False add have t: "t \<noteq> -1"
    by (auto simp: add_pid_cases[OF assms(1)] spcd_get_num_threads_def Let_def)
  note ok = add_pid_success[OF assms add t]
  have "spcd_get_pid t st' = Some pid" by (rule live_reverse[OF ok(2)]) (simp add: ok(4))
  with ok False add registry.registered_then_found[OF assms add t] show ?thesis
    by (simp add: spcd_get_num_threads_def)
qed

theorem add_pid_spec_witness:
  "pid_wf low_bits_hash 1024 (spcd_pid_clear pid_boot) \<and>
   spcd_get_tid low_bits_hash 4711 one_thread = Some 0 \<and> spcd_get_pid 0 one_thread = Some 4711"
  using add_pid_spec[OF cleared_wf, of 4711]
  by (simp add: one_thread_add spcd_get_num_threads_def) (simp add: spcd_pid_clear_def low_bits_slot)

text \<open>
  C21: the registry over any history. From a well-formed registry every sequence of registrations and
  exits runs to the end and leaves a well-formed registry, and a thread that was alive and did not
  exit in it keeps the tid it had.
\<close>
theorem registry_history:
  assumes "pid_wf hash m st" and "\<forall>op \<in> set ops. reg_pid op \<noteq> -1"
  shows "\<exists>st'. reg_run (spcd_add_pid hash m) (spcd_delete_pid hash) ops st = Some st' \<and> pid_wf hash m st' \<and>
    (\<forall>p t. live hash st p = Some t \<longrightarrow> RDelete p \<notin> set ops \<longrightarrow> live hash st' p = Some t)"
  using registry.run_keeps[OF assms] by (auto elim!: wpE)

theorem registry_history_witness:
  "\<exists>st'. reg_run (spcd_add_pid low_bits_hash 1024) (spcd_delete_pid low_bits_hash)
      [RAdd 4711, RAdd 4712, RDelete 4711] (spcd_pid_clear pid_boot) = Some st' \<and>
    pid_wf low_bits_hash 1024 st'"
  using registry_history[OF cleared_wf, of "[RAdd 4711, RAdd 4712, RDelete 4711]"] by auto

text \<open>
  C13: tids are never reused between two clears. Whatever registrations and exits happen in between, a
  thread registered later gets a larger tid than a thread registered earlier, so the communication
  counted for a tid belongs to one thread.
\<close>
theorem tids_never_reused:
  assumes "pid_wf hash m st" "\<forall>op \<in> set ops. reg_pid op \<noteq> -1" "p \<noteq> -1" "q \<noteq> -1"
    and "spcd_add_pid hash m p st = Some (t, s1)" "t \<noteq> -1"
    and "reg_run (spcd_add_pid hash m) (spcd_delete_pid hash) ops s1 = Some s2"
    and "spcd_add_pid hash m q s2 = Some (u, s3)" "u \<noteq> -1"
  shows "t < u"
  using assms by (rule registry.never_reused)

definition one_exit :: pid_state where
  "one_exit = the (spcd_delete_pid low_bits_hash 4711 one_thread)"

lemma one_thread_wf [simp]: "pid_wf low_bits_hash 1024 one_thread"
  using add_pid_success(2)[OF cleared_wf _ one_thread_add] by simp

lemma one_thread_live: "live low_bits_hash one_thread 4711 = Some 0"
  using add_pid_success(4)[OF cleared_wf _ one_thread_add] by simp

lemma one_exit_eq:
  "one_exit = one_thread\<lparr>spcd_pid := (spcd_pid one_thread)[4711 := \<lparr>ps_pid = -1, ps_tid = -1\<rparr>],
     spcd_active_threads := spcd_active_threads one_thread - 1\<rparr>"
  by (simp add: one_exit_def delete_pid_cases[OF one_thread_wf] one_thread_live low_bits_slot)

lemma one_exit_delete: "spcd_delete_pid low_bits_hash 4711 one_thread = Some one_exit"
  by (simp add: one_exit_eq delete_pid_cases[OF one_thread_wf] one_thread_live low_bits_slot)

theorem tids_never_reused_witness:
  "\<exists>u s3. spcd_add_pid low_bits_hash 1024 4711 one_exit = Some (u, s3) \<and> 0 < u"
proof -
  have wf: "pid_wf low_bits_hash 1024 one_exit"
    by (rule delete_pid_wf[OF one_thread_wf _ one_exit_delete]) simp
  have "spcd_num_threads one_exit = 1" "ps_pid (spcd_pid one_exit ! pid_slot low_bits_hash 4711) = -1"
    using add_pid_success(5)[OF cleared_wf _ one_thread_add] pid_wf_length[OF one_thread_wf]
    by (simp_all add: one_exit_eq low_bits_slot)
  then obtain s3 where s3: "spcd_add_pid low_bits_hash 1024 4711 one_exit = Some (1, s3)"
    by (simp add: add_pid_cases[OF wf] Let_def)
  have "0 < (1::int)"
    by (rule tids_never_reused[OF cleared_wf _ _ _ one_thread_add _ _ s3, of "[RDelete 4711]"])
      (simp_all add: one_exit_delete)
  with s3 show ?thesis by blast
qed

text \<open>
  C12: removing a thread. On a well-formed registry \<open>spcd_delete_pid\<close> always returns and keeps it well-formed: the
  pid has no tid afterwards, every other pid keeps its own, one thread less is active exactly when the pid had a tid,
  and neither the numbering nor the reverse array changes, which goes on to give the dead pid for its tid.
\<close>
theorem delete_pid_spec:
  assumes "pid_wf hash m st" "pid \<noteq> -1"
  shows "\<exists>st'. spcd_delete_pid hash pid st = Some st' \<and> pid_wf hash m st' \<and>
    spcd_get_tid hash pid st' = Some (-1) \<and> (\<forall>p. p \<noteq> -1 \<and> p \<noteq> pid \<longrightarrow> spcd_get_tid hash p st' = spcd_get_tid hash p st) \<and>
    spcd_get_active_threads st' = spcd_get_active_threads st - (if spcd_get_tid hash pid st = Some (-1) then 0 else 1) \<and>
    spcd_get_num_threads st' = spcd_get_num_threads st \<and> (\<forall>t. spcd_get_pid t st' = spcd_get_pid t st)"
proof -
  obtain st' where del: "spcd_delete_pid hash pid st = Some st'"
    by (cases "live hash st pid") (simp_all add: delete_pid_cases[OF assms])
  from registry.del_law[OF assms] del have wf: "pid_wf hash m st'" and live: "live hash st' = (live hash st)(pid := None)"
    and num: "spcd_num_threads st' = spcd_num_threads st" by simp_all
  note tid = spcd_get_tid_live[OF assms(1)] spcd_get_tid_live[OF wf]
  have act: "spcd_active_threads st' = spcd_active_threads st - (if live hash st pid = None then 0 else 1)"
    and rev: "spcd_pid_reverse st' = spcd_pid_reverse st"
    using del by (auto simp: delete_pid_cases[OF assms] split: if_splits)
  have "live hash st pid = None \<longleftrightarrow> spcd_get_tid hash pid st = Some (-1)"
    using tid(1)[OF assms(2)] live_range[OF assms(1), of pid] by (cases "live hash st pid") auto
  with del wf live num act rev tid assms(2) show ?thesis
    by (simp add: spcd_get_active_threads_def spcd_get_num_threads_def spcd_get_pid_def)
qed

theorem delete_pid_spec_witness:
  "spcd_get_tid low_bits_hash 4711 one_exit = Some (-1) \<and> spcd_get_pid 0 one_exit = Some 4711 \<and>
    spcd_get_active_threads one_exit = spcd_get_active_threads one_thread - 1"
proof -
  have "spcd_get_tid low_bits_hash 4711 one_thread = Some 0" using spcd_get_tid_live[OF one_thread_wf, of 4711] one_thread_live by simp
  moreover have "spcd_get_pid 0 one_thread = Some 4711" using live_reverse[OF one_thread_wf one_thread_live] by simp
  ultimately show ?thesis using delete_pid_spec[OF one_thread_wf, of 4711] by (simp add: one_exit_delete)
qed

end
