(* ===== verification/Cdsm_Mem.thy ===== *)
theory Cdsm_Mem
  imports Cdsm_Config Cdsm_Pid
begin

text \<open>
  The table of memory blocks, \<open>src/mem.c\<close>: \<open>2 ^ spcd_mem_hash_bits\<close> elements, each the state of the
  last block (an address shifted by \<open>spcd_shift\<close>) that hashed to it: its number, the time of its last
  access and the last two threads that accessed it. A block that hashes to an element of another block
  evicts it. \<open>struct spcd_mem_info\<close> is in \<open>src/spcd.h\<close>.

  \<open>window\<close> reads an element as the list of its threads, the most recent first, and \<open>mem_wf\<close> is the
  invariant of the table.
\<close>

section \<open>The code\<close>

record spcd_mem_info =
  pg_addr :: u64
  mi_tsc :: u64
  sharer_0 :: u16
  sharer_1 :: u16

record mem_state =
  mem :: "spcd_mem_info list option"
  spcd_addr_conflict :: u64

definition zero_elem :: spcd_mem_info where
  "zero_elem = \<lparr>pg_addr = 0, mi_tsc = 0, sharer_0 = 0, sharer_1 = 0\<rparr>"

definition addr_to_page :: "config \<Rightarrow> u64 \<Rightarrow> u64 option" where
  "addr_to_page cfg address =
     (if 0 \<le> spcd_shift cfg \<and> spcd_shift cfg < 64 then Some (drop_bit (nat (spcd_shift cfg)) address) else None)"

text \<open>The element of a page. \<open>hash_32\<close> takes 32 bits of the page number.\<close>

definition mem_slot :: "hash_fun \<Rightarrow> config \<Rightarrow> u64 \<Rightarrow> nat" where
  "mem_slot hash cfg page = unat (hash (ucast page) (nat (spcd_mem_hash_bits cfg)))"

definition spcd_get_mem :: "hash_fun \<Rightarrow> config \<Rightarrow> u64 \<Rightarrow> mem_state \<Rightarrow> nat option" where
  "spcd_get_mem hash cfg address st = do {
     t \<leftarrow> mem st;
     page \<leftarrow> addr_to_page cfg address;
     let i = mem_slot hash cfg page;
     if i < length t then Some i else None
   }"

definition spcd_get_mem_init :: "hash_fun \<Rightarrow> config \<Rightarrow> u64 \<Rightarrow> mem_state \<Rightarrow> (nat \<times> mem_state) option" where
  "spcd_get_mem_init hash cfg address st = do {
     i \<leftarrow> spcd_get_mem hash cfg address st;
     page \<leftarrow> addr_to_page cfg address;
     t \<leftarrow> mem st;
     elem \<leftarrow> aget t i;
     if pg_addr elem \<noteq> page then do {
       let conflicts = (if pg_addr elem \<noteq> 0 then spcd_addr_conflict st + 1 else spcd_addr_conflict st);
       t' \<leftarrow> aput t i (elem\<lparr>sharer_0 := -1, sharer_1 := -1, pg_addr := page\<rparr>);
       Some (i, st\<lparr>mem := Some t', spcd_addr_conflict := conflicts\<rparr>)
     } else Some (i, st)
   }"

text \<open>\<open>int hash_size = 1UL << bits\<close>: the low 32 bits, read as a signed number.\<close>

definition mem_hash_size :: "config \<Rightarrow> int option" where
  "mem_hash_size cfg =
     (if 0 \<le> spcd_mem_hash_bits cfg \<and> spcd_mem_hash_bits cfg < 64
      then Some (sint (ucast (push_bit (nat (spcd_mem_hash_bits cfg)) 1 :: u64) :: u32)) else None)"

text \<open>
  \<open>alloc_ok\<close> is the answer of \<open>vmalloc\<close>, which cannot be positive for a size of zero or of a negative
  \<open>hash_size\<close> converted to \<open>size_t\<close>. A table that exists is kept and zeroed.
\<close>

definition spcd_mem_init :: "config \<Rightarrow> bool \<Rightarrow> mem_state \<Rightarrow> mem_state option" where
  "spcd_mem_init cfg alloc_ok st = do {
     hash_size \<leftarrow> mem_hash_size cfg;
     (case mem st of
        None \<Rightarrow>
          Some (st\<lparr>mem := (if alloc_ok \<and> 0 < hash_size then Some (replicate (nat hash_size) zero_elem) else None),
                  spcd_addr_conflict := 0\<rparr>)
      | Some t \<Rightarrow>
          if 0 \<le> hash_size \<and> nat hash_size \<le> length t
          then Some (st\<lparr>mem := Some (replicate (nat hash_size) zero_elem @ drop (nat hash_size) t),
                       spcd_addr_conflict := 0\<rparr>)
          else None)
   }"

section \<open>Elements as windows\<close>

text \<open>The threads of an element, the most recent first.\<close>

definition window :: "spcd_mem_info \<Rightarrow> int list" where
  "window e = (if sint (sharer_0 e) = -1 then [] else if sint (sharer_1 e) = -1 then [sint (sharer_0 e)]
     else [sint (sharer_0 e), sint (sharer_1 e)])"

definition elem_safe :: "int \<Rightarrow> spcd_mem_info \<Rightarrow> bool" where
  "elem_safe n e \<longleftrightarrow> (sint (sharer_0 e) = -1 \<longrightarrow> sint (sharer_1 e) = -1) \<and> (\<forall>t \<in> set (window e). 0 \<le> t \<and> t < n)"

text \<open>
  The invariant of the table, for tids below \<open>n\<close>. The two threads of an element differ, except perhaps
  in an element of block 0: a zeroed element reads as block 0 with thread 0 twice.
\<close>

definition mem_wf :: "config \<Rightarrow> int \<Rightarrow> mem_state \<Rightarrow> bool" where
  "mem_wf cfg n st \<longleftrightarrow>
     0 < spcd_mem_hash_bits cfg \<and> spcd_mem_hash_bits cfg \<le> 30 \<and> 0 < n \<and>
     (\<exists>t. mem st = Some t \<and> length t = 2 ^ nat (spcd_mem_hash_bits cfg) \<and>
       (\<forall>e \<in> set t. elem_safe n e \<and> (pg_addr e \<noteq> 0 \<longrightarrow> distinct (window e))))"

lemma sint_of_tid: "0 \<le> t \<Longrightarrow> t < 2 ^ 15 \<Longrightarrow> sint (word_of_int t :: u16) = t"
  by (simp add: signed_of_int signed_take_bit_int_eq_self)

lemma sint_minus_one [simp]: "sint (-1 :: 'a::len word) = -1"
  by simp

lemma window_zero [simp]: "window zero_elem = [0, 0]"
  by (simp add: window_def zero_elem_def)

lemma elem_safe_zero: "0 < n \<Longrightarrow> elem_safe n zero_elem"
  by (simp add: elem_safe_def) (simp add: zero_elem_def)

lemma mem_hash_size_eq:
  assumes "0 \<le> spcd_mem_hash_bits cfg" "spcd_mem_hash_bits cfg \<le> 30"
  shows "mem_hash_size cfg = Some (2 ^ nat (spcd_mem_hash_bits cfg))"
proof -
  define b where "b = nat (spcd_mem_hash_bits cfg)"
  have b: "b \<le> 30" using assms by (simp add: b_def)
  have "(2::int) ^ b \<le> 2 ^ 30" using b by (intro power_increasing) auto
  then have lt: "(2::int) ^ b < 2 ^ 31" by simp
  then have "take_bit 64 (2 ^ b) = (2::int) ^ b"
    using b by (simp add: take_bit_int_eq_self_iff)
  moreover have "(push_bit b 1 :: u64) = word_of_int (2 ^ b)"
    by simp
  ultimately have "uint (push_bit b 1 :: u64) = 2 ^ b"
    by (simp only: unsigned_of_int) simp
  then have "sint (ucast (push_bit b 1 :: u64) :: u32) = 2 ^ b"
    using lt order_trans[of "- (2 ^ 31)" 0 "(2::int) ^ b"]
    by (simp add: signed_ucast_eq signed_take_bit_int_eq_self)
  then show ?thesis using assms by (simp add: mem_hash_size_def b_def)
qed

lemma spcd_mem_init_fresh:
  assumes "0 < spcd_mem_hash_bits cfg" "spcd_mem_hash_bits cfg \<le> 30" "0 < n" "mem st = None"
  shows "\<exists>st'. spcd_mem_init cfg True st = Some st' \<and> mem_wf cfg n st' \<and>
    mem st' = Some (replicate (2 ^ nat (spcd_mem_hash_bits cfg)) zero_elem)"
  using assms mem_hash_size_eq[of cfg] elem_safe_zero[of n]
  by (simp add: spcd_mem_init_def mem_wf_def nat_power_eq) (simp add: zero_elem_def)

lemma spcd_mem_init_again:
  assumes "mem_wf cfg n st"
  shows "\<exists>st'. spcd_mem_init cfg ok st = Some st' \<and> mem_wf cfg n st' \<and>
    mem st' = Some (replicate (2 ^ nat (spcd_mem_hash_bits cfg)) zero_elem)"
  using assms mem_hash_size_eq[of cfg] elem_safe_zero[of n]
  by (auto simp: spcd_mem_init_def mem_wf_def nat_power_eq) (simp_all add: zero_elem_def)

section \<open>Lookup\<close>

lemma mem_slot_less:
  assumes "hash_32_ok hash" "mem_wf cfg n st" "mem st = Some t"
  shows "mem_slot hash cfg page < length t"
proof -
  have "0 < nat (spcd_mem_hash_bits cfg)" "nat (spcd_mem_hash_bits cfg) \<le> 32"
    using assms(2) by (auto simp: mem_wf_def)
  then show ?thesis using assms unfolding hash_32_ok_def mem_slot_def by (auto simp: mem_wf_def)
qed

text \<open>The element as it is after a lookup of a page: reset if it held another block.\<close>

definition claim_elem :: "u64 \<Rightarrow> spcd_mem_info \<Rightarrow> spcd_mem_info" where
  "claim_elem page e = (if pg_addr e \<noteq> page then e\<lparr>sharer_0 := -1, sharer_1 := -1, pg_addr := page\<rparr> else e)"

lemma window_claim: "window (claim_elem page e) = (if pg_addr e = page then window e else [])"
  by (simp add: claim_elem_def window_def)

lemma claim_pg [simp]: "pg_addr (claim_elem page e) = page"
  by (simp add: claim_elem_def)

lemma claim_safe: "elem_safe n e \<Longrightarrow> elem_safe n (claim_elem page e)"
  by (auto simp: claim_elem_def elem_safe_def window_def)

lemma get_mem_init_eq:
  assumes "hash_32_ok hash" "mem_wf cfg n st" "mem st = Some t" "addr_to_page cfg address = Some page"
  defines "i \<equiv> mem_slot hash cfg page"
  shows "\<exists>c. spcd_get_mem_init hash cfg address st =
    Some (i, st\<lparr>mem := Some (t[i := claim_elem page (t ! i)]), spcd_addr_conflict := c\<rparr>) \<and>
    c = (if pg_addr (t ! i) \<noteq> page \<and> pg_addr (t ! i) \<noteq> 0 then spcd_addr_conflict st + 1
         else spcd_addr_conflict st)"
proof -
  have i: "i < length t" unfolding i_def by (rule mem_slot_less[OF assms(1-3)])
  have "st = st\<lparr>mem := Some t, spcd_addr_conflict := spcd_addr_conflict st\<rparr>"
    using assms(3) by (cases st) simp
  with i assms(3,4) show ?thesis
    by (simp add: spcd_get_mem_init_def spcd_get_mem_def Let_def i_def claim_elem_def)
qed

lemma mem_wf_update:
  assumes "mem_wf cfg n st" "mem st = Some t" "elem_safe n e" "pg_addr e \<noteq> 0 \<Longrightarrow> distinct (window e)"
  shows "mem_wf cfg n (st\<lparr>mem := Some (t[i := e]), spcd_addr_conflict := c\<rparr>)"
  using assms by (auto simp: mem_wf_def dest!: set_update_subset_insert[THEN subsetD])

end
