(* ===== verification/Cdsm_Matrix.thy ===== *)
theory Cdsm_Matrix
  imports Cdsm_Prelude
begin

text \<open>
  The communication matrices. The module keeps one flat array of \<open>max_threads * max_threads\<close> cells of
  which only the lower triangle is used: \<open>get_comm\<close> and \<open>inc_comm\<close> of \<open>src/spcd.h\<close>, and
  \<open>get_matrix\<close> and \<open>set_matrix\<close> of \<open>src/libmapping/lib.h\<close>, order the two indices before they index.
  The user-space build of libmapping keeps a square array and uses its upper triangle
  (\<open>comm_matrix_ptr_el\<close>, \<open>_write\<close>, \<open>_add\<close>, \<open>_sub\<close>).

  The locale \<open>sym_matrix\<close> is the contract that all of them keep, a symmetric table with independent
  cells, and proves the filling loop of the mapping algorithm once; it is interpreted on both
  representations.
\<close>

section \<open>The code\<close>

text \<open>\<open>(i << bits) + j\<close> on C ints.\<close>

definition mat_index :: "int \<Rightarrow> int \<Rightarrow> int \<Rightarrow> int option" where
  "mat_index bits i j = do { s \<leftarrow> shl_int i bits; cint (s + j) }"

record spcd_comm_matrix =
  matrix :: "u32 list option"
  nthreads :: nat

definition get_comm :: "int \<Rightarrow> spcd_comm_matrix \<Rightarrow> int \<Rightarrow> int \<Rightarrow> u32 option" where
  "get_comm bits m first second = do {
     a \<leftarrow> matrix m;
     k \<leftarrow> (if first > second then mat_index bits first second else mat_index bits second first);
     agetz a k
   }"

text \<open>The two time stamps are arguments of \<open>inc_comm\<close> that it does not use.\<close>

definition inc_comm :: "int \<Rightarrow> int \<Rightarrow> int \<Rightarrow> u32 \<Rightarrow> u64 \<Rightarrow> spcd_comm_matrix \<Rightarrow> spcd_comm_matrix option" where
  "inc_comm bits first second old_tsc new_tsc m = do {
     a \<leftarrow> matrix m;
     k \<leftarrow> (if first > second then mat_index bits first second else mat_index bits second first);
     v \<leftarrow> agetz a k;
     a' \<leftarrow> aputz a k (v + 1);
     Some (m\<lparr>matrix := Some a'\<rparr>)
   }"

definition get_matrix :: "int \<Rightarrow> spcd_comm_matrix \<Rightarrow> int \<Rightarrow> int \<Rightarrow> u32 option" where
  "get_matrix bits m i j = do {
     a \<leftarrow> matrix m;
     k \<leftarrow> (if i > j then mat_index bits i j else mat_index bits j i);
     agetz a k
   }"

definition set_matrix :: "int \<Rightarrow> spcd_comm_matrix \<Rightarrow> int \<Rightarrow> int \<Rightarrow> u32 \<Rightarrow> spcd_comm_matrix option" where
  "set_matrix bits m i j v = do {
     a \<leftarrow> matrix m;
     k \<leftarrow> (if i > j then mat_index bits i j else mat_index bits j i);
     a' \<leftarrow> aputz a k v;
     Some (m\<lparr>matrix := Some a'\<rparr>)
   }"

text \<open>The user-space representation, \<open>values_[MAX_THREADS][MAX_THREADS]\<close>; the build sets 128.\<close>

definition MAX_THREADS :: nat where
  "MAX_THREADS = 128"

record comm_matrix_t =
  cm_values :: "u64 list list"
  cm_nthreads :: nat

definition comm_matrix_ptr_el :: "comm_matrix_t \<Rightarrow> nat \<Rightarrow> nat \<Rightarrow> u64 option" where
  "comm_matrix_ptr_el m row col =
     (if row < col then do { r \<leftarrow> aget (cm_values m) row; aget r col }
      else do { r \<leftarrow> aget (cm_values m) col; aget r row })"

definition cm_store :: "comm_matrix_t \<Rightarrow> nat \<Rightarrow> nat \<Rightarrow> (u64 \<Rightarrow> u64) \<Rightarrow> comm_matrix_t option" where
  "cm_store m i j f = do {
     r \<leftarrow> aget (cm_values m) i;
     v \<leftarrow> aget r j;
     r' \<leftarrow> aput r j (f v);
     vs \<leftarrow> aput (cm_values m) i r';
     Some (m\<lparr>cm_values := vs\<rparr>)
   }"

definition comm_matrix_ptr_write :: "comm_matrix_t \<Rightarrow> nat \<Rightarrow> nat \<Rightarrow> u64 \<Rightarrow> comm_matrix_t option" where
  "comm_matrix_ptr_write m row col val =
     (if row < col then cm_store m row col (\<lambda>_. val) else cm_store m col row (\<lambda>_. val))"

definition comm_matrix_ptr_add :: "comm_matrix_t \<Rightarrow> nat \<Rightarrow> nat \<Rightarrow> u64 \<Rightarrow> comm_matrix_t option" where
  "comm_matrix_ptr_add m row col val =
     (if row < col then cm_store m row col (\<lambda>v. v + val) else cm_store m col row (\<lambda>v. v + val))"

definition comm_matrix_ptr_sub :: "comm_matrix_t \<Rightarrow> nat \<Rightarrow> nat \<Rightarrow> u64 \<Rightarrow> comm_matrix_t option" where
  "comm_matrix_ptr_sub m row col val =
     (if row < col then cm_store m row col (\<lambda>v. v - val) else cm_store m col row (\<lambda>v. v - val))"

section \<open>The contract\<close>

text \<open>The loops that write a value for every pair \<open>i < j < n\<close> (\<open>recreate_matrix\<close>).\<close>

definition fill_pairs ::
  "('m \<Rightarrow> nat \<Rightarrow> nat \<Rightarrow> 'v \<Rightarrow> 'm option) \<Rightarrow> nat \<Rightarrow> (nat \<Rightarrow> nat \<Rightarrow> 'v option) \<Rightarrow> 'm \<Rightarrow> 'm option" where
  "fill_pairs put n f m =
     foldM (\<lambda>i. foldM (\<lambda>j m. do { v \<leftarrow> f i j; put m i j v }) [i + 1..<n]) [0..<n - 1] m"

locale sym_matrix =
  fixes get :: "'m \<Rightarrow> nat \<Rightarrow> nat \<Rightarrow> 'v option"
    and put :: "'m \<Rightarrow> nat \<Rightarrow> nat \<Rightarrow> 'v \<Rightarrow> 'm option"
    and dim :: nat
    and inv :: "'m \<Rightarrow> bool"
  assumes get_defined: "inv m \<Longrightarrow> i < dim \<Longrightarrow> j < dim \<Longrightarrow> \<exists>v. get m i j = Some v"
    and get_sym: "get m i j = get m j i"
    and put_law: "inv m \<Longrightarrow> i < dim \<Longrightarrow> j < dim \<Longrightarrow> wp (put m i j v) (\<lambda>m'. inv m' \<and>
      (\<forall>k < dim. \<forall>l < dim. get m' k l = (if {k, l} = {i, j} then Some v else get m k l)))"
begin

lemma fill_row:
  assumes m: "inv m" and i: "i < n" "n \<le> dim" and f: "\<And>j. i < j \<Longrightarrow> j < n \<Longrightarrow> f i j \<noteq> None"
  shows "wp (foldM (\<lambda>j m. do { v \<leftarrow> f i j; put m i j v }) [i + 1..<n] m) (\<lambda>m'. inv m' \<and>
    (\<forall>k < dim. \<forall>l < dim. get m' k l =
      (if k = i \<and> i < l \<and> l < n then f k l else if l = i \<and> i < k \<and> k < n then f l k else get m k l)))"
proof -
  define I where "I = (\<lambda>c m'. inv m' \<and> (\<forall>k < dim. \<forall>l < dim. get m' k l =
      (if k = i \<and> i < l \<and> l < c then f k l else if l = i \<and> i < k \<and> k < c then f l k else get m k l)))"
  have "wp (foldM (\<lambda>j m. do { v \<leftarrow> f i j; put m i j v }) [i + 1..<n] m) (I n)"
  proof (rule wp_for [where I = I])
    show "i + 1 \<le> n" using i by simp
    show "I (i + 1) m" using m by (auto simp: I_def)
    fix j m' assume j: "i + 1 \<le> j" "j < n" and I: "I j m'"
    then obtain v where v: "f i j = Some v" using f[of j] by auto
    from I have inv': "inv m'" by (simp add: I_def)
    show "wp (do { v \<leftarrow> f i j; put m' i j v }) (I (Suc j))"
      using put_law[OF inv', of i j v] j i I v
      by (auto simp: I_def less_Suc_eq doubleton_eq_iff elim!: wp_mono)
  qed
  then show ?thesis by (simp add: I_def)
qed

text \<open>After the loops every pair below \<open>n\<close> holds its value, and nothing else changed.\<close>

lemma fill_pairs_law:
  assumes m: "inv m" and n: "n \<le> dim" and f: "\<And>i j. i < j \<Longrightarrow> j < n \<Longrightarrow> f i j \<noteq> None"
  shows "wp (fill_pairs put n f m) (\<lambda>m'. inv m' \<and> (\<forall>k < dim. \<forall>l < dim. get m' k l =
    (if k < l \<and> l < n then f k l else if l < k \<and> k < n then f l k else get m k l)))"
proof -
  define I where "I = (\<lambda>c m'. inv m' \<and> (\<forall>k < dim. \<forall>l < dim. get m' k l =
    (if k < c \<and> k < l \<and> l < n then f k l else if l < c \<and> l < k \<and> k < n then f l k else get m k l)))"
  have "wp (fill_pairs put n f m) (I (n - 1))"
    unfolding fill_pairs_def
  proof (rule wp_for0 [where I = I])
    show "I 0 m" using m by (simp add: I_def)
    fix i m' assume i: "i < n - 1" and I: "I i m'"
    from I have inv': "inv m'" by (simp add: I_def)
    have "wp (foldM (\<lambda>j m. do { v \<leftarrow> f i j; put m i j v }) [i + 1..<n] m') (\<lambda>m''. inv m'' \<and>
      (\<forall>k < dim. \<forall>l < dim. get m'' k l =
        (if k = i \<and> i < l \<and> l < n then f k l else if l = i \<and> i < k \<and> k < n then f l k else get m' k l)))"
      by (rule fill_row) (use inv' i n f in auto)
    then show "wp (foldM (\<lambda>j m. do { v \<leftarrow> f i j; put m i j v }) [i + 1..<n] m') (I (Suc i))"
      by (rule wp_mono) (use I in \<open>auto simp: I_def less_Suc_eq\<close>)
  qed
  then show ?thesis
    by (rule wp_mono) (auto simp: I_def)
qed

end

section \<open>The triangular index\<close>

definition cell :: "nat \<Rightarrow> nat \<Rightarrow> nat \<Rightarrow> nat" where
  "cell b i j = max i j * 2 ^ b + min i j"

lemma cell_sym: "cell b i j = cell b j i"
  by (simp add: cell_def max.commute min.commute)

lemma cell_less: "i < 2 ^ b \<Longrightarrow> j < 2 ^ b \<Longrightarrow> cell b i j < 2 ^ b * 2 ^ b"
proof -
  assume "i < 2 ^ b" "j < 2 ^ b"
  then have "max i j + 1 \<le> 2 ^ b" "min i j < 2 ^ b" by auto
  then have "(max i j + 1) * 2 ^ b \<le> 2 ^ b * 2 ^ b" "min i j < 2 ^ b" by (simp_all only: mult_le_mono1)
  then show ?thesis by (simp add: cell_def)
qed

lemma cell_inj:
  assumes "i < 2 ^ b" "j < 2 ^ b" "k < 2 ^ b" "l < 2 ^ b"
  shows "cell b i j = cell b k l \<longleftrightarrow> {i, j} = {k, l}"
proof
  assume "cell b i j = cell b k l"
  then have "cell b i j div 2 ^ b = cell b k l div 2 ^ b" "cell b i j mod 2 ^ b = cell b k l mod 2 ^ b"
    by simp_all
  moreover have "cell b x y div 2 ^ b = max x y \<and> cell b x y mod 2 ^ b = min x y"
    if "x < 2 ^ b" "y < 2 ^ b" for x y
    using that by (simp add: cell_def)
  ultimately have "max i j = max k l" "min i j = min k l" using assms by simp_all
  then show "{i, j} = {k, l}" by (auto simp: max_def min_def split: if_splits)
next
  assume "{i, j} = {k, l}"
  then show "cell b i j = cell b k l" by (auto simp: doubleton_eq_iff cell_sym)
qed

definition matrix_wf :: "int \<Rightarrow> spcd_comm_matrix \<Rightarrow> bool" where
  "matrix_wf bits m \<longleftrightarrow> 0 \<le> bits \<and> bits \<le> 15 \<and>
     (\<exists>a. matrix m = Some a \<and> length a = 2 ^ nat bits * 2 ^ nat bits)"

definition dim_int :: "int \<Rightarrow> int" where
  "dim_int bits = 2 ^ nat bits"

lemma mat_index_eq:
  assumes "0 \<le> bits" "bits \<le> 15" "0 \<le> i" "i < dim_int bits" "0 \<le> j" "j < dim_int bits"
  shows "(if i > j then mat_index bits i j else mat_index bits j i) = Some (int (cell (nat bits) (nat i) (nat j)))"
proof -
  have le: "(2::int) ^ nat bits \<le> 2 ^ 15" using assms by (intro power_increasing) auto
  have lt: "x * 2 ^ nat bits + y < 2 ^ 31" "x * 2 ^ nat bits < 2 ^ 31"
    if "0 \<le> x" "x < dim_int bits" "0 \<le> y" "y < dim_int bits" for x y :: int
  proof -
    have "(x + 1) * 2 ^ nat bits \<le> 2 ^ 15 * 2 ^ 15"
      using that le by (intro mult_mono) (auto simp: dim_int_def)
    moreover have "x * 2 ^ nat bits + y < (x + 1) * 2 ^ nat bits"
      using that by (simp add: dim_int_def distrib_right)
    moreover have "x * 2 ^ nat bits \<le> x * 2 ^ nat bits + y" using that by simp
    ultimately show "x * 2 ^ nat bits + y < 2 ^ 31" "x * 2 ^ nat bits < 2 ^ 31" by simp_all
  qed
  have idx: "mat_index bits x y = Some (x * 2 ^ nat bits + y)"
    if "0 \<le> x" "x < dim_int bits" "0 \<le> y" "y < dim_int bits" for x y
  proof -
    have "0 \<le> x * 2 ^ nat bits" using that by simp
    then have "in_int (x * 2 ^ nat bits)" "in_int (x * 2 ^ nat bits + y)"
      unfolding in_int_def using lt[OF that] that(3) by linarith+
    then show ?thesis
      using that assms(1,2) by (simp add: mat_index_def shl_int_def cint_def)
  qed
  show ?thesis using assms by (auto simp: idx cell_def max_def min_def nat_le_eq_zle)
qed

lemma get_comm_eq:
  assumes "matrix_wf bits m" and "0 \<le> i" "i < dim_int bits" "0 \<le> j" "j < dim_int bits"
  shows "get_comm bits m i j = Some (the (matrix m) ! cell (nat bits) (nat i) (nat j))"
proof -
  from assms(2-5) have "cell (nat bits) (nat i) (nat j) < 2 ^ nat bits * 2 ^ nat bits"
    by (intro cell_less) (auto simp: dim_int_def nat_less_iff)
  with assms show ?thesis
    unfolding get_comm_def by (subst mat_index_eq) (auto simp: matrix_wf_def)
qed

lemma get_matrix_get_comm: "get_matrix bits m i j = get_comm bits m i j"
  by (simp add: get_matrix_def get_comm_def)

lemma get_comm_sym: "get_comm bits m i j = get_comm bits m j i"
  by (cases "i = j") (auto simp: get_comm_def)

lemma store_cell:
  fixes v :: u32
  assumes "matrix_wf bits m" and "0 \<le> i" "i < dim_int bits" "0 \<le> j" "j < dim_int bits"
  defines "c \<equiv> cell (nat bits) (nat i) (nat j)"
  defines "m' \<equiv> m\<lparr>matrix := Some ((the (matrix m))[c := v])\<rparr>"
  shows "matrix_wf bits m'"
    and "0 \<le> k \<Longrightarrow> k < dim_int bits \<Longrightarrow> 0 \<le> l \<Longrightarrow> l < dim_int bits \<Longrightarrow>
      get_comm bits m' k l = (if {k, l} = {i, j} then Some v else get_comm bits m k l)"
proof -
  show wf: "matrix_wf bits m'" using assms(1) by (auto simp: m'_def matrix_wf_def)
  assume kl: "0 \<le> k" "k < dim_int bits" "0 \<le> l" "l < dim_int bits"
  have "c < 2 ^ nat bits * 2 ^ nat bits"
    unfolding c_def using assms(2-5) by (intro cell_less) (auto simp: dim_int_def nat_less_iff)
  then have c: "c < length (the (matrix m))" using assms(1) by (auto simp: matrix_wf_def)
  have "c = cell (nat bits) (nat k) (nat l) \<longleftrightarrow> {nat i, nat j} = {nat k, nat l}"
    unfolding c_def using assms(2-5) kl by (intro cell_inj) (auto simp: dim_int_def nat_less_iff)
  also have "\<dots> \<longleftrightarrow> {k, l} = {i, j}"
    using assms(2-5) kl by (auto simp: doubleton_eq_iff)
  finally have same: "c = cell (nat bits) (nat k) (nat l) \<longleftrightarrow> {k, l} = {i, j}" .
  show "get_comm bits m' k l = (if {k, l} = {i, j} then Some v else get_comm bits m k l)"
    unfolding get_comm_eq[OF wf kl] get_comm_eq[OF assms(1) kl]
    using c same by (simp add: m'_def nth_list_update)
qed

lemma set_matrix_eq:
  assumes "matrix_wf bits m" and "0 \<le> i" "i < dim_int bits" "0 \<le> j" "j < dim_int bits"
  shows "set_matrix bits m i j v =
    Some (m\<lparr>matrix := Some ((the (matrix m))[cell (nat bits) (nat i) (nat j) := v])\<rparr>)"
proof -
  from assms(2-5) have "cell (nat bits) (nat i) (nat j) < 2 ^ nat bits * 2 ^ nat bits"
    by (intro cell_less) (auto simp: dim_int_def nat_less_iff)
  with assms show ?thesis
    unfolding set_matrix_def by (subst mat_index_eq) (auto simp: matrix_wf_def)
qed

lemma inc_comm_eq:
  assumes "matrix_wf bits m" and "0 \<le> i" "i < dim_int bits" "0 \<le> j" "j < dim_int bits"
  shows "inc_comm bits i j ts ts' m =
    Some (m\<lparr>matrix := Some ((the (matrix m))[cell (nat bits) (nat i) (nat j) :=
      the (get_comm bits m i j) + 1])\<rparr>)"
proof -
  from assms(2-5) have "cell (nat bits) (nat i) (nat j) < 2 ^ nat bits * 2 ^ nat bits"
    by (intro cell_less) (auto simp: dim_int_def nat_less_iff)
  with assms show ?thesis
    unfolding inc_comm_def get_comm_eq[OF assms] by (subst mat_index_eq) (auto simp: matrix_wf_def)
qed

text \<open>The module's matrix keeps the contract, in the view of \<open>lib.h\<close>, whose indices are unsigned.\<close>

interpretation spcd_mat: sym_matrix "\<lambda>m i j. get_matrix bits m (int i) (int j)"
  "\<lambda>m i j v. set_matrix bits m (int i) (int j) v" "2 ^ nat bits" "matrix_wf bits"
  for bits :: int
proof unfold_locales
  fix m and i j :: nat
  assume m: "matrix_wf bits m" and ij: "i < 2 ^ nat bits" "j < 2 ^ nat bits"
  from ij have ij': "0 \<le> int i" "int i < dim_int bits" "0 \<le> int j" "int j < dim_int bits"
    by (simp_all add: dim_int_def)
  show "\<exists>v. get_matrix bits m (int i) (int j) = Some v"
    by (simp add: get_matrix_get_comm get_comm_eq[OF m ij'])
  fix v :: u32
  show "wp (set_matrix bits m (int i) (int j) v) (\<lambda>m'. matrix_wf bits m' \<and>
      (\<forall>k < 2 ^ nat bits. \<forall>l < 2 ^ nat bits. get_matrix bits m' (int k) (int l) =
        (if {k, l} = {i, j} then Some v else get_matrix bits m (int k) (int l))))"
    using store_cell[OF m ij', where v = v]
    by (auto simp: set_matrix_eq[OF m ij'] get_matrix_get_comm dim_int_def doubleton_eq_iff)
next
  fix m and i j :: nat
  show "get_matrix bits m (int i) (int j) = get_matrix bits m (int j) (int i)"
    by (simp only: get_matrix_get_comm get_comm_sym)
qed

section \<open>The user-space matrix\<close>

definition cm_wf :: "comm_matrix_t \<Rightarrow> bool" where
  "cm_wf m \<longleftrightarrow> length (cm_values m) = MAX_THREADS \<and> (\<forall>r \<in> set (cm_values m). length r = MAX_THREADS)"

lemma cm_row: "cm_wf m \<Longrightarrow> i < MAX_THREADS \<Longrightarrow> length (cm_values m ! i) = MAX_THREADS"
  by (simp add: cm_wf_def)

lemma cm_store_eq:
  assumes "cm_wf m" "i < MAX_THREADS" "j < MAX_THREADS"
  shows "cm_store m i j f = Some (m\<lparr>cm_values := (cm_values m)[i := (cm_values m ! i)[j := f (cm_values m ! i ! j)]]\<rparr>)"
  using assms cm_row[OF assms(1,2)] by (simp add: cm_store_def cm_wf_def)

lemma cm_el_eq:
  assumes "cm_wf m" "i < MAX_THREADS" "j < MAX_THREADS"
  shows "comm_matrix_ptr_el m i j = Some (cm_values m ! min i j ! max i j)"
  using assms cm_row[OF assms(1)] by (auto simp: comm_matrix_ptr_el_def cm_wf_def min_def max_def)

lemma cm_update:
  fixes v :: u64
  assumes "cm_wf m" "i < MAX_THREADS" "j < MAX_THREADS" "k < MAX_THREADS" "l < MAX_THREADS"
  defines "m' \<equiv> m\<lparr>cm_values := (cm_values m)[min i j := (cm_values m ! min i j)[max i j := v]]\<rparr>"
  shows "cm_wf m'"
    "comm_matrix_ptr_el m' k l = (if {k, l} = {i, j} then Some v else comm_matrix_ptr_el m k l)"
proof -
  show wf: "cm_wf m'"
    using assms(1-3) cm_row[OF assms(1), of "min i j"]
    by (auto simp: m'_def cm_wf_def all_set_conv_all_nth nth_list_update)
  have "min i j = min k l \<and> max i j = max k l \<longleftrightarrow> {k, l} = {i, j}"
    by (auto simp: min_def max_def doubleton_eq_iff)
  with assms(1-3) cm_row[OF assms(1), of "min i j"] wf
  show "comm_matrix_ptr_el m' k l = (if {k, l} = {i, j} then Some v else comm_matrix_ptr_el m k l)"
    unfolding cm_el_eq[OF wf assms(4,5)] cm_el_eq[OF assms(1,4,5)]
    by (auto simp: m'_def nth_list_update cm_wf_def)
qed

lemma cm_write_eq:
  assumes "cm_wf m" "i < MAX_THREADS" "j < MAX_THREADS"
  shows "comm_matrix_ptr_write m i j v =
    Some (m\<lparr>cm_values := (cm_values m)[min i j := (cm_values m ! min i j)[max i j := v]]\<rparr>)"
  using assms by (auto simp: comm_matrix_ptr_write_def cm_store_eq min_def max_def)

interpretation user_mat: sym_matrix comm_matrix_ptr_el comm_matrix_ptr_write MAX_THREADS cm_wf
proof unfold_locales
  fix m i j assume m: "cm_wf m" and ij: "i < MAX_THREADS" "j < MAX_THREADS"
  show "\<exists>v. comm_matrix_ptr_el m i j = Some v" by (simp add: cm_el_eq[OF m ij])
  fix v
  show "wp (comm_matrix_ptr_write m i j v) (\<lambda>m'. cm_wf m' \<and> (\<forall>k < MAX_THREADS. \<forall>l < MAX_THREADS.
      comm_matrix_ptr_el m' k l = (if {k, l} = {i, j} then Some v else comm_matrix_ptr_el m k l)))"
    using cm_update[OF m ij] ij by (simp add: cm_write_eq[OF m ij])
next
  fix m i j
  show "comm_matrix_ptr_el m i j = comm_matrix_ptr_el m j i"
    by (cases "i = j") (auto simp: comm_matrix_ptr_el_def)
qed

section \<open>Properties\<close>

lemma inc_comm_law:
  assumes "matrix_wf bits m" and "0 \<le> i" "i < dim_int bits" "0 \<le> j" "j < dim_int bits"
  shows "wp (inc_comm bits i j ts ts' m) (\<lambda>m'. matrix_wf bits m' \<and> nthreads m' = nthreads m \<and>
    (\<forall>k l. 0 \<le> k \<longrightarrow> k < dim_int bits \<longrightarrow> 0 \<le> l \<longrightarrow> l < dim_int bits \<longrightarrow>
      get_comm bits m' k l = map_option (\<lambda>c. if {k, l} = {i, j} then c + 1 else c) (get_comm bits m k l)))"
proof -
  define x where "x = the (get_comm bits m i j)"
  have x: "get_comm bits m i j = Some x" by (simp add: x_def get_comm_eq[OF assms])
  note store = store_cell[OF assms, where v = "x + 1"]
  have "get_comm bits (m\<lparr>matrix := Some ((the (matrix m))[cell (nat bits) (nat i) (nat j) := x + 1])\<rparr>) k l =
      map_option (\<lambda>c. if {k, l} = {i, j} then c + 1 else c) (get_comm bits m k l)"
    if kl: "0 \<le> k" "k < dim_int bits" "0 \<le> l" "l < dim_int bits" for k l
  proof (cases "{k, l} = {i, j}")
    case True
    then have "get_comm bits m k l = Some x"
      using x get_comm_sym[of bits m k l] by (auto simp: doubleton_eq_iff)
    with True store(2)[OF kl] show ?thesis by simp
  next
    case False
    with store(2)[OF kl] show ?thesis by (simp add: option.map_ident)
  qed
  with store(1) show ?thesis by (simp add: inc_comm_eq[OF assms] x_def)
qed

text \<open>
  Counting communication. On an allocated matrix of \<open>2 ^ bits\<close> threads (\<open>bits\<close> at most 15) and for
  two valid tids \<open>inc_comm\<close> stays inside the array and adds one, modulo \<open>2 ^ 32\<close>, to the count of the
  unordered pair, read from either side, and to no other count.
\<close>
lemma inc_comm_spec:
  assumes "matrix_wf bits m" and "0 \<le> i" "i < dim_int bits" "0 \<le> j" "j < dim_int bits"
  shows "\<exists>m'. inc_comm bits i j old_tsc new_tsc m = Some m' \<and> matrix_wf bits m' \<and>
    get_comm bits m' i j = map_option (\<lambda>c. c + 1) (get_comm bits m i j) \<and>
    get_comm bits m' j i = get_comm bits m' i j \<and>
    (\<forall>k l. 0 \<le> k \<longrightarrow> k < dim_int bits \<longrightarrow> 0 \<le> l \<longrightarrow> l < dim_int bits \<longrightarrow> {k, l} \<noteq> {i, j} \<longrightarrow>
      get_comm bits m' k l = get_comm bits m k l)"
proof -
  from inc_comm_law[OF assms, of old_tsc new_tsc] obtain m' where m': "inc_comm bits i j old_tsc new_tsc m = Some m'"
    "matrix_wf bits m'"
    and cells: "\<And>k l. 0 \<le> k \<Longrightarrow> k < dim_int bits \<Longrightarrow> 0 \<le> l \<Longrightarrow> l < dim_int bits \<Longrightarrow>
      get_comm bits m' k l = map_option (\<lambda>c. if {k, l} = {i, j} then c + 1 else c) (get_comm bits m k l)"
    by (auto elim!: wpE)
  have "get_comm bits m' i j = map_option (\<lambda>c. c + 1) (get_comm bits m i j)"
    using cells[OF assms(2-5)] by simp
  moreover have "get_comm bits m' k l = get_comm bits m k l"
    if "0 \<le> k" "k < dim_int bits" "0 \<le> l" "l < dim_int bits" "{k, l} \<noteq> {i, j}" for k l
    using cells[OF that(1-4)] that(5) by (simp add: option.map_ident)
  ultimately show ?thesis using m' get_comm_sym by blast
qed

definition small_matrix :: spcd_comm_matrix where
  "small_matrix = \<lparr>matrix = Some (replicate 16 0), nthreads = 0\<rparr>"

lemma small_matrix_wf [simp]: "matrix_wf 2 small_matrix"
  by (simp add: matrix_wf_def small_matrix_def)

lemma inc_comm_spec_example:
  "\<exists>m'. inc_comm 2 1 3 0 0 small_matrix = Some m' \<and> get_comm 2 m' 1 3 = Some 1 \<and> get_comm 2 m' 3 1 = Some 1"
proof -
  have "get_comm 2 small_matrix 1 3 = Some 0"
    by (subst get_comm_eq[OF small_matrix_wf]) (simp_all add: dim_int_def small_matrix_def cell_def)
  then show ?thesis
    using inc_comm_spec[OF small_matrix_wf, of 1 3 0 0] by (auto simp: dim_int_def)
qed

text \<open>
  The user-space matrix. Adding an amount to a pair and subtracting it again, with the indices in
  either order, restores the whole matrix, whatever wraps.
\<close>

lemma user_matrix_add_sub:
  assumes "cm_wf m" and "i < MAX_THREADS" "j < MAX_THREADS"
  shows "\<exists>m'. comm_matrix_ptr_add m i j v = Some m' \<and> cm_wf m' \<and>
    comm_matrix_ptr_el m' j i = map_option (\<lambda>c. c + v) (comm_matrix_ptr_el m i j) \<and>
    comm_matrix_ptr_sub m' j i v = Some m"
proof -
  let ?a = "min i j" and ?b = "max i j" and ?w = "cm_values m ! min i j ! max i j + v"
  define m' where "m' = m\<lparr>cm_values := (cm_values m)[?a := (cm_values m ! ?a)[?b := ?w]]\<rparr>"
  have m': "cm_wf m'" "comm_matrix_ptr_el m' j i = Some ?w"
    unfolding m'_def using cm_update[OF assms, of j i ?w] assms by (auto simp: insert_commute)
  have lt: "?a < length (cm_values m)" "?b < length (cm_values m ! ?a)"
    using assms cm_row[OF assms(1), of ?a] by (auto simp: cm_wf_def)
  have "comm_matrix_ptr_add m i j v = Some m'"
    using assms by (auto simp: comm_matrix_ptr_add_def cm_store_eq m'_def min_def max_def)
  moreover have "comm_matrix_ptr_sub m' j i v = Some m"
  proof -
    have "comm_matrix_ptr_sub m' j i v = cm_store m' ?a ?b (\<lambda>x. x - v)"
      by (auto simp: comm_matrix_ptr_sub_def min_def max_def)
    also have "\<dots> = Some m"
      using lt m'(1) assms by (subst cm_store_eq) (auto simp: m'_def)
    finally show ?thesis .
  qed
  ultimately show ?thesis using m' cm_el_eq[OF assms] by simp
qed

definition zero_user_matrix :: comm_matrix_t where
  "zero_user_matrix = \<lparr>cm_values = replicate MAX_THREADS (replicate MAX_THREADS 0), cm_nthreads = 0\<rparr>"

lemma user_matrix_add_sub_example:
  "\<exists>m'. comm_matrix_ptr_add zero_user_matrix 5 2 7 = Some m' \<and> comm_matrix_ptr_sub m' 2 5 7 = Some zero_user_matrix"
  using user_matrix_add_sub[of zero_user_matrix 5 2 7]
  by (auto simp: cm_wf_def zero_user_matrix_def MAX_THREADS_def)

end
