(* ===== verification/Cdsm_Comm.thy ===== *)
theory Cdsm_Comm
  imports Cdsm_Mem Cdsm_Matrix
begin

text \<open>
  Communication detection, \<open>src/comm.c\<close>. Each memory access of a tracked thread is a call of
  \<open>spcd_check_comm\<close>: it finds the element of the block and, for each other thread among the block's
  last two, counts one communication event; then the thread becomes the most recent one.

  The abstract detector \<open>spec_access\<close> keeps a window of at most two distinct threads per block and a
  symmetric table of counts; the refinement theorem says that the code implements it, with eviction
  of blocks whose hashes collide.
\<close>

section \<open>The code\<close>

definition get_num_sharers :: "spcd_mem_info \<Rightarrow> nat" where
  "get_num_sharers e =
     (if sint (sharer_0 e) = -1 \<and> sint (sharer_1 e) = -1 then 0
      else if sint (sharer_0 e) \<noteq> -1 \<and> sint (sharer_1 e) \<noteq> -1 then 2 else 1)"

text \<open>The \<open>switch\<close> of \<open>spcd_check_comm\<close> on the element it found.\<close>

definition check_sharers ::
  "config \<Rightarrow> int \<Rightarrow> u32 \<Rightarrow> spcd_mem_info \<Rightarrow> spcd_comm_matrix \<Rightarrow> (spcd_mem_info \<times> spcd_comm_matrix) option" where
  "check_sharers cfg tid new_tsc e m = (
     let s0 = sint (sharer_0 e); s1 = sint (sharer_1 e); bits = max_threads_bits cfg;
         inc = (\<lambda>other. inc_comm bits tid other (ucast (mi_tsc e)) (ucast new_tsc));
         shifted = e\<lparr>sharer_1 := sharer_0 e, sharer_0 := word_of_int tid\<rparr>
     in if get_num_sharers e = 0 then Some (e\<lparr>sharer_0 := word_of_int tid\<rparr>, m)
        else if get_num_sharers e = 1 then
          (if s0 \<noteq> tid then do { m1 \<leftarrow> inc s0 m; Some (shifted, m1) } else Some (e, m))
        else
          (if s0 \<noteq> tid \<and> s1 \<noteq> tid then do { m1 \<leftarrow> inc s0 m; m2 \<leftarrow> inc s1 m1; Some (shifted, m2) }
           else if s0 = tid then do { m1 \<leftarrow> inc s1 m; Some (e, m1) }
           else do { m1 \<leftarrow> inc s0 m; Some (shifted, m1) }))"

text \<open>\<open>cycles\<close> is what \<open>get_cycles()\<close> returns; \<open>new_tsc\<close> keeps its low 32 bits.\<close>

definition spcd_check_comm ::
  "hash_fun \<Rightarrow> config \<Rightarrow> u64 \<Rightarrow> int \<Rightarrow> u64 \<Rightarrow> mem_state \<times> spcd_comm_matrix \<Rightarrow>
   (mem_state \<times> spcd_comm_matrix) option" where
  "spcd_check_comm hash cfg cycles tid address s = (case s of (ms, m) \<Rightarrow> do {
     (i, ms) \<leftarrow> spcd_get_mem_init hash cfg address ms;
     t \<leftarrow> mem ms;
     elem \<leftarrow> aget t i;
     let new_tsc = (ucast cycles :: u32);
     (elem, m) \<leftarrow> check_sharers cfg tid new_tsc elem m;
     t \<leftarrow> aput t i (elem\<lparr>mi_tsc := ucast new_tsc\<rparr>);
     Some (ms\<lparr>mem := Some t\<rparr>, m)
   })"

text \<open>
  \<open>alloc\<close> is what \<open>kmalloc\<close> returns, the fresh memory or NULL. A matrix that exists is kept and
  zeroed.
\<close>

definition spcd_comm_init :: "config \<Rightarrow> u32 list option \<Rightarrow> spcd_comm_matrix \<Rightarrow> spcd_comm_matrix option" where
  "spcd_comm_init cfg alloc m = (
     let cells = max_threads cfg * max_threads cfg;
         m = (case matrix m of None \<Rightarrow> m\<lparr>matrix := alloc, nthreads := 0\<rparr> | Some _ \<Rightarrow> m)
     in (case matrix m of
           None \<Rightarrow> Some m
         | Some a \<Rightarrow> if 0 \<le> cells \<and> nat cells \<le> length a
             then Some (m\<lparr>matrix := Some (replicate (nat cells) 0 @ drop (nat cells) a)\<rparr>) else None))"

section \<open>The abstract detector\<close>

text \<open>A thread joins the front of a window of at most two threads.\<close>

definition touch :: "int \<Rightarrow> int list \<Rightarrow> int list" where
  "touch tid w = take 2 (tid # filter (\<lambda>t. t \<noteq> tid) w)"

lemma touch_distinct: "distinct w \<Longrightarrow> distinct (touch tid w)"
  by (auto simp: touch_def dest: in_set_takeD)

lemma touch_length: "length (touch tid w) \<le> 2"
  by (simp add: touch_def)

text \<open>One event for every other thread of the window.\<close>

definition communicates :: "int \<Rightarrow> int list \<Rightarrow> int \<Rightarrow> int \<Rightarrow> bool" where
  "communicates tid w k l \<longleftrightarrow> k \<noteq> l \<and> (k = tid \<and> l \<in> set w \<or> l = tid \<and> k \<in> set w)"

lemma windowE:
  assumes "elem_safe n e" "distinct (window e)"
  obtains (none) "window e = []" "sint (sharer_0 e) = -1" "sint (sharer_1 e) = -1"
  | (one) a where "window e = [a]" "sint (sharer_0 e) = a" "sint (sharer_1 e) = -1" "0 \<le> a" "a < n"
  | (two) a b where "window e = [a, b]" "sint (sharer_0 e) = a" "sint (sharer_1 e) = b" "a \<noteq> b"
      "0 \<le> a" "a < n" "0 \<le> b" "b < n"
  using assms by (auto simp: elem_safe_def window_def split: if_splits)

text \<open>Two increments, the counts of both.\<close>

lemma get_comm_some:
  assumes "matrix_wf bits m" "0 \<le> k" "k < dim_int bits" "0 \<le> l" "l < dim_int bits"
  obtains c where "get_comm bits m k l = Some c"
  using get_comm_eq[OF assms] by simp

definition counted :: "int \<Rightarrow> spcd_comm_matrix \<Rightarrow> int \<Rightarrow> int list \<Rightarrow> spcd_comm_matrix \<Rightarrow> bool" where
  "counted bits m tid w m' \<longleftrightarrow> matrix_wf bits m' \<and> nthreads m' = nthreads m \<and>
    (\<forall>k l. 0 \<le> k \<longrightarrow> k < dim_int bits \<longrightarrow> 0 \<le> l \<longrightarrow> l < dim_int bits \<longrightarrow>
      get_comm bits m' k l = map_option (\<lambda>c. if communicates tid w k l then c + 1 else c) (get_comm bits m k l))"

lemma counted_refl:
  assumes "matrix_wf bits m" "\<forall>t \<in> set w. t = tid"
  shows "counted bits m tid w m"
proof -
  have "\<not> communicates tid w k l" for k l using assms(2) by (auto simp: communicates_def)
  with assms(1) show ?thesis by (simp add: counted_def option.map_ident)
qed

lemma counted_one:
  assumes "matrix_wf bits m" "0 \<le> tid" "tid < dim_int bits" "0 \<le> a" "a < dim_int bits" "a \<noteq> tid"
    and "\<forall>t \<in> set w. t = tid \<or> t = a" "a \<in> set w"
  shows "wp (inc_comm bits tid a ts ts' m) (counted bits m tid w)"
proof -
  have "({k, l} = {tid, a}) = communicates tid w k l" for k l
    using assms(6-8) by (auto simp: communicates_def doubleton_eq_iff)
  then show ?thesis
    using inc_comm_law[OF assms(1-5), of ts ts'] by (simp add: counted_def [abs_def])
qed

lemma counted_two:
  assumes "matrix_wf bits m" "0 \<le> tid" "tid < dim_int bits" "0 \<le> a" "a < dim_int bits"
    and "0 \<le> b" "b < dim_int bits" "a \<noteq> tid" "b \<noteq> tid" "a \<noteq> b"
  shows "wp (do { m1 \<leftarrow> inc_comm bits tid a ts ts' m; inc_comm bits tid b us us' m1 }) (counted bits m tid [a, b])"
proof -
  from counted_one[OF assms(1-5,8), of "[a]" ts ts'] obtain m1 where
    m1: "inc_comm bits tid a ts ts' m = Some m1" "counted bits m tid [a] m1"
    by (auto elim!: wpE)
  then have "matrix_wf bits m1" by (simp add: counted_def)
  from counted_one[OF this assms(2,3,6,7,9), of "[b]" us us'] obtain m2 where
    m2: "inc_comm bits tid b us us' m1 = Some m2" "counted bits m1 tid [b] m2"
    by (auto elim!: wpE)
  have "counted bits m tid [a, b] m2"
    unfolding counted_def
  proof (intro conjI allI impI)
    show "matrix_wf bits m2" "nthreads m2 = nthreads m" using m1 m2 by (auto simp: counted_def)
    fix k l assume kl: "0 \<le> k" "k < dim_int bits" "0 \<le> l" "l < dim_int bits"
    obtain c where "get_comm bits m k l = Some c" by (rule get_comm_some[OF assms(1) kl])
    with m1 m2 kl assms(8-10) show "get_comm bits m2 k l =
        map_option (\<lambda>c. if communicates tid [a, b] k l then c + 1 else c) (get_comm bits m k l)"
      by (auto simp: counted_def communicates_def)
  qed
  with m1 m2 show ?thesis by simp
qed

text \<open>The \<open>switch\<close> implements \<open>touch\<close> and counts what \<open>communicates\<close> says.\<close>

lemma check_sharers_refines:
  assumes m: "matrix_wf (max_threads_bits cfg) m" and tid: "0 \<le> tid" "tid < dim_int (max_threads_bits cfg)"
    and e: "elem_safe (dim_int (max_threads_bits cfg)) e" "distinct (window e)"
  shows "wp (check_sharers cfg tid ts e m) (\<lambda>(e', m'). window e' = touch tid (window e) \<and>
    elem_safe (dim_int (max_threads_bits cfg)) e' \<and> pg_addr e' = pg_addr e \<and>
    counted (max_threads_bits cfg) m tid (window e) m')"
proof -
  let ?b = "max_threads_bits cfg"
  have "dim_int ?b \<le> 2 ^ 15"
    unfolding dim_int_def using m by (intro power_increasing) (auto simp: matrix_wf_def)
  with tid have st: "sint (word_of_int tid :: u16) = tid" by (intro sint_of_tid) auto
  show ?thesis
  proof (rule windowE[OF e])
    assume w: "window e = []" and s: "sint (sharer_0 e) = -1" "sint (sharer_1 e) = -1"
    then have "window (e\<lparr>sharer_0 := word_of_int tid\<rparr>) = [tid]"
      using tid st by (simp add: window_def)
    with w s tid st m show ?thesis
      by (simp add: check_sharers_def Let_def get_num_sharers_def touch_def elem_safe_def counted_refl)
  next
    fix a assume w: "window e = [a]" and s: "sint (sharer_0 e) = a" "sint (sharer_1 e) = -1" "0 \<le> a" "a < dim_int ?b"
    let ?e = "e\<lparr>sharer_1 := sharer_0 e, sharer_0 := word_of_int tid\<rparr>"
    show ?thesis
    proof (cases "a = tid")
      case True
      with w s tid m e show ?thesis
        by (simp add: check_sharers_def Let_def get_num_sharers_def touch_def counted_refl)
    next
      case False
      have e': "window ?e = [tid, a]" using s tid st by (simp add: window_def)
      from counted_one[OF m tid s(3,4) False, of "[a]"] show ?thesis
        using w s tid st False e' unfolding check_sharers_def Let_def get_num_sharers_def
        by (auto simp: touch_def elem_safe_def elim!: wp_mono)
    qed
  next
    fix a b assume w: "window e = [a, b]" and s: "sint (sharer_0 e) = a" "sint (sharer_1 e) = b"
      and ab: "a \<noteq> b" "0 \<le> a" "a < dim_int ?b" "0 \<le> b" "b < dim_int ?b"
    let ?e = "e\<lparr>sharer_1 := sharer_0 e, sharer_0 := word_of_int tid\<rparr>"
    have e': "window ?e = [tid, a]" using s ab tid st by (simp add: window_def)
    consider "tid = a" | "tid = b" | "tid \<noteq> a" "tid \<noteq> b" by blast
    then show ?thesis
    proof cases
      case 1
      have "wp (inc_comm ?b tid b (ucast (mi_tsc e)) (ucast ts) m) (counted ?b m tid [a, b])"
        by (rule counted_one[OF m tid ab(4,5)]) (use 1 ab in auto)
      then show ?thesis
        using w s ab 1 e unfolding check_sharers_def Let_def get_num_sharers_def
        by (auto simp: touch_def elim!: wp_mono)
    next
      case 2
      have "wp (inc_comm ?b tid a (ucast (mi_tsc e)) (ucast ts) m) (counted ?b m tid [a, b])"
        by (rule counted_one[OF m tid ab(2,3)]) (use 2 ab in auto)
      then show ?thesis
        using w s ab 2 e' st tid unfolding check_sharers_def Let_def get_num_sharers_def
        by (auto simp: touch_def elem_safe_def elim!: wp_mono)
    next
      case 3
      from counted_two[OF m tid ab(2-5)] 3 ab(1)
      have "wp (do { m1 \<leftarrow> inc_comm ?b tid a (ucast (mi_tsc e)) (ucast ts) m;
          inc_comm ?b tid b (ucast (mi_tsc e)) (ucast ts) m1 }) (counted ?b m tid [a, b])" by blast
      then show ?thesis
        using w s ab 3 e' st tid unfolding check_sharers_def Let_def get_num_sharers_def
        by (auto simp: touch_def elem_safe_def elim!: wp_mono)
    qed
  qed
qed

text \<open>On an element whose two threads may coincide (block 0) the \<open>switch\<close> is still safe.\<close>

lemma check_sharers_safe:
  assumes m: "matrix_wf (max_threads_bits cfg) m" and tid: "0 \<le> tid" "tid < dim_int (max_threads_bits cfg)"
    and e: "elem_safe (dim_int (max_threads_bits cfg)) e"
  shows "wp (check_sharers cfg tid ts e m) (\<lambda>(e', m'). elem_safe (dim_int (max_threads_bits cfg)) e' \<and>
    pg_addr e' = pg_addr e \<and> matrix_wf (max_threads_bits cfg) m' \<and> nthreads m' = nthreads m)"
proof (cases "distinct (window e)")
  case True
  from check_sharers_refines[OF m tid e True, of ts] show ?thesis
    by (rule wp_mono) (auto simp: counted_def)
next
  case False
  let ?b = "max_threads_bits cfg"
  let ?a = "sint (sharer_0 e)"
  let ?e = "e\<lparr>sharer_1 := sharer_0 e, sharer_0 := word_of_int tid\<rparr>"
  have s: "?a \<noteq> -1" "sint (sharer_1 e) = ?a" "0 \<le> ?a" "?a < dim_int ?b"
    using False e by (auto simp: window_def elem_safe_def split: if_splits)
  have "dim_int ?b \<le> 2 ^ 15"
    unfolding dim_int_def using m by (intro power_increasing) (auto simp: matrix_wf_def)
  with tid have "sint (word_of_int tid :: u16) = tid" by (intro sint_of_tid) auto
  with tid s have e': "elem_safe (dim_int ?b) ?e" by (simp add: elem_safe_def window_def)
  have inc: "wp (inc_comm ?b tid ?a ts' ts'' m') (\<lambda>m''. matrix_wf ?b m'' \<and> nthreads m'' = nthreads m')"
    if "matrix_wf ?b m'" for m' ts' ts''
    using inc_comm_law[OF that tid s(3,4)] by (rule wp_mono) simp
  from inc[OF m] obtain m1 where m1: "inc_comm ?b tid ?a (ucast (mi_tsc e)) (ucast ts) m = Some m1"
    "matrix_wf ?b m1" "nthreads m1 = nthreads m" by (blast elim: wpE)
  from inc[OF m1(2)] obtain m2 where m2: "inc_comm ?b tid ?a (ucast (mi_tsc e)) (ucast ts) m1 = Some m2"
    "matrix_wf ?b m2" "nthreads m2 = nthreads m1" by (blast elim: wpE)
  from s m1 m2 e e' show ?thesis
    by (cases "?a = tid") (simp_all add: check_sharers_def Let_def get_num_sharers_def)
qed

section \<open>The whole access\<close>

definition detector_wf :: "hash_fun \<Rightarrow> config \<Rightarrow> mem_state \<times> spcd_comm_matrix \<Rightarrow> bool" where
  "detector_wf hash cfg s \<longleftrightarrow> hash_32_ok hash \<and> mem_wf cfg (dim_int (max_threads_bits cfg)) (fst s) \<and>
     matrix_wf (max_threads_bits cfg) (snd s)"

text \<open>The abstract state: the window of every block but block 0, and the counts of the valid pairs.\<close>

type_synonym detector = "(u64 \<Rightarrow> int list) \<times> (int \<Rightarrow> int \<Rightarrow> u32)"

definition block_window :: "hash_fun \<Rightarrow> config \<Rightarrow> mem_state \<Rightarrow> u64 \<Rightarrow> int list" where
  "block_window hash cfg ms page = (case mem ms of None \<Rightarrow> []
     | Some t \<Rightarrow> let e = t ! mem_slot hash cfg page in if page \<noteq> 0 \<and> pg_addr e = page then window e else [])"

definition pair_count :: "config \<Rightarrow> spcd_comm_matrix \<Rightarrow> int \<Rightarrow> int \<Rightarrow> u32" where
  "pair_count cfg m k l = (
     let n = dim_int (max_threads_bits cfg) in
     if 0 \<le> k \<and> k < n \<and> 0 \<le> l \<and> l < n then the (get_comm (max_threads_bits cfg) m k l) else 0)"

definition detector_of :: "hash_fun \<Rightarrow> config \<Rightarrow> mem_state \<times> spcd_comm_matrix \<Rightarrow> detector" where
  "detector_of hash cfg s = (block_window hash cfg (fst s), pair_count cfg (snd s))"

text \<open>
  One access by \<open>tid\<close> to block \<open>page\<close>: an event with every other thread in the block's window, the
  thread moves to its front, and the blocks that share the element lose theirs.
\<close>

definition spec_access :: "(u64 \<Rightarrow> nat) \<Rightarrow> int \<Rightarrow> u64 \<Rightarrow> detector \<Rightarrow> detector" where
  "spec_access slot tid page d = (case d of (w, c) \<Rightarrow>
     (\<lambda>p. if p = page then touch tid (w page) else if slot p = slot page then [] else w p,
      \<lambda>k l. if communicates tid (w page) k l then c k l + 1 else c k l))"

lemma counted_pair_count:
  assumes "matrix_wf (max_threads_bits cfg) m" "0 \<le> tid" "tid < dim_int (max_threads_bits cfg)"
    and "\<forall>t \<in> set w. 0 \<le> t \<and> t < dim_int (max_threads_bits cfg)"
    and "counted (max_threads_bits cfg) m tid w m'"
  shows "pair_count cfg m' = (\<lambda>k l. if communicates tid w k l then pair_count cfg m k l + 1 else pair_count cfg m k l)"
proof (intro ext)
  fix k l
  let ?n = "dim_int (max_threads_bits cfg)"
  show "pair_count cfg m' k l = (if communicates tid w k l then pair_count cfg m k l + 1 else pair_count cfg m k l)"
  proof (cases "0 \<le> k \<and> k < ?n \<and> 0 \<le> l \<and> l < ?n")
    case True
    then obtain c where "get_comm (max_threads_bits cfg) m k l = Some c"
      using get_comm_some[OF assms(1)] by blast
    with True assms(5) show ?thesis by (simp add: pair_count_def counted_def)
  next
    case False
    then have "\<not> communicates tid w k l" using assms(2-4) by (auto simp: communicates_def)
    with False show ?thesis by (auto simp: pair_count_def Let_def)
  qed
qed

text \<open>What the access does to the table, given what the \<open>switch\<close> does to the element.\<close>

lemma check_comm_shape:
  assumes wf: "detector_wf hash cfg (ms, m)" and page: "addr_to_page cfg address = Some page"
    and t: "mem ms = Some t"
    and sw: "check_sharers cfg tid (ucast cycles) (claim_elem page (t ! mem_slot hash cfg page)) m = Some (e', m')"
  shows "\<exists>c. spcd_check_comm hash cfg cycles tid address (ms, m) =
    Some (ms\<lparr>mem := Some (t[mem_slot hash cfg page := e'\<lparr>mi_tsc := ucast (ucast cycles :: u32)\<rparr>]),
             spcd_addr_conflict := c\<rparr>, m')"
proof -
  let ?i = "mem_slot hash cfg page"
  have h: "hash_32_ok hash" "mem_wf cfg (dim_int (max_threads_bits cfg)) ms"
    using wf by (simp_all add: detector_wf_def)
  have i: "?i < length t" by (rule mem_slot_less[OF h t])
  obtain c where "spcd_get_mem_init hash cfg address ms =
      Some (?i, ms\<lparr>mem := Some (t[?i := claim_elem page (t ! ?i)]), spcd_addr_conflict := c\<rparr>)"
    using get_mem_init_eq[OF h t page] by blast
  with i sw show ?thesis
    by (intro exI[of _ c]) (cases ms, simp add: spcd_check_comm_def Let_def)
qed

lemma detector_elem:
  fixes page :: u64
  assumes "detector_wf hash cfg (ms, m)" "mem ms = Some t"
  defines "e \<equiv> t ! mem_slot hash cfg page"
  shows "elem_safe (dim_int (max_threads_bits cfg)) (claim_elem page e)"
    and "page \<noteq> 0 \<Longrightarrow> distinct (window (claim_elem page e))"
    and "page \<noteq> 0 \<Longrightarrow> window (claim_elem page e) = block_window hash cfg ms page"
proof -
  have h: "hash_32_ok hash" "mem_wf cfg (dim_int (max_threads_bits cfg)) ms"
    using assms(1) by (simp_all add: detector_wf_def)
  have e: "e \<in> set t" unfolding e_def by (rule nth_mem[OF mem_slot_less[OF h assms(2)]])
  with h(2) assms(2) show "elem_safe (dim_int (max_threads_bits cfg)) (claim_elem page e)"
    by (intro claim_safe) (auto simp: mem_wf_def)
  show "page \<noteq> 0 \<Longrightarrow> distinct (window (claim_elem page e))"
    using e h(2) assms(2) by (auto simp: mem_wf_def window_claim)
  show "page \<noteq> 0 \<Longrightarrow> window (claim_elem page e) = block_window hash cfg ms page"
    using assms(2) by (simp add: block_window_def window_claim e_def Let_def)
qed

lemma tsc_irrelevant [simp]:
  "window (e\<lparr>mi_tsc := ts\<rparr>) = window e" "elem_safe n (e\<lparr>mi_tsc := ts\<rparr>) = elem_safe n e"
  by (simp_all add: window_def elem_safe_def)

lemma check_comm_safe:
  assumes wf: "detector_wf hash cfg (ms, m)" and tid: "0 \<le> tid" "tid < dim_int (max_threads_bits cfg)"
    and shift: "0 \<le> spcd_shift cfg" "spcd_shift cfg < 64"
  shows "wp (spcd_check_comm hash cfg cycles tid address (ms, m))
    (\<lambda>s'. detector_wf hash cfg s' \<and> nthreads (snd s') = nthreads m)"
proof -
  let ?n = "dim_int (max_threads_bits cfg)"
  obtain page where page: "addr_to_page cfg address = Some page"
    using shift by (simp add: addr_to_page_def)
  have h: "hash_32_ok hash" "mem_wf cfg ?n ms" and m: "matrix_wf (max_threads_bits cfg) m"
    using wf by (simp_all add: detector_wf_def)
  obtain t where t: "mem ms = Some t" using h by (auto simp: mem_wf_def)
  note el = detector_elem[OF wf t, of page]
  obtain e' m' where sw: "check_sharers cfg tid (ucast cycles) (claim_elem page (t ! mem_slot hash cfg page)) m = Some (e', m')"
    and e': "elem_safe ?n e'" "pg_addr e' = page" and m': "matrix_wf (max_threads_bits cfg) m'" "nthreads m' = nthreads m"
    using check_sharers_safe[OF m tid el(1), of "ucast cycles"] by (auto elim!: wpE)
  have "page \<noteq> 0 \<Longrightarrow> distinct (window e')"
  proof -
    assume "page \<noteq> 0"
    from check_sharers_refines[OF m tid el(1) el(2)[OF this], of "ucast cycles"] sw el(2)[OF this]
    have "window e' = touch tid (window (claim_elem page (t ! mem_slot hash cfg page)))" by simp
    with el(2)[OF \<open>page \<noteq> 0\<close>] show ?thesis by (simp add: touch_distinct)
  qed
  with e' have upd: "mem_wf cfg ?n (ms\<lparr>mem := Some (t[i := e'\<lparr>mi_tsc := ts\<rparr>]), spcd_addr_conflict := c\<rparr>)"
    for i ts c by (intro mem_wf_update[OF h(2) t]) auto
  with check_comm_shape[OF wf page t sw] m' h(1) show ?thesis
    by (auto simp: detector_wf_def)
qed

lemma check_comm_refines:
  assumes wf: "detector_wf hash cfg (ms, m)" and tid: "0 \<le> tid" "tid < dim_int (max_threads_bits cfg)"
    and page: "addr_to_page cfg address = Some page" "page \<noteq> 0"
  shows "wp (spcd_check_comm hash cfg cycles tid address (ms, m)) (\<lambda>s'. detector_wf hash cfg s' \<and>
    detector_of hash cfg s' = spec_access (mem_slot hash cfg) tid page (detector_of hash cfg (ms, m)))"
proof -
  let ?n = "dim_int (max_threads_bits cfg)" and ?slot = "mem_slot hash cfg"
  have h: "hash_32_ok hash" "mem_wf cfg ?n ms" and m: "matrix_wf (max_threads_bits cfg) m"
    using wf by (simp_all add: detector_wf_def)
  obtain t where t: "mem ms = Some t" using h by (auto simp: mem_wf_def)
  let ?e = "claim_elem page (t ! ?slot page)"
  note el = detector_elem[OF wf t, of page]
  obtain e' m' where sw: "check_sharers cfg tid (ucast cycles) ?e m = Some (e', m')"
    and e': "window e' = touch tid (window ?e)" "elem_safe ?n e'" "pg_addr e' = page"
    and cnt: "counted (max_threads_bits cfg) m tid (window ?e) m'"
    using check_sharers_refines[OF m tid el(1) el(2)[OF page(2)], of "ucast cycles"] by (auto elim!: wpE)
  obtain c where run: "spcd_check_comm hash cfg cycles tid address (ms, m) =
    Some (ms\<lparr>mem := Some (t[?slot page := e'\<lparr>mi_tsc := ucast (ucast cycles :: u32)\<rparr>]),
             spcd_addr_conflict := c\<rparr>, m')"
    using check_comm_shape[OF wf page(1) t sw] by blast
  have i: "?slot p < length t" for p by (rule mem_slot_less[OF h t])
  have "\<forall>x \<in> set (window ?e). 0 \<le> x \<and> x < ?n" using el(1) by (simp add: elem_safe_def)
  from counted_pair_count[OF m tid this cnt] el(3)[OF page(2)]
  have counts: "pair_count cfg m' = (\<lambda>k l. if communicates tid (block_window hash cfg ms page) k l
      then pair_count cfg m k l + 1 else pair_count cfg m k l)" by simp
  have "block_window hash cfg (ms\<lparr>mem := Some (t[?slot page := e'\<lparr>mi_tsc := ts\<rparr>]), spcd_addr_conflict := c\<rparr>) p =
      (if p = page then touch tid (block_window hash cfg ms page)
       else if ?slot p = ?slot page then [] else block_window hash cfg ms p)" for p ts
    using i e' el(3)[OF page(2)] t page(2) by (simp add: block_window_def Let_def nth_list_update)
  with run counts check_comm_safe[OF wf tid, of cycles address] page(1) show ?thesis
    by (auto simp: detector_of_def spec_access_def addr_to_page_def split: if_splits)
qed

section \<open>Histories of accesses\<close>

text \<open>An access: the thread, the cycle counter, the address.\<close>

type_synonym access = "int \<times> u64 \<times> u64"

definition run_accesses ::
  "hash_fun \<Rightarrow> config \<Rightarrow> access list \<Rightarrow> mem_state \<times> spcd_comm_matrix \<Rightarrow> (mem_state \<times> spcd_comm_matrix) option" where
  "run_accesses hash cfg = foldM (\<lambda>(tid, cycles, address). spcd_check_comm hash cfg cycles tid address)"

definition spec_run :: "(u64 \<Rightarrow> nat) \<Rightarrow> (int \<times> u64) list \<Rightarrow> detector \<Rightarrow> detector" where
  "spec_run slot = fold (\<lambda>(tid, page). spec_access slot tid page)"

definition page_of :: "config \<Rightarrow> access \<Rightarrow> int \<times> u64" where
  "page_of cfg a = (case a of (tid, cycles, address) \<Rightarrow> (tid, the (addr_to_page cfg address)))"

text \<open>Accesses by numbered threads, to other blocks than block 0, keep the contract.\<close>

definition access_ok :: "config \<Rightarrow> access \<Rightarrow> bool" where
  "access_ok cfg a \<longleftrightarrow> (case a of (tid, cycles, address) \<Rightarrow> 0 \<le> tid \<and> tid < dim_int (max_threads_bits cfg) \<and>
     addr_to_page cfg address \<noteq> Some 0)"

interpretation detection: simulation "\<lambda>(tid, cycles, address). spcd_check_comm hash cfg cycles tid address" "access_ok cfg"
  "\<lambda>s. detector_wf hash cfg s \<and> 0 \<le> spcd_shift cfg \<and> spcd_shift cfg < 64" "detector_of hash cfg"
  "\<lambda>a. (\<lambda>(tid, page). spec_access (mem_slot hash cfg) tid page) (page_of cfg a)"
  for hash :: hash_fun and cfg :: config
proof unfold_locales
  fix s :: "mem_state \<times> spcd_comm_matrix" and a :: access
  assume wf: "detector_wf hash cfg s \<and> 0 \<le> spcd_shift cfg \<and> spcd_shift cfg < 64" and a: "access_ok cfg a"
  obtain tid cycles address where at: "a = (tid, cycles, address)" by (cases a) auto
  obtain page where page: "addr_to_page cfg address = Some page" using wf by (simp add: addr_to_page_def)
  obtain ms m where s: "s = (ms, m)" by (cases s)
  have "wp (spcd_check_comm hash cfg cycles tid address s) (\<lambda>s'. detector_wf hash cfg s' \<and>
      detector_of hash cfg s' = spec_access (mem_slot hash cfg) tid page (detector_of hash cfg s))"
    unfolding s by (rule check_comm_refines) (use wf a at s page in \<open>auto simp: access_ok_def\<close>)
  then show "wp ((case a of (tid, cycles, address) \<Rightarrow> spcd_check_comm hash cfg cycles tid address) s)
      (\<lambda>s'. (detector_wf hash cfg s' \<and> 0 \<le> spcd_shift cfg \<and> spcd_shift cfg < 64) \<and>
        detector_of hash cfg s' = (case page_of cfg a of (tid, page) \<Rightarrow> spec_access (mem_slot hash cfg) tid page) (detector_of hash cfg s))"
    using wf by (auto simp: at page_of_def page elim!: wpE)
qed

lemma spec_run_fold: "spec_run slot (map f as) = fold (\<lambda>a. (\<lambda>(tid, page). spec_access slot tid page) (f a)) as"
  by (simp add: spec_run_def fold_map comp_def)

lemma run_accesses_refines:
  assumes "detector_wf hash cfg s"
    and "0 \<le> spcd_shift cfg" "spcd_shift cfg < 64"
    and "\<forall>(tid, cycles, address) \<in> set as. 0 \<le> tid \<and> tid < dim_int (max_threads_bits cfg) \<and>
      addr_to_page cfg address \<noteq> Some 0"
  shows "wp (run_accesses hash cfg as s) (\<lambda>s'. detector_wf hash cfg s' \<and>
    detector_of hash cfg s' = spec_run (mem_slot hash cfg) (map (page_of cfg) as) (detector_of hash cfg s))"
proof -
  have "\<forall>a \<in> set as. access_ok cfg a" using assms(4) by (auto simp: access_ok_def)
  from detection.history[OF _ this, of hash s] assms(1-3) show ?thesis
    by (auto simp: run_accesses_def spec_run_fold elim!: wp_mono)
qed

section \<open>Properties\<close>

definition small_cfg :: config where
  "small_cfg = \<lparr>max_threads = 4, max_threads_bits = 2, spcd_shift = 12, spcd_mem_hash_bits = 4,
     spcd_num_faults = 9, do_pf = True, do_map = False\<rparr>"

definition small_mem :: mem_state where
  "small_mem = \<lparr>mem = Some (replicate 16 zero_elem), spcd_addr_conflict = 0\<rparr>"

lemma small_cfg_sel [simp]:
  "max_threads small_cfg = 4" "max_threads_bits small_cfg = 2" "spcd_shift small_cfg = 12"
  "spcd_mem_hash_bits small_cfg = 4" "spcd_num_faults small_cfg = 9" "do_pf small_cfg"
  by (simp_all add: small_cfg_def)

lemma small_detector_wf [simp]: "detector_wf low_bits_hash small_cfg (small_mem, small_matrix)"
  using elem_safe_zero[of 4]
  by (simp add: detector_wf_def mem_wf_def small_mem_def dim_int_def) (simp add: zero_elem_def)

lemma small_page: "addr_to_page small_cfg 0x5008 = Some 5" "addr_to_page small_cfg 0x5010 = Some 5"
  by (simp_all add: addr_to_page_def drop_bit_eq_div)

lemma small_windows [simp]: "block_window low_bits_hash small_cfg small_mem p = []"
proof -
  have "mem_slot low_bits_hash small_cfg p < length (replicate 16 zero_elem)"
    by (rule mem_slot_less[of _ small_cfg 4 small_mem])
      (use small_detector_wf in \<open>auto simp: detector_wf_def dim_int_def small_mem_def\<close>)
  then show ?thesis by (simp add: block_window_def small_mem_def Let_def) (simp add: zero_elem_def)
qed

lemma small_counts [simp]: "pair_count small_cfg small_matrix k l = 0"
  by (simp add: pair_count_def Let_def get_comm_eq)
    (auto simp: small_matrix_def dim_int_def intro!: nth_replicate cell_less[of _ 2, simplified])

text \<open>
  C5: detection implements the abstract detector. For a valid thread and any block but block 0,
  \<open>spcd_check_comm\<close> returns (no access outside the table or the matrix), keeps the invariant, and its
  effect is exactly one \<open>spec_access\<close>: one event, in both directions, with each other thread of the
  block's window of the last two threads; the thread becomes the most recent of the window; blocks that
  hash to the same element are evicted and every other block and count is unchanged.
\<close>
theorem check_comm_refinement:
  assumes "detector_wf hash cfg (ms, m)" and "0 \<le> tid" "tid < dim_int (max_threads_bits cfg)"
    and "addr_to_page cfg address = Some page" "page \<noteq> 0"
  shows "\<exists>s'. spcd_check_comm hash cfg cycles tid address (ms, m) = Some s' \<and> detector_wf hash cfg s' \<and>
    detector_of hash cfg s' = spec_access (mem_slot hash cfg) tid page (detector_of hash cfg (ms, m))"
  using check_comm_refines[OF assms, of cycles] by (simp add: wp_iff)

theorem check_comm_refinement_witness:
  "\<exists>s'. spcd_check_comm low_bits_hash small_cfg 77 1 0x5008 (small_mem, small_matrix) = Some s' \<and>
    block_window low_bits_hash small_cfg (fst s') 5 = [1]"
  using check_comm_refinement[OF small_detector_wf, of 1 "0x5008" 5 77] small_page
  by (auto simp: dim_int_def detector_of_def spec_access_def fun_eq_iff touch_def)

text \<open>
  C6: every history of accesses. The counts and windows after any sequence of accesses by valid threads
  to blocks other than block 0 are those the abstract detector computes for the same sequence.
\<close>
theorem detection_history:
  assumes "detector_wf hash cfg s"
    and "0 \<le> spcd_shift cfg" "spcd_shift cfg < 64"
    and "\<forall>(tid, cycles, address) \<in> set as. 0 \<le> tid \<and> tid < dim_int (max_threads_bits cfg) \<and>
      addr_to_page cfg address \<noteq> Some 0"
  shows "\<exists>s'. run_accesses hash cfg as s = Some s' \<and> detector_wf hash cfg s' \<and>
    detector_of hash cfg s' = spec_run (mem_slot hash cfg) (map (page_of cfg) as) (detector_of hash cfg s)"
  using run_accesses_refines[OF assms] by (simp add: wp_iff)

theorem detection_history_witness:
  "\<exists>s'. run_accesses low_bits_hash small_cfg [(1, 77, 0x5008), (2, 78, 0x5010), (1, 79, 0x5008)]
      (small_mem, small_matrix) = Some s' \<and> pair_count small_cfg (snd s') 1 2 = 2 \<and>
    pair_count small_cfg (snd s') 2 1 = 2 \<and> pair_count small_cfg (snd s') 1 3 = 0"
  using detection_history[OF small_detector_wf, of "[(1, 77, 0x5008), (2, 78, 0x5010), (1, 79, 0x5008)]"] small_page
  by (auto simp: dim_int_def detector_of_def spec_access_def spec_run_def page_of_def touch_def
      communicates_def fun_eq_iff)

text \<open>
  C40: block 0 is never recognised as new. On a freshly zeroed element the first access to block 0, by a
  thread other than 0, counts two events with thread 0, which never touched the block: the zero bytes
  read as block 0 with thread 0 as both of its threads.
\<close>
theorem block_zero_phantom:
  assumes "detector_wf hash cfg (ms, m)" and "0 < tid" "tid < dim_int (max_threads_bits cfg)"
    and "addr_to_page cfg address = Some 0"
    and "mem ms = Some t" "t ! mem_slot hash cfg 0 = zero_elem"
  shows "\<exists>ms' m'. spcd_check_comm hash cfg cycles tid address (ms, m) = Some (ms', m') \<and>
    pair_count cfg m' tid 0 = pair_count cfg m tid 0 + 2"
proof -
  let ?b = "max_threads_bits cfg"
  have m: "matrix_wf ?b m" using assms(1) by (simp add: detector_wf_def)
  have v: "0 \<le> tid" "tid < dim_int ?b" "0 \<le> (0::int)" "0 < dim_int ?b" using assms(2,3) by auto
  obtain c where c: "get_comm ?b m tid 0 = Some c" by (rule get_comm_some[OF m v])
  obtain m1 where m1: "inc_comm ?b tid 0 0 (ucast (ucast cycles :: u32)) m = Some m1" "matrix_wf ?b m1"
    "get_comm ?b m1 tid 0 = Some (c + 1)"
    using inc_comm_law[OF m v, of 0 "ucast (ucast cycles :: u32)"] c v by (auto elim!: wpE)
  obtain m2 where m2: "inc_comm ?b tid 0 0 (ucast (ucast cycles :: u32)) m1 = Some m2" "matrix_wf ?b m2"
    "get_comm ?b m2 tid 0 = Some (c + 2)"
    using inc_comm_law[OF m1(2) v, of 0 "ucast (ucast cycles :: u32)"] m1(3) v
    by (auto elim!: wpE simp: add.assoc)
  have "\<exists>e'. check_sharers cfg tid (ucast cycles) (claim_elem 0 (t ! mem_slot hash cfg 0)) m = Some (e', m2)"
    using m1 m2 assms(2,6) by (simp add: check_sharers_def Let_def get_num_sharers_def claim_elem_def zero_elem_def)
  then obtain e' where "check_sharers cfg tid (ucast cycles) (claim_elem 0 (t ! mem_slot hash cfg 0)) m = Some (e', m2)" ..
  from check_comm_shape[OF assms(1,4,5) this] m2 c v show ?thesis
    by (auto simp: pair_count_def)
qed

theorem block_zero_phantom_witness:
  "\<exists>ms' m'. spcd_check_comm low_bits_hash small_cfg 77 3 0x0008 (small_mem, small_matrix) = Some (ms', m') \<and>
    pair_count small_cfg m' 3 0 = 2"
  using block_zero_phantom[OF small_detector_wf, of 3 8 "replicate 16 zero_elem" 77]
  by (simp add: dim_int_def addr_to_page_def small_mem_def mem_slot_def low_bits_hash_def)

text \<open>
  Preparing the matrix. With a parameter \<open>max_threads\<close> that is the power of two its bits say,
  \<open>spcd_comm_init\<close> leaves a matrix that is either missing, when there was none and the allocation
  failed, or well-formed with every count zero.
\<close>

lemma comm_init_ok:
  assumes "0 \<le> max_threads_bits cfg" "max_threads_bits cfg \<le> 15" "max_threads cfg = 2 ^ nat (max_threads_bits cfg)"
    and "matrix m = None \<or> matrix_wf (max_threads_bits cfg) m"
    and "\<And>a. alloc = Some a \<Longrightarrow> length a = 2 ^ nat (max_threads_bits cfg) * 2 ^ nat (max_threads_bits cfg)"
  shows "\<exists>m'. spcd_comm_init cfg alloc m = Some m' \<and>
    (if matrix m = None \<and> alloc = None then matrix m' = None
     else matrix_wf (max_threads_bits cfg) m' \<and> (\<forall>k l. pair_count cfg m' k l = 0))"
proof -
  define d where "d = (2::nat) ^ nat (max_threads_bits cfg)"
  have cells: "nat (max_threads cfg * max_threads cfg) = d * d"
    using assms(3) by (simp add: d_def nat_mult_distrib nat_power_eq)
  have "0 \<le> max_threads cfg" using assms(3) by simp
  have zero: "pair_count cfg m' k l = 0"
    if "matrix_wf (max_threads_bits cfg) m'" "matrix m' = Some (replicate (d * d) 0)" for m' k l
  proof -
    have "cell (nat (max_threads_bits cfg)) (nat k) (nat l) < d * d"
      if "0 \<le> k" "k < dim_int (max_threads_bits cfg)" "0 \<le> l" "l < dim_int (max_threads_bits cfg)"
      unfolding d_def using that by (intro cell_less) (auto simp: dim_int_def nat_less_iff)
    with that show ?thesis by (auto simp: pair_count_def Let_def get_comm_eq[OF that(1)])
  qed
  consider "matrix m = None" "alloc = None" | a where "matrix m = None" "alloc = Some a" "length a = d * d"
    | a where "matrix m = Some a" "length a = d * d"
    using assms(4,5) by (cases "matrix m"; cases alloc) (auto simp: matrix_wf_def d_def)
  then show ?thesis
  proof cases
    case 1
    then show ?thesis by (simp add: spcd_comm_init_def Let_def)
  next
    case 2
    then show ?thesis using assms(1,2) cells zero \<open>0 \<le> max_threads cfg\<close>
      by (simp add: spcd_comm_init_def Let_def matrix_wf_def d_def)
  next
    case 3
    then show ?thesis using assms(1,2) cells zero \<open>0 \<le> max_threads cfg\<close>
      by (simp add: spcd_comm_init_def Let_def matrix_wf_def d_def)
  qed
qed

end
