(* ===== verification/Cdsm_Procfs.thy ===== *)
theory Cdsm_Procfs
  imports Cdsm_Comm
begin

text \<open>
  The user interface, \<open>src/procfs.c\<close>, and the report that \<open>spcd_print_comm\<close> of \<open>src/comm.c\<close> writes
  to the log. A file that is read is modelled by its return code and text; a file that is written by
  the bytes the user passes.

  The two functions that parse a number share \<open>read_number\<close>: the bytes are copied into a buffer of
  200, the last one is overwritten by the terminator, and \<open>kstrtouint\<close>, a kernel function and here an
  argument, either assigns the variable or fails; the code does not look at its answer, and a failure
  leaves the variable unassigned.
\<close>

section \<open>Reading\<close>

definition pids_read :: "pid_state \<Rightarrow> (int \<times> string) option" where
  "pids_read pids = (
     let nt = spcd_get_num_threads pids in
     if nt = 0 then Some (1, [])
     else do {
       out \<leftarrow> foldM (\<lambda>i out. do {
           p \<leftarrow> spcd_get_pid (int i) pids;
           Some (out @ show_nat (unat (word_of_int p :: u32)) @ (if i \<noteq> 0 then '','' else []))
         }) (rev [0..<nat nt]) [];
       Some (0, out @ newline)
     })"

definition matrix_read :: "config \<Rightarrow> pid_state \<Rightarrow> spcd_comm_matrix \<Rightarrow> (int \<times> string) option" where
  "matrix_read cfg pids m = (
     let nt = spcd_get_num_threads pids in
     if nt < 2 then Some (1, [])
     else do {
       out \<leftarrow> foldM (\<lambda>i out. do {
           out \<leftarrow> foldM (\<lambda>j out. do {
               c \<leftarrow> get_comm (max_threads_bits cfg) m (int i) (int j);
               Some (out @ show_nat (unat c) @ (if int j \<noteq> nt - 1 then '','' else []))
             }) [0..<nat nt] out;
           Some (out @ newline)
         }) (rev [0..<nat nt]) [];
       Some (0, out)
     })"

text \<open>
  The report: the matrix, then mean, variance and their quotient. \<open>s * s\<close> is a product of two \<open>int\<close>s;
  the kernel is compiled with wrapping signed arithmetic, and the model wraps it at 32 bits before it
  is widened. The sums are of type \<open>unsigned long\<close>.
\<close>

definition report_cell :: "u32 \<Rightarrow> u64 \<times> u64 \<Rightarrow> u64 \<times> u64" where
  "report_cell s acc = (case acc of (sm, sum_sqr) \<Rightarrow> (sm + scast s, sum_sqr + scast (s * s)))"

definition report_stats :: "u64 \<Rightarrow> u64 \<Rightarrow> u64 \<Rightarrow> (u64 \<times> u64 \<times> u64) option" where
  "report_stats nt sm sum_sqr = do {
     a1 \<leftarrow> div_u64 sm nt;
     av \<leftarrow> div_u64 a1 nt;
     m1 \<leftarrow> div_u64 (sm * sm) nt;
     m2 \<leftarrow> div_u64 m1 nt;
     v1 \<leftarrow> div_u64 (sum_sqr - m2) (nt - 1);
     va \<leftarrow> div_u64 v1 (nt - 1);
     hf \<leftarrow> (if av \<noteq> 0 then div_u64 va av else Some 0);
     Some (av, va, hf)
   }"

definition spcd_print_comm :: "config \<Rightarrow> pid_state \<Rightarrow> spcd_comm_matrix \<Rightarrow> string option" where
  "spcd_print_comm cfg pids m = (
     let nt = spcd_get_num_threads pids in
     if nt < 2 then Some []
     else do {
       (out, acc) \<leftarrow> foldM (\<lambda>i st. do {
           (out, acc) \<leftarrow> foldM (\<lambda>j (out, acc). do {
               s \<leftarrow> get_comm (max_threads_bits cfg) m (int i) (int j);
               Some (out @ show_nat (unat s) @ (if int j \<noteq> nt - 1 then '','' else []), report_cell s acc)
             }) [0..<nat nt] st;
           Some (out @ newline, acc)
         }) (rev [0..<nat nt]) ([], (0, 0));
       (av, va, hf) \<leftarrow> report_stats (word_of_int nt) (fst acc) (snd acc);
       Some (out @ ''avg: '' @ show_nat (unat av) @ '', var: '' @ show_nat (unat va) @
             '', hf: '' @ show_nat (unat hf) @ newline)
     })"

section \<open>Writing\<close>

definition matrix_reset :: "config \<Rightarrow> spcd_comm_matrix \<Rightarrow> nat \<Rightarrow> (nat \<times> spcd_comm_matrix) option" where
  "matrix_reset cfg m count = (case matrix m of
       None \<Rightarrow> Some (count, m)
     | Some a \<Rightarrow> (let cells = max_threads cfg * max_threads cfg in
         if 0 \<le> cells \<and> nat cells \<le> length a
         then Some (count, m\<lparr>matrix := Some (replicate (nat cells) 0 @ drop (nat cells) a)\<rparr>) else None))"

text \<open>The bytes up to the first NUL, after the last of \<open>count\<close> bytes was replaced by it.\<close>

definition read_number :: "(string \<Rightarrow> u32 option) \<Rightarrow> string \<Rightarrow> u32 option" where
  "read_number kstrtouint bytes = (
     let count = length bytes in
     if count = 0 \<or> 200 < count then None
     else kstrtouint (takeWhile (\<lambda>c. c \<noteq> CHR 0x00) (take (count - 1) bytes)))"

definition set_shift :: "(string \<Rightarrow> u32 option) \<Rightarrow> string \<Rightarrow> config \<Rightarrow> (nat \<times> config) option" where
  "set_shift kstrtouint bytes cfg = do {
     v \<leftarrow> read_number kstrtouint bytes;
     Some (length bytes, cfg\<lparr>spcd_shift := sint v\<rparr>)
   }"

definition set_num_faults :: "(string \<Rightarrow> u32 option) \<Rightarrow> string \<Rightarrow> config \<Rightarrow> (nat \<times> config) option" where
  "set_num_faults kstrtouint bytes cfg = do {
     v \<leftarrow> read_number kstrtouint bytes;
     Some (length bytes, cfg\<lparr>spcd_num_faults := sint v\<rparr>)
   }"

section \<open>What the loops print\<close>

text \<open>A loop that appends one item per step, with a comma after all but the last.\<close>

lemma print_row_loop:
  assumes "\<And>j. j < n \<Longrightarrow> f j = Some (g j)" and "k \<le> n" and "0 < n"
  shows "foldM (\<lambda>j out. do { c \<leftarrow> f j; Some (out @ g' c @ (if int j \<noteq> int n - 1 then '','' else [])) }) [0..<k] out0 =
    Some (out0 @ concat (map (\<lambda>j. g' (g j) @ (if Suc j < n then '','' else [])) [0..<k]))"
  using assms(2)
proof (induction k)
  case 0
  then show ?case by simp
next
  case (Suc k)
  then have "(int k \<noteq> int n - 1) = (Suc k < n)" by auto
  with Suc assms(1)[of k] show ?case by (simp add: foldM_snoc)
qed

lemma row_csv:
  assumes "0 < n"
  shows "concat (map (\<lambda>j. h j @ (if Suc j < n then '','' else [])) [0..<n]) = csv (map h [0..<n])"
proof -
  obtain k where n: "n = Suc k" using assms by (cases n) auto
  have "map (\<lambda>j. h j @ (if j < k then '','' else [])) [0..<k] = map ((\<lambda>x. x @ '','') \<circ> h) [0..<k]"
    by simp
  then show ?thesis by (simp add: n csv_concat butlast_append map_butlast del: map_eq_conv)
qed

text \<open>The text of a matrix file for the counts \<open>c\<close> of \<open>n\<close> threads: the rows from the last thread to the first.\<close>

definition matrix_rows :: "(nat \<Rightarrow> nat \<Rightarrow> 'a :: len word) \<Rightarrow> nat \<Rightarrow> nat list list" where
  "matrix_rows c n = map (\<lambda>i. map (\<lambda>j. unat (c i j)) [0..<n]) (rev [0..<n])"

lemma row_loop_csv:
  assumes "\<And>j. j < n \<Longrightarrow> f j = Some (c j :: 'a :: len word)" and "0 < n"
  shows "foldM (\<lambda>j out. do { c \<leftarrow> f j; Some (out @ show_nat (unat c) @ (if int j \<noteq> int n - 1 then '','' else [])) })
      [0..<n] out = Some (out @ csv (map (\<lambda>j. show_nat (unat (c j))) [0..<n]))"
  using print_row_loop[where f = f and g = c and g' = "\<lambda>c. show_nat (unat c)" and n = n and k = n] assms
    row_csv[OF assms(2), of "\<lambda>j. show_nat (unat (c j))"] by simp

lemma matrix_loop_text:
  assumes "\<And>i j. i < n \<Longrightarrow> j < n \<Longrightarrow> f i j = Some (c i j :: 'a :: len word)" and "0 < n" and "set ks \<subseteq> {..<n}"
  shows "foldM (\<lambda>i out. do {
           out \<leftarrow> foldM (\<lambda>j out. do {
               c \<leftarrow> f i j;
               Some (out @ show_nat (unat c) @ (if int j \<noteq> int n - 1 then '','' else []))
             }) [0..<n] out;
           Some (out @ newline)
         }) ks out = Some (out @ csv_lines (map (\<lambda>i. map (\<lambda>j. show_nat (unat (c i j))) [0..<n]) ks))"
  using assms(3)
proof (induction ks arbitrary: out)
  case Nil
  then show ?case by (simp add: csv_lines_def)
next
  case (Cons i ks)
  then have "foldM (\<lambda>j out. do { c \<leftarrow> f i j; Some (out @ show_nat (unat c) @ (if int j \<noteq> int n - 1 then '','' else [])) })
      [0..<n] out = Some (out @ csv (map (\<lambda>j. show_nat (unat (c i j))) [0..<n]))"
    using assms(1,2) by (intro row_loop_csv) auto
  with Cons show ?case by (simp add: csv_lines_def)
qed

lemma matrix_read_text:
  assumes "matrix_wf (max_threads_bits cfg) m" "spcd_num_threads pids = int n" "2 \<le> n"
    and "int n \<le> dim_int (max_threads_bits cfg)"
  shows "matrix_read cfg pids m =
    Some (0, csv_lines (map (map show_nat) (matrix_rows (\<lambda>i j. pair_count cfg m (int i) (int j)) n)))"
proof -
  have "get_comm (max_threads_bits cfg) m (int i) (int j) = Some (pair_count cfg m (int i) (int j))"
    if "i < n" "j < n" for i j
    using that assms(1,4) by (simp add: pair_count_def get_comm_eq)
  with assms(3) have "foldM (\<lambda>i out. do {
           out \<leftarrow> foldM (\<lambda>j out. do {
               c \<leftarrow> get_comm (max_threads_bits cfg) m (int i) (int j);
               Some (out @ show_nat (unat c) @ (if int j \<noteq> int n - 1 then '','' else []))
             }) [0..<n] out;
           Some (out @ newline)
         }) (rev [0..<n]) [] =
      Some ([] @ csv_lines (map (\<lambda>i. map (\<lambda>j. show_nat (unat (pair_count cfg m (int i) (int j)))) [0..<n]) (rev [0..<n])))"
    by (intro matrix_loop_text) auto
  with assms(2,3) show ?thesis
    by (simp add: matrix_read_def spcd_get_num_threads_def Let_def matrix_rows_def comp_def)
qed

section \<open>Properties\<close>

text \<open>
  C37: the matrix file. With fewer than two numbered threads it is skipped (return code 1); otherwise
  it reads without leaving the matrix, and reading its text back gives exactly the counts of all pairs
  of numbered threads, the last thread's row first.
\<close>
theorem matrix_read_roundtrip:
  assumes "matrix_wf (max_threads_bits cfg) m" "spcd_get_num_threads pids = int n"
    and "int n \<le> dim_int (max_threads_bits cfg)"
  shows "if n < 2 then matrix_read cfg pids m = Some (1, [])
    else \<exists>text. matrix_read cfg pids m = Some (0, text) \<and>
      read_lines text = matrix_rows (\<lambda>i j. pair_count cfg m (int i) (int j)) n"
proof (cases "n < 2")
  case True
  then show ?thesis using assms(2) by (simp add: matrix_read_def)
next
  case False
  have "read_lines (csv_lines (map (map show_nat) (matrix_rows c n))) = matrix_rows c n" for c
    using False by (intro read_csv_lines) (auto simp: matrix_rows_def)
  with False show ?thesis
    using matrix_read_text[OF assms(1) _ _ assms(3), of pids] assms(2)
    by (simp add: spcd_get_num_threads_def)
qed

definition three_threads :: pid_state where
  "three_threads = (spcd_pid_clear pid_boot)\<lparr>spcd_num_threads := 3\<rparr>"

theorem matrix_read_roundtrip_witness:
  "\<exists>text. matrix_read small_cfg three_threads small_matrix = Some (0, text) \<and>
    read_lines text = [[0, 0, 0], [0, 0, 0], [0, 0, 0]]"
  using matrix_read_roundtrip[of small_cfg small_matrix three_threads 3]
  by (simp add: three_threads_def spcd_get_num_threads_def dim_int_def matrix_rows_def upt_rec)

text \<open>The loop that prints the pids, the last thread first.\<close>

lemma pids_loop:
  assumes "\<And>i. i < n \<Longrightarrow> f i = Some (g i)" and "k \<le> n"
  shows "foldM (\<lambda>i out. do { p \<leftarrow> f i; Some (out @ h p @ (if i \<noteq> 0 then '','' else [])) }) (rev [0..<k]) out =
    Some (out @ csv (map (\<lambda>i. h (g i)) (rev [0..<k])))"
  using assms(2)
proof (induction k arbitrary: out)
  case 0
  then show ?case by simp
next
  case (Suc k)
  have "csv (x # map (\<lambda>i. h (g i)) (rev [0..<k])) =
      x @ (if k \<noteq> 0 then '','' else []) @ csv (map (\<lambda>i. h (g i)) (rev [0..<k]))" for x
    by (cases k) simp_all
  with Suc assms(1)[of k] show ?case by simp
qed

text \<open>
  The pids file. On a well-formed registry with \<open>n\<close> numbered threads, at least one, the file is
  one line of \<open>n\<close> numbers; counted from the end of the line, the number at place \<open>t\<close> is the pid of the
  live thread with tid \<open>t\<close>. (Places whose thread has exited show the dead pid.)
\<close>
lemma pids_read_ok:
  assumes "pid_wf hash m pids" "spcd_get_num_threads pids = int n" "0 < n"
  shows "\<exists>ps. pids_read pids = Some (0, csv (map show_nat (rev ps)) @ newline) \<and> length ps = n \<and>
    (\<forall>pid t. live hash pids pid = Some t \<longrightarrow> ps ! nat t = unat (word_of_int pid :: u32))"
proof -
  define g where "g = (\<lambda>i. ps_pid (spcd_pid_reverse pids ! i))"
  define ps where "ps = map (\<lambda>i. unat (word_of_int (g i) :: u32)) [0..<n]"
  have n: "n \<le> 16384"
    using assms by (auto simp: pid_wf_def spcd_get_num_threads_def)
  then have "spcd_get_pid (int i) pids = Some (g i)" if "i < n" for i
    using that pid_wf_length[OF assms(1)] by (simp add: spcd_get_pid_def g_def)
  from pids_loop[of n "\<lambda>i. spcd_get_pid (int i) pids" g n "\<lambda>p. show_nat (unat (word_of_int p :: u32))" "[]", OF this]
  have "pids_read pids = Some (0, csv (map show_nat (rev ps)) @ newline)"
    using assms(2,3) by (simp add: pids_read_def Let_def ps_def rev_map comp_def)
  moreover have "ps ! nat t = unat (word_of_int pid :: u32)" if "live hash pids pid = Some t" for pid t
  proof -
    from live_range[OF assms(1) that] assms(2) have "0 \<le> t" "nat t < n"
      by (auto simp: spcd_get_num_threads_def)
    moreover from live_reverse[OF assms(1) that] this have "g (nat t) = pid"
      using n pid_wf_length[OF assms(1)] by (simp add: spcd_get_pid_def g_def)
    ultimately show ?thesis by (simp add: ps_def)
  qed
  ultimately show ?thesis by (intro exI[of _ ps]) (simp add: ps_def)
qed

lemma pids_read_example:
  "\<exists>ps. pids_read one_thread = Some (0, csv (map show_nat (rev ps)) @ newline) \<and> length ps = 1 \<and> ps ! 0 = 4711"
proof -
  have "spcd_get_num_threads one_thread = int 1"
    using add_pid_success(5)[OF cleared_wf _ one_thread_add] by (simp add: spcd_get_num_threads_def)
  from pids_read_ok[OF one_thread_wf this zero_less_one] obtain ps where
    ps: "pids_read one_thread = Some (0, csv (map show_nat (rev ps)) @ newline)" "length ps = 1"
    and pid: "\<forall>pid t. live low_bits_hash one_thread pid = Some t \<longrightarrow> ps ! nat t = unat (word_of_int pid :: u32)"
    by blast
  from pid[rule_format, OF one_thread_live] have "ps ! 0 = 4711" by simp
  with ps show ?thesis by blast
qed

lemma written_number:
  assumes "CHR 0x00 \<notin> set ds"
  shows "read_number k (ds @ [c]) = (if length ds < 200 then k ds else None)"
proof -
  have "takeWhile (\<lambda>c. c \<noteq> CHR 0x00) ds = ds" using assms by (auto simp: takeWhile_eq_all_conv)
  then show ?thesis by (simp add: read_number_def Let_def del: takeWhile_eq_all_conv)
qed

text \<open>
  Writing the granularity. A write of 1 to 200 bytes without NUL sets \<open>spcd_shift\<close> to what the
  kernel parses from all bytes but the last, whatever the last byte is (a newline is expected, but a
  digit is dropped too); an empty write, a write of more than 200 bytes (it overruns the 200 bytes of
  \<open>buf\<close>) and a text that does not parse (the variable is used unassigned) have no defined result.
\<close>
lemma set_shift_spec:
  assumes "CHR 0x00 \<notin> set ds"
  shows "set_shift k (ds @ [c]) cfg =
    (if length ds < 200 then map_option (\<lambda>v. (length ds + 1, cfg\<lparr>spcd_shift := sint v\<rparr>)) (k ds) else None)"
  by (simp add: set_shift_def written_number[OF assms] map_option_case split: option.split)

definition decimal_kstrtouint :: "string \<Rightarrow> u32 option" where
  "decimal_kstrtouint ds = (if ds \<noteq> [] \<and> (\<forall>c \<in> set ds. 48 \<le> (of_char c :: nat) \<and> (of_char c :: nat) \<le> 57) \<and> read_nat ds < 2 ^ 32
     then Some (of_nat (read_nat ds)) else None)"

lemma set_shift_spec_example:
  "set_shift decimal_kstrtouint ''12'' small_cfg = Some (2, small_cfg\<lparr>spcd_shift := 1\<rparr>)"
  using set_shift_spec[of "''1''" decimal_kstrtouint "CHR ''2''" small_cfg]
  by (simp add: decimal_kstrtouint_def read_nat_def read_digit_def)

lemma report_stats_defined:
  assumes "2 \<le> n" "n \<le> 32768"
  shows "\<exists>r. report_stats (word_of_int (int n)) a b = Some r"
proof -
  have "unat (word_of_nat n :: u64) = n"
    using assms by (simp add: unsigned_of_nat take_bit_nat_eq_self_iff)
  then have "(word_of_int (int n) :: u64) \<noteq> 0" "(word_of_int (int n) :: u64) \<noteq> 1"
    using assms by auto
  then show ?thesis by (simp add: report_stats_def div_u64_def)
qed

lemma report_rows_defined:
  assumes "\<And>i j. i < n \<Longrightarrow> j < n \<Longrightarrow> f i j \<noteq> None" and "set ks \<subseteq> {..<n}"
  shows "wp (foldM (\<lambda>i st. do {
           (out, acc) \<leftarrow> foldM (\<lambda>j (out, acc). do { s \<leftarrow> f i j; Some (out @ g s j, h s acc) }) [0..<n] st;
           Some (out @ newline, acc)
         }) ks st0) (\<lambda>_. True)"
proof (rule wp_foldM_all)
  fix i st assume "i \<in> set ks"
  then have i: "i < n" using assms(2) by auto
  have "wp (foldM (\<lambda>j (out, acc). do { s \<leftarrow> f i j; Some (out @ g s j, h s acc) }) [0..<n] st) (\<lambda>_. True)"
  proof (rule wp_foldM_all)
    fix j st assume "j \<in> set [0..<n]"
    with assms(1)[OF i, of j] show "wp (case st of (out, acc) \<Rightarrow> do { s \<leftarrow> f i j; Some (out @ g s j, h s acc) }) (\<lambda>_. True)"
      by (cases st) auto
  qed simp
  then show "wp (do { (out, acc) \<leftarrow> foldM (\<lambda>j (out, acc). do { s \<leftarrow> f i j; Some (out @ g s j, h s acc) }) [0..<n] st;
      Some (out @ newline, acc) }) (\<lambda>_. True)"
    by (auto elim!: wp_mono)
qed simp

text \<open>
  The report at the end of an application always gets printed. With any number of numbered threads
  that the matrix has room for, \<open>spcd_print_comm\<close> reads inside the matrix and divides by nonzero
  numbers only.
\<close>

lemma print_comm_ok:
  assumes "matrix_wf (max_threads_bits cfg) m" "spcd_get_num_threads pids = int n"
    and "int n \<le> dim_int (max_threads_bits cfg)"
  shows "\<exists>text. spcd_print_comm cfg pids m = Some text"
proof (cases "n < 2")
  case True
  then show ?thesis using assms(2) by (simp add: spcd_print_comm_def)
next
  case False
  have "dim_int (max_threads_bits cfg) \<le> 2 ^ 15"
    unfolding dim_int_def using assms(1) by (intro power_increasing) (auto simp: matrix_wf_def)
  with assms(3) have n: "2 \<le> n" "n \<le> 32768" using False by auto
  have cells: "get_comm (max_threads_bits cfg) m (int i) (int j) \<noteq> None" if "i < n" "j < n" for i j
    using that assms(1,3) by (simp add: get_comm_eq)
  have "wp (foldM (\<lambda>i st. do {
           (out, acc) \<leftarrow> foldM (\<lambda>j (out, acc). do {
               s \<leftarrow> get_comm (max_threads_bits cfg) m (int i) (int j);
               Some (out @ show_nat (unat s) @ (if int j \<noteq> int n - 1 then '','' else []), report_cell s acc)
             }) [0..<n] st;
           Some (out @ newline, acc)
         }) (rev [0..<n]) ([], (0, 0))) (\<lambda>_. True)"
    by (rule report_rows_defined) (use cells in auto)
  then obtain out acc where rows: "foldM (\<lambda>i st. do {
           (out, acc) \<leftarrow> foldM (\<lambda>j (out, acc). do {
               s \<leftarrow> get_comm (max_threads_bits cfg) m (int i) (int j);
               Some (out @ show_nat (unat s) @ (if int j \<noteq> int n - 1 then '','' else []), report_cell s acc)
             }) [0..<n] st;
           Some (out @ newline, acc)
         }) (rev [0..<n]) ([], (0, 0)) = Some (out, acc)"
    by (auto simp: wp_iff)
  obtain av va hf where stats: "report_stats (word_of_int (int n)) (fst acc) (snd acc) = Some (av, va, hf)"
    using report_stats_defined[OF n] by (metis surj_pair)
  show ?thesis
    using False stats by (simp add: spcd_print_comm_def assms(2) rows)
qed

lemma print_comm_example:
  "\<exists>text. spcd_print_comm small_cfg three_threads small_matrix = Some text"
  using print_comm_ok[of small_cfg small_matrix three_threads 3]
  by (simp add: three_threads_def spcd_get_num_threads_def dim_int_def)

text \<open>
  When the variance is right. A count of at most 46340 adds itself to the sum and its square to the
  sum of squares; the count 65536 adds nothing to the sum of squares, because \<open>s * s\<close> is computed in
  32 bits.
\<close>

lemma report_square:
  assumes "unat s \<le> 46340"
  shows "report_cell s (a, b) = (a + ucast s, b + ucast s * ucast s) \<and>
    report_cell 65536 (a, b) = (a + 65536, b)"
proof
  from assms have "unat s * unat s \<le> 46340 * 46340" by (intro mult_le_mono)
  then have sq: "unat s * unat s < 2 ^ 31" by simp
  then have us: "unat (s * s) = unat s * unat s" by (simp add: unat_word_ariths)
  have "unat (s * s) < 2 ^ 31" unfolding us by (rule sq)
  then have "(scast (s * s) :: u64) = ucast (s * s)" by (rule scast_small)
  also have "\<dots> = of_nat (unat (s * s))" by (rule of_nat_unat [symmetric])
  also have "\<dots> = of_nat (unat s) * of_nat (unat s)" unfolding us by (rule of_nat_mult)
  also have "\<dots> = ucast s * ucast s" by (simp only: of_nat_unat)
  finally have sq_cast: "(scast (s * s) :: u64) = ucast s * ucast s" .
  have "(scast s :: u64) = ucast s"
    by (rule scast_small) (use assms in simp)
  with sq_cast show "report_cell s (a, b) = (a + ucast s, b + ucast s * ucast s)"
    by (simp add: report_cell_def)
  show "report_cell 65536 (a, b) = (a + 65536, b)" by (simp add: report_cell_def)
qed

lemma report_square_example:
  "report_cell 46340 (0, 0) = (46340, 46340 * 46340)"
  using report_square[of 46340 0 0] by simp

end
