(* ===== verification/Cdsm_Pagefault.thy ===== *)
theory Cdsm_Pagefault
  imports Cdsm_Config Cdsm_Pid
begin

text \<open>
  The extra page faults, \<open>src/pagefault.c\<close>: a kernel thread that walks the memory of every tracked
  thread and clears the present bit of a few pages, so that the next access to them faults and is seen
  by the detection.

  Kernel code is an argument. \<open>pte_ops\<close> holds the operations on page table entries. The memory areas
  of a process are a heap from addresses of \<open>vm_area_struct\<close>s, linked by \<open>vm_next\<close>; a pointer that is
  not in the heap is dangling, and following it is undefined. \<open>walk\<close> is \<open>walk_page_range\<close>: what the
  code relies on is its documentation, that it calls the callback on the entries of the range in order
  until one call returns a nonzero value, which it returns (\<open>walk_ok\<close>, with the visited addresses as an
  argument). \<open>get_cycles\<close> and the answers of \<open>spcd_get_active_threads\<close>, which other processors change
  while the walk runs, are arguments too.
\<close>

section \<open>The code\<close>

unbundle bit_operations_syntax

record pte_ops =
  pte_none :: "u64 \<Rightarrow> bool"
  pte_present :: "u64 \<Rightarrow> bool"
  pte_clear_present :: "u64 \<Rightarrow> u64"
  pte_set_present :: "u64 \<Rightarrow> u64"
  pte_pfn :: "u64 \<Rightarrow> u64"

record vm_area_struct =
  vm_start :: u64
  vm_end :: u64
  vm_flags :: u64
  vm_next :: "nat option"

record mm_struct =
  pgd :: nat
  mmap :: "nat option"
  vmas :: "nat \<Rightarrow> vm_area_struct option"

definition VM_SHARED :: u64 where
  "VM_SHARED = 8"

record pf_process_t =
  pf_vma :: "nat option"
  next_addr :: u64
  num_walks :: u32

type_synonym page_table = "u64 \<Rightarrow> u64"

text \<open>\<open>cycles_read\<close> counts the calls of \<open>get_cycles\<close>.\<close>

record pf_state =
  proc :: "pf_process_t list option"
  spcd_pf_extra :: u64
  walk_found :: bool
  cycles_read :: nat

type_synonym walk_state = "pf_state \<times> page_table"
type_synonym pte_entry = "u64 \<Rightarrow> walk_state \<Rightarrow> (u32 \<times> walk_state) option"
type_synonym walk_fun = "pte_entry \<Rightarrow> u64 \<Rightarrow> u64 \<Rightarrow> walk_state \<Rightarrow> (u32 \<times> walk_state) option"

definition get_proc :: "pf_state \<Rightarrow> int \<Rightarrow> pf_process_t option" where
  "get_proc st pid = do { ps \<leftarrow> proc st; agetz ps pid }"

definition put_proc :: "pf_state \<Rightarrow> int \<Rightarrow> pf_process_t \<Rightarrow> pf_state option" where
  "put_proc st pid p = do { ps \<leftarrow> proc st; ps' \<leftarrow> aputz ps pid p; Some (st\<lparr>proc := Some ps'\<rparr>) }"

definition callback_page_walk :: "pte_ops \<Rightarrow> int \<Rightarrow> pte_entry" where
  "callback_page_walk ops pid addr s = (case s of (st, pt) \<Rightarrow>
     if pte_none ops (pt addr) \<or> \<not> pte_present ops (pt addr) then Some (0, s)
     else do {
       p \<leftarrow> get_proc st pid;
       st \<leftarrow> put_proc st pid (p\<lparr>next_addr := addr\<rparr>);
       Some (1, (st\<lparr>spcd_pf_extra := spcd_pf_extra st + 1\<rparr>, pt(addr := pte_clear_present ops (pt addr))))
     })"

definition is_shared :: "vm_area_struct \<Rightarrow> int" where
  "is_shared vma = (if vm_flags vma AND VM_SHARED \<noteq> 0 then 1 else 0)"

text \<open>
  The loop of \<open>find_next_vma\<close>; it returns the area and the new \<open>num_walks\<close> of the thread. A loop that
  does not end is the value \<open>None\<close>, as is a dangling pointer.
\<close>

partial_function (option) find_vma_loop ::
  "int \<Rightarrow> mm_struct \<Rightarrow> nat option \<Rightarrow> int \<Rightarrow> u32 \<Rightarrow> (nat option \<times> u32) option" where
  "find_vma_loop shared_flag mm tmp i walks =
     (if tmp = None \<and> i + 1 > 2 then Some (None, walks)
      else Option.bind (case tmp of None \<Rightarrow> Some (mmap mm, i + 1, walks + 1)
                        | Some p \<Rightarrow> Option.bind (vmas mm p) (\<lambda>v. Some (vm_next v, i, walks)))
        (\<lambda>(tmp, i, walks). case tmp of None \<Rightarrow> find_vma_loop shared_flag mm tmp i walks
           | Some q \<Rightarrow> Option.bind (vmas mm q) (\<lambda>v.
               if shared_flag = 0 \<or> is_shared v \<noteq> 0 then Some (tmp, walks)
               else find_vma_loop shared_flag mm tmp i walks)))"

definition find_next_vma ::
  "int \<Rightarrow> int \<Rightarrow> mm_struct \<Rightarrow> nat option \<Rightarrow> pf_state \<Rightarrow> (nat option \<times> pf_state) option" where
  "find_next_vma shared_flag pid mm prev_vma st = do {
     p \<leftarrow> get_proc st pid;
     (v, walks) \<leftarrow> find_vma_loop shared_flag mm prev_vma 0 (num_walks p);
     st \<leftarrow> put_proc st pid (p\<lparr>num_walks := walks\<rparr>);
     Some (v, st)
   }"

text \<open>
  \<open>proc[pid].vma = find_next_vma(...)\<close>, and the first address of the area unless it is NULL, in which
  case the walk ends (\<open>goto out\<close>, the value \<open>False\<close>).
\<close>

definition pf_advance :: "int \<Rightarrow> int \<Rightarrow> mm_struct \<Rightarrow> nat option \<Rightarrow> pf_state \<Rightarrow> (bool \<times> pf_state) option" where
  "pf_advance shared_flag pid mm prev st = do {
     (v, st) \<leftarrow> find_next_vma shared_flag pid mm prev st;
     p \<leftarrow> get_proc st pid;
     (case v of
        None \<Rightarrow> do { st \<leftarrow> put_proc st pid (p\<lparr>pf_vma := None\<rparr>); Some (False, st) }
      | Some q \<Rightarrow> do {
          vma \<leftarrow> vmas mm q;
          st \<leftarrow> put_proc st pid (p\<lparr>pf_vma := Some q, next_addr := vm_start vma\<rparr>);
          Some (True, st)
        })
   }"

text \<open>The body of the inner loop; \<open>None\<close> in the first component means that the loop goes on.\<close>

definition pf_search_step ::
  "pte_ops \<Rightarrow> walk_fun \<Rightarrow> (nat \<Rightarrow> u64) \<Rightarrow> int \<Rightarrow> int \<Rightarrow> mm_struct \<Rightarrow> u64 \<Rightarrow> walk_state \<Rightarrow>
   (bool option \<times> walk_state) option" where
  "pf_search_step ops walk cycles shared_flag pid mm start s = do {
     p \<leftarrow> get_proc (fst s) pid;
     if ucast (num_walks p) - start > 2 then Some (Some False, s)
     else do {
       q \<leftarrow> pf_vma p;
       vma \<leftarrow> vmas mm q;
       (addr_pbit_changed, st, pt) \<leftarrow>
         (if walk_found (fst s)
          then walk (callback_page_walk ops pid) (next_addr p) (vm_end vma) s else None);
       p \<leftarrow> get_proc st pid;
       if addr_pbit_changed \<noteq> 0 then do {
         let p' = p\<lparr>next_addr := next_addr p + PAGE_SIZE * (cycles (cycles_read st) mod 61 + 1)\<rparr>;
         st \<leftarrow> put_proc (st\<lparr>cycles_read := cycles_read st + 1\<rparr>) pid p';
         q' \<leftarrow> pf_vma p';
         vma \<leftarrow> vmas mm q';
         if next_addr p' \<ge> vm_end vma then do {
           (go, st) \<leftarrow> pf_advance shared_flag pid mm (pf_vma p') st;
           Some (Some go, st, pt)
         } else Some (Some True, st, pt)
       } else do {
         (go, st) \<leftarrow> pf_advance shared_flag pid mm (pf_vma p) st;
         Some (if go then None else Some False, st, pt)
       }
     }
   }"

partial_function (option) pf_search ::
  "pte_ops \<Rightarrow> walk_fun \<Rightarrow> (nat \<Rightarrow> u64) \<Rightarrow> int \<Rightarrow> int \<Rightarrow> mm_struct \<Rightarrow> u64 \<Rightarrow> walk_state \<Rightarrow>
   (bool \<times> walk_state) option" where
  "pf_search ops walk cycles shared_flag pid mm start s =
     Option.bind (pf_search_step ops walk cycles shared_flag pid mm start s)
       (\<lambda>(r, s). case r of Some go \<Rightarrow> Some (go, s)
          | None \<Rightarrow> pf_search ops walk cycles shared_flag pid mm start s)"

text \<open>One extra fault, the body of the \<open>for\<close> loop.\<close>

definition pf_one_fault ::
  "pte_ops \<Rightarrow> walk_fun \<Rightarrow> (nat \<Rightarrow> u64) \<Rightarrow> (nat \<Rightarrow> int) \<Rightarrow> int \<Rightarrow> int \<Rightarrow> mm_struct \<Rightarrow> nat \<Rightarrow> walk_state \<Rightarrow>
   (bool \<times> walk_state) option" where
  "pf_one_fault ops walk cycles active shared_flag pid mm i s = do {
     p \<leftarrow> get_proc (fst s) pid;
     let start = ucast (num_walks p);
     if active i < 4 then Some (False, s)
     else do {
       (go, st) \<leftarrow> (if pf_vma p = None then pf_advance shared_flag pid mm None (fst s) else Some (True, fst s));
       if go then pf_search ops walk cycles shared_flag pid mm start (st, snd s)
       else Some (False, st, snd s)
     }
   }"

text \<open>\<open>mm\<close> is \<open>None\<close> for a task without memory of its own.\<close>

definition pf_pagewalk ::
  "pte_ops \<Rightarrow> walk_fun \<Rightarrow> (nat \<Rightarrow> u64) \<Rightarrow> (nat \<Rightarrow> int) \<Rightarrow> config \<Rightarrow> int \<Rightarrow> int \<Rightarrow> mm_struct option \<Rightarrow>
   walk_state \<Rightarrow> walk_state option" where
  "pf_pagewalk ops walk cycles active cfg shared_flag pid mm s = (case mm of
       None \<Rightarrow> Some s
     | Some mm \<Rightarrow> map_option snd (loopM (pf_one_fault ops walk cycles active shared_flag pid mm)
                    [0..<nat (spcd_num_faults cfg)] s))"

text \<open>
  One round of \<open>spcd_pagefault_func\<close> after its sleep, and what it does for one tid. \<open>task_mm\<close> finds the task of a
  pid, \<open>None\<close> when it is gone, and its memory, which threads of one process share: \<open>pgd\<close> names its page table.
\<close>

definition serve_tid ::
  "pte_ops \<Rightarrow> walk_fun \<Rightarrow> (nat \<Rightarrow> u64) \<Rightarrow> (int \<Rightarrow> mm_struct option option) \<Rightarrow> config \<Rightarrow> int \<Rightarrow> pid_state \<Rightarrow> nat \<Rightarrow>
   pf_state \<times> (nat \<Rightarrow> page_table) \<Rightarrow> (pf_state \<times> (nat \<Rightarrow> page_table)) option" where
  "serve_tid ops walk cycles task_mm cfg shared_flag pids i s = (case s of (st, pts) \<Rightarrow> do {
     pid \<leftarrow> spcd_get_pid (int i) pids;
     (case task_mm pid of
        None \<Rightarrow> Some (st, pts)
      | Some None \<Rightarrow> Some (st, pts)
      | Some (Some mm) \<Rightarrow> do {
          (st, pt) \<leftarrow> pf_pagewalk ops walk cycles (\<lambda>_. spcd_get_active_threads pids) cfg shared_flag (int i) (Some mm) (st, pts (pgd mm));
          Some (st, pts(pgd mm := pt))
        })
   })"

definition spcd_pagefault_round ::
  "pte_ops \<Rightarrow> walk_fun \<Rightarrow> (nat \<Rightarrow> u64) \<Rightarrow> (int \<Rightarrow> mm_struct option option) \<Rightarrow> config \<Rightarrow> int \<Rightarrow> pid_state \<Rightarrow>
   pf_state \<times> (nat \<Rightarrow> page_table) \<Rightarrow> (pf_state \<times> (nat \<Rightarrow> page_table)) option" where
  "spcd_pagefault_round ops walk cycles task_mm cfg shared_flag pids s =
     (if spcd_get_active_threads pids < 4 then Some s
      else foldM (serve_tid ops walk cycles task_mm cfg shared_flag pids) [0..<nat (spcd_get_active_threads pids)] s)"

text \<open>
  \<open>alloc_ok\<close> is the answer of \<open>kmalloc\<close>, \<open>symbol\<close> whether \<open>kallsyms_lookup_name\<close> finds
  \<open>walk_page_range\<close>. An array that exists is kept and zeroed.
\<close>

definition zero_proc :: pf_process_t where
  "zero_proc = \<lparr>pf_vma = None, next_addr = 0, num_walks = 0\<rparr>"

definition spcd_pf_thread_init :: "config \<Rightarrow> bool \<Rightarrow> bool \<Rightarrow> pf_state \<Rightarrow> pf_state option" where
  "spcd_pf_thread_init cfg alloc_ok symbol st = (
     let n = max_threads cfg; st = st\<lparr>spcd_pf_extra := 0, walk_found := walk_found st \<or> symbol\<rparr> in
     (case proc st of
        None \<Rightarrow> Some (if alloc_ok \<and> 0 \<le> n then st\<lparr>proc := Some (replicate (nat n) zero_proc)\<rparr> else st)
      | Some ps \<Rightarrow>
          if 0 \<le> n \<and> nat n \<le> length ps
          then Some (st\<lparr>proc := Some (replicate (nat n) zero_proc @ drop (nat n) ps)\<rparr>) else None))"

section \<open>The next area\<close>

fun vma_list :: "mm_struct \<Rightarrow> nat option \<Rightarrow> nat list \<Rightarrow> bool" where
  "vma_list mm p [] \<longleftrightarrow> p = None"
| "vma_list mm p (x # xs) \<longleftrightarrow> p = Some x \<and> (case vmas mm x of None \<Rightarrow> False | Some v \<Rightarrow> vma_list mm (vm_next v) xs)"

definition wanted :: "int \<Rightarrow> mm_struct \<Rightarrow> nat \<Rightarrow> bool" where
  "wanted shared_flag mm q \<longleftrightarrow>
     (case vmas mm q of None \<Rightarrow> False | Some v \<Rightarrow> shared_flag = 0 \<or> is_shared v \<noteq> 0)"

lemma wanted_eq: "vmas mm q = Some v \<Longrightarrow> wanted fl mm q \<longleftrightarrow> fl = 0 \<or> is_shared v \<noteq> 0"
  by (simp add: wanted_def)

lemma vma_list_mem: "vma_list mm p xs \<Longrightarrow> q \<in> set xs \<Longrightarrow> vmas mm q \<noteq> None"
  by (induction xs arbitrary: p) (auto split: option.splits)

lemma vma_list_split:
  "vma_list mm p (pre @ q # post) \<Longrightarrow> \<exists>v. vmas mm q = Some v \<and> vma_list mm (vm_next v) post"
  by (induction pre arbitrary: p) (auto split: option.splits)

lemma find_vma_scan:
  assumes "vmas mm p = Some v" "vma_list mm (vm_next v) xs"
  shows "find_vma_loop fl mm (Some p) i w =
    (case find (wanted fl mm) xs of Some q \<Rightarrow> Some (Some q, w) | None \<Rightarrow> find_vma_loop fl mm None i w)"
  using assms
proof (induction xs arbitrary: p v)
  case Nil
  then show ?case by (subst find_vma_loop.simps) simp
next
  case (Cons x xs)
  then obtain u where u: "vm_next v = Some x" "vmas mm x = Some u" "vma_list mm (vm_next u) xs"
    by (auto split: option.splits)
  then show ?case
    using Cons.IH[OF u(2,3)] Cons.prems
    by (subst find_vma_loop.simps) (simp add: wanted_eq)
qed

lemma find_vma_start:
  assumes "vma_list mm (mmap mm) xs" "i \<le> 1"
  shows "find_vma_loop fl mm None i w =
    (case find (wanted fl mm) xs of Some q \<Rightarrow> Some (Some q, w + 1) | None \<Rightarrow> find_vma_loop fl mm None (i + 1) (w + 1))"
proof (cases xs)
  case Nil
  with assms show ?thesis by (subst find_vma_loop.simps) simp
next
  case (Cons x ys)
  with assms obtain u where u: "mmap mm = Some x" "vmas mm x = Some u" "vma_list mm (vm_next u) ys"
    by (auto split: option.splits)
  then show ?thesis
    using find_vma_scan[OF u(2,3)] assms(2) Cons
    by (subst find_vma_loop.simps) (simp add: wanted_eq)
qed

lemma find_vma_stop: "find_vma_loop fl mm None 2 w = Some (None, w)"
  by (subst find_vma_loop.simps) simp

text \<open>The areas after \<open>prev\<close>, then all of them: where the next one comes from, and what it costs.\<close>

definition next_wanted :: "int \<Rightarrow> mm_struct \<Rightarrow> nat list \<Rightarrow> nat list \<Rightarrow> nat option \<times> u32" where
  "next_wanted fl mm post xs = (case find (wanted fl mm) post of
       Some q \<Rightarrow> (Some q, 0)
     | None \<Rightarrow> (case find (wanted fl mm) xs of Some q \<Rightarrow> (Some q, 1) | None \<Rightarrow> (None, 2)))"

lemma find_vma_loop_spec:
  assumes "vma_list mm (mmap mm) xs"
    and "case prev of None \<Rightarrow> post = [] | Some p \<Rightarrow> \<exists>pre. xs = pre @ p # post"
  shows "find_vma_loop fl mm prev 0 w =
    (case next_wanted fl mm post xs of (v, d) \<Rightarrow> Some (v, w + d))"
proof -
  have none: "find_vma_loop fl mm None 0 w = (case next_wanted fl mm [] xs of (v, d) \<Rightarrow> Some (v, w + d))"
    using find_vma_start[OF assms(1), of 0 fl w] find_vma_start[OF assms(1), of 1 fl "w + 1"]
    by (auto simp: next_wanted_def find_vma_stop split: option.splits)
  show ?thesis
  proof (cases prev)
    case None
    with none assms(2) show ?thesis by simp
  next
    case (Some p)
    with assms obtain pre where xs: "xs = pre @ p # post" by auto
    with assms(1) obtain v where "vmas mm p = Some v" "vma_list mm (vm_next v) post"
      using vma_list_split by blast
    from find_vma_scan[OF this, of fl 0 w] none Some show ?thesis
      by (auto simp: next_wanted_def split: option.splits)
  qed
qed

section \<open>The entry of a thread\<close>

definition upd_proc :: "pf_state \<Rightarrow> int \<Rightarrow> pf_process_t \<Rightarrow> pf_state" where
  "upd_proc st pid p = st\<lparr>proc := map_option (\<lambda>ps. ps[nat pid := p]) (proc st)\<rparr>"

lemma put_proc_upd [simp]: "get_proc st pid = Some p \<Longrightarrow> put_proc st pid p' = Some (upd_proc st pid p')"
  by (cases "proc st")
    (auto simp: get_proc_def put_proc_def upd_proc_def agetz_def aputz_def aget_def split: if_splits)

lemma get_upd_proc: "get_proc st pid = Some p \<Longrightarrow> get_proc (upd_proc st pid p') k = (if k = pid then Some p' else get_proc st k)"
  by (cases "proc st")
    (auto simp: get_proc_def upd_proc_def agetz_def aget_def nth_list_update nat_eq_iff split: if_splits)

lemma upd_proc_fields [simp]:
  "spcd_pf_extra (upd_proc st pid p) = spcd_pf_extra st"
  "walk_found (upd_proc st pid p) = walk_found st"
  "cycles_read (upd_proc st pid p) = cycles_read st"
  by (simp_all add: upd_proc_def)

lemma get_proc_fields [simp]:
  "get_proc (st\<lparr>spcd_pf_extra := x\<rparr>) k = get_proc st k"
  "get_proc (st\<lparr>cycles_read := c\<rparr>) k = get_proc st k"
  by (simp_all add: get_proc_def)

section \<open>Pages that were made to fault\<close>

definition pages_cleared :: "pte_ops \<Rightarrow> page_table \<Rightarrow> page_table \<Rightarrow> u64 set \<Rightarrow> bool" where
  "pages_cleared ops pt pt' A \<longleftrightarrow>
     (\<forall>a. pt' a = (if a \<in> A then pte_clear_present ops (pt a) else pt a)) \<and>
     (\<forall>a \<in> A. pte_present ops (pt a) \<and> \<not> pte_none ops (pt a))"

definition clears_present :: "pte_ops \<Rightarrow> bool" where
  "clears_present ops \<longleftrightarrow> (\<forall>x. \<not> pte_present ops (pte_clear_present ops x))"

lemma pages_cleared_refl: "pages_cleared ops pt pt {}"
  by (simp add: pages_cleared_def)

lemma pages_cleared_disjoint:
  assumes "clears_present ops" "pages_cleared ops pt pt' A" "pages_cleared ops pt' pt'' B"
  shows "A \<inter> B = {}"
  using assms by (auto simp: pages_cleared_def clears_present_def)

lemma pages_cleared_trans:
  assumes "clears_present ops" "pages_cleared ops pt pt' A" "pages_cleared ops pt' pt'' B"
  shows "pages_cleared ops pt pt'' (A \<union> B)"
proof -
  have not_A: "\<And>a. a \<in> B \<Longrightarrow> a \<notin> A" using pages_cleared_disjoint[OF assms] by blast
  then have "\<And>a. a \<in> B \<Longrightarrow> pt' a = pt a" using assms(2) by (simp add: pages_cleared_def)
  with not_A show ?thesis using assms(2,3) by (auto simp: pages_cleared_def)
qed

definition faulted :: "pte_ops \<Rightarrow> int \<Rightarrow> nat \<Rightarrow> walk_state \<Rightarrow> walk_state \<Rightarrow> bool" where
  "faulted ops pid n s s' \<longleftrightarrow> (\<exists>A. pages_cleared ops (snd s) (snd s') A \<and> card A \<le> n \<and>
     spcd_pf_extra (fst s') = spcd_pf_extra (fst s) + of_nat (card A)) \<and>
     (\<forall>k. k \<noteq> pid \<longrightarrow> get_proc (fst s') k = get_proc (fst s) k)"

lemma faulted_refl: "faulted ops pid 0 s s"
  by (auto simp: faulted_def intro!: exI[of _ "{}"] pages_cleared_refl)

lemma faulted_pure:
  "spcd_pf_extra st' = spcd_pf_extra st \<Longrightarrow> (\<And>k. k \<noteq> pid \<Longrightarrow> get_proc st' k = get_proc st k) \<Longrightarrow>
   faulted ops pid 0 (st, pt) (st', pt)"
  by (auto simp: faulted_def intro!: exI[of _ "{}"] pages_cleared_refl)

lemma faulted_mono: "faulted ops pid m s s' \<Longrightarrow> m \<le> n \<Longrightarrow> faulted ops pid n s s'"
  by (auto simp: faulted_def intro: le_trans)

lemma faulted_trans:
  assumes "clears_present ops" "faulted ops pid m s s'" "faulted ops pid n s' s''"
  shows "faulted ops pid (m + n) s s''"
proof -
  from assms(2) obtain A where A: "pages_cleared ops (snd s) (snd s') A" "card A \<le> m"
    "spcd_pf_extra (fst s') = spcd_pf_extra (fst s) + of_nat (card A)"
    unfolding faulted_def by blast
  from assms(3) obtain B where B: "pages_cleared ops (snd s') (snd s'') B" "card B \<le> n"
    "spcd_pf_extra (fst s'') = spcd_pf_extra (fst s') + of_nat (card B)"
    unfolding faulted_def by blast
  have "card (A \<union> B) = card A + card B"
    using pages_cleared_disjoint[OF assms(1) A(1) B(1)] by (intro card_Un_disjoint) simp_all
  then show ?thesis
    using pages_cleared_trans[OF assms(1) A(1) B(1)] A B assms(2,3)
    unfolding faulted_def by (intro conjI exI[of _ "A \<union> B"]) auto
qed

text \<open>What the code relies on from \<open>walk_page_range\<close>.\<close>

primrec visit_loop :: "pte_entry \<Rightarrow> u64 list \<Rightarrow> walk_state \<Rightarrow> (u32 \<times> walk_state) option" where
  "visit_loop cb [] s = Some (0, s)"
| "visit_loop cb (a # as) s =
     Option.bind (cb a s) (\<lambda>(r, s). if r \<noteq> 0 then Some (r, s) else visit_loop cb as s)"

definition walk_ok :: "(u64 \<Rightarrow> u64 \<Rightarrow> u64 list) \<Rightarrow> walk_fun \<Rightarrow> bool" where
  "walk_ok visits walk \<longleftrightarrow> (\<forall>cb a e s. walk cb a e s = visit_loop cb (visits a e) s)"

lemma visit_spec:
  assumes "get_proc (fst s) pid = Some p"
  shows "wp (visit_loop (callback_page_walk ops pid) as s) (\<lambda>(r, s'). faulted ops pid 1 s s' \<and>
     walk_found (fst s') = walk_found (fst s) \<and> (r = 0 \<longrightarrow> s' = s) \<and>
     (\<exists>a. get_proc (fst s') pid = Some (p\<lparr>next_addr := a\<rparr>)))"
proof (induction as)
  case Nil
  have "p\<lparr>next_addr := next_addr p\<rparr> = p" by simp
  then show ?case using assms faulted_mono[OF faulted_refl, of 1] by (auto intro!: exI[of _ "next_addr p"])
next
  case (Cons a as)
  obtain st pt where s: "s = (st, pt)" by (cases s)
  show ?case
  proof (cases "pte_none ops (pt a) \<or> \<not> pte_present ops (pt a)")
    case True
    with Cons s show ?thesis by (simp add: callback_page_walk_def)
  next
    case False
    have "faulted ops pid 1 (st, pt)
      (upd_proc st pid (p\<lparr>next_addr := a\<rparr>)\<lparr>spcd_pf_extra := spcd_pf_extra st + 1\<rparr>, pt(a := pte_clear_present ops (pt a)))"
      unfolding faulted_def using False assms s
      by (auto intro!: exI[of _ "{a}"] simp: pages_cleared_def get_upd_proc)
    with False s assms show ?thesis
      by (auto simp: callback_page_walk_def get_upd_proc)
  qed
qed

section \<open>The walk ends\<close>

definition walker_ok :: "nat list \<Rightarrow> int \<Rightarrow> pf_state \<Rightarrow> bool" where
  "walker_ok xs pid st \<longleftrightarrow> walk_found st \<and>
     (case get_proc st pid of None \<Rightarrow> False
      | Some p \<Rightarrow> (case pf_vma p of None \<Rightarrow> True | Some q \<Rightarrow> q \<in> set xs))"

lemma find_split: "find P xs = Some q \<Longrightarrow> \<exists>a b. xs = a @ q # b"
  by (auto simp: find_Some_iff intro: split_list)

text \<open>Where the current area stands, and how often the list was started from its head.\<close>

definition at_area :: "nat list \<Rightarrow> pf_process_t \<Rightarrow> nat list \<Rightarrow> bool" where
  "at_area xs p post \<longleftrightarrow> (\<exists>q pre. pf_vma p = Some q \<and> xs = pre @ q # post)"

lemma pf_advance_spec:
  assumes "vma_list mm (mmap mm) xs" "get_proc st pid = Some p"
    and "case prev of None \<Rightarrow> post = [] | Some p \<Rightarrow> \<exists>pre. xs = pre @ p # post"
  shows "wp (pf_advance fl pid mm prev st) (\<lambda>(go, st'). faulted ops pid 0 (st, pt) (st', pt) \<and>
     walk_found st' = walk_found st \<and>
     (\<exists>p'. get_proc st' pid = Some p' \<and> (\<not> go \<longrightarrow> pf_vma p' = None) \<and>
       (go \<longrightarrow> (\<exists>post'. at_area xs p' post' \<and>
          (num_walks p' = num_walks p \<and> length post' < length post \<or> num_walks p' = num_walks p + 1)))))"
proof -
  obtain v d where nw: "next_wanted fl mm post xs = (v, d)" by (cases "next_wanted fl mm post xs")
  then have loop: "find_vma_loop fl mm prev 0 (num_walks p) = Some (v, num_walks p + d)"
    using find_vma_loop_spec[OF assms(1,3)] by simp
  show ?thesis
  proof (cases v)
    case None
    then show ?thesis using loop assms(2)
      by (auto simp: pf_advance_def find_next_vma_def get_upd_proc intro!: faulted_pure)
  next
    case (Some q)
    with nw have "(\<exists>a post'. post = a @ q # post' \<and> d = 0) \<or> (\<exists>a post'. xs = a @ q # post' \<and> d = 1)"
      by (auto simp: next_wanted_def split: option.splits dest!: find_split)
    moreover have "\<exists>pre. xs = pre @ post"
    proof (cases prev)
      case None
      then show ?thesis using assms(3) by simp
    next
      case (Some r)
      with assms(3) obtain pre where "xs = (pre @ [r]) @ post" by auto
      then show ?thesis by blast
    qed
    ultimately have "\<exists>pre post'. xs = pre @ q # post' \<and> (d = 0 \<and> length post' < length post \<or> d = 1)"
    proof (elim disjE exE conjE)
      fix pre a post' assume "post = a @ q # post'" "d = 0" "xs = pre @ post"
      then have "xs = (pre @ a) @ q # post'" "length post' < length post" by simp_all
      with \<open>d = 0\<close> show ?thesis by blast
    qed blast
    then obtain pre post' where xs: "xs = pre @ q # post'"
      and d: "d = 0 \<and> length post' < length post \<or> d = 1" by blast
    from xs obtain vma where "vmas mm q = Some vma"
      using assms(1) vma_list_split by blast
    then show ?thesis using loop assms(2) Some xs d
      by (auto simp: pf_advance_def find_next_vma_def get_upd_proc at_area_def intro!: faulted_pure)
  qed
qed

text \<open>Three starts are one too many, also when \<open>num_walks\<close> wraps around.\<close>

lemma walks_stop: "(2::u64) < ucast (w + 3 :: u32) - ucast w"
proof (cases "unat w + 3 < 2 ^ 32")
  case True
  then have "unat (w + 3) = unat w + 3" by (simp add: unat_word_ariths)
  then have "(ucast (w + 3) :: u64) = ucast w + 3"
    by (metis of_nat_add of_nat_numeral of_nat_unat)
  then show ?thesis by simp
next
  case False
  then have w: "unat w \<ge> 2 ^ 32 - 3" by simp
  have lt: "unat w < 2 ^ 32" using unat_lt_bound[of w] by simp
  have "unat (w + 3) = (unat w + 3) mod 2 ^ 32" by (simp add: unat_word_ariths)
  also have "\<dots> = unat w + 3 - 2 ^ 32"
    using w lt by (subst mod_if) simp
  finally have "unat (w + 3) = unat w + 3 - 2 ^ 32" .
  then have u: "(ucast (w + 3) :: u64) = of_nat (unat w + 3 - 2 ^ 32)" by (metis of_nat_unat)
  have "(ucast w :: u64) = of_nat (unat w)" by (rule of_nat_unat [symmetric])
  moreover have "(of_nat (unat w + 3 - 2 ^ 32) :: u64) = of_nat (unat w) + 3 - 2 ^ 32"
    using w by (simp add: of_nat_diff)
  ultimately have "ucast (w + 3) - ucast w = (3 - 2 ^ 32 :: u64)" using u by simp
  then show ?thesis by simp
qed

lemma pf_search_step_ok:
  assumes "walk_ok visits walk" "clears_present ops" "vma_list mm (mmap mm) xs"
    and p: "get_proc st pid = Some p" "at_area xs p post" "walk_found st"
    and w: "num_walks p = w + of_nat d" "d \<le> 3"
  shows "wp (pf_search_step ops walk cycles fl pid mm (ucast w) (st, pt)) (\<lambda>(r, s').
     faulted ops pid 1 (st, pt) s' \<and>
     (r \<noteq> None \<longrightarrow> walker_ok xs pid (fst s')) \<and>
     (r = None \<longrightarrow> faulted ops pid 0 (st, pt) s' \<and> walk_found (fst s') \<and>
        (\<exists>p' post' d'. get_proc (fst s') pid = Some p' \<and> at_area xs p' post' \<and> num_walks p' = w + of_nat d' \<and>
           d' \<le> 3 \<and> (d' = d \<and> length post' < length post \<or> d' = Suc d))))"
proof -
  obtain q pre where q: "pf_vma p = Some q" "xs = pre @ q # post"
    using p(2) unfolding at_area_def by blast
  then obtain vma where vma: "vmas mm q = Some vma"
    using assms(3) vma_list_split by blast
  have refl1: "faulted ops pid 1 (st, pt) (st, pt)"
    by (rule faulted_mono [OF faulted_refl]) simp
  show ?thesis
  proof (cases "ucast (num_walks p) - ucast w > (2 :: u64)")
    case True
    with refl1 p q show ?thesis by (simp add: pf_search_step_def walker_ok_def)
  next
    case False
    then have d: "d \<le> 2"
      using walks_stop[of w] w by (cases "d = 3") auto
    have "wp (walk (callback_page_walk ops pid) (next_addr p) (vm_end vma) (st, pt)) (\<lambda>(r, s').
        faulted ops pid 1 (st, pt) s' \<and> walk_found (fst s') = walk_found st \<and> (r = 0 \<longrightarrow> s' = (st, pt)) \<and>
        (\<exists>a. get_proc (fst s') pid = Some (p\<lparr>next_addr := a\<rparr>)))"
      using visit_spec[of "(st, pt)" pid p ops "visits (next_addr p) (vm_end vma)"] assms(1) p(1)
      by (simp add: walk_ok_def)
    then obtain r st1 pt1 a where walk: "walk (callback_page_walk ops pid) (next_addr p) (vm_end vma) (st, pt) = Some (r, st1, pt1)"
      and f1: "faulted ops pid 1 (st, pt) (st1, pt1)" and found1: "walk_found st1" and r0: "r = 0 \<longrightarrow> (st1, pt1) = (st, pt)"
      and p1: "get_proc st1 pid = Some (p\<lparr>next_addr := a\<rparr>)"
      using p(3) by (auto elim!: wpE)
    show ?thesis
    proof (cases "r = 0")
      case True
      with r0 have st1: "st1 = st" "pt1 = pt" by simp_all
      have "case Some q of None \<Rightarrow> post = [] | Some p \<Rightarrow> \<exists>pre. xs = pre @ p # post" using q by auto
      from pf_advance_spec[OF assms(3) p(1) this, where ops = ops and pt = pt and fl = fl]
      obtain go st2 p' where adv: "pf_advance fl pid mm (Some q) st = Some (go, st2)"
        and f2: "faulted ops pid 0 (st, pt) (st2, pt)" and found2: "walk_found st2"
        and p': "get_proc st2 pid = Some p'" "\<not> go \<longrightarrow> pf_vma p' = None"
          "go \<longrightarrow> (\<exists>post'. at_area xs p' post' \<and>
            (num_walks p' = num_walks p \<and> length post' < length post \<or> num_walks p' = num_walks p + 1))"
        using p(3) by (auto elim!: wpE)
      have f2': "faulted ops pid 1 (st, pt) (st2, pt)" by (rule faulted_mono [OF f2]) simp
      have step: "pf_search_step ops walk cycles fl pid mm (ucast w) (st, pt) =
          Some (if go then None else Some False, st2, pt)"
        using False p q vma walk True st1 adv by (simp add: pf_search_step_def)
      show ?thesis
      proof (cases go)
        case True
        with p' obtain post' where post': "at_area xs p' post'"
          "num_walks p' = num_walks p \<and> length post' < length post \<or> num_walks p' = num_walks p + 1" by blast
        then obtain d' where d': "num_walks p' = w + of_nat d'" "d' \<le> 3"
            "d' = d \<and> length post' < length post \<or> d' = Suc d"
          using w d by (elim disjE) (auto intro: that[of d] that[of "Suc d"])
        have "wp (Some (None, st2, pt)) (\<lambda>(r, s'). faulted ops pid 1 (st, pt) s' \<and>
           (r \<noteq> None \<longrightarrow> walker_ok xs pid (fst s')) \<and>
           (r = None \<longrightarrow> faulted ops pid 0 (st, pt) s' \<and> walk_found (fst s') \<and>
              (\<exists>p' post' d'. get_proc (fst s') pid = Some p' \<and> at_area xs p' post' \<and> num_walks p' = w + of_nat d' \<and>
                 d' \<le> 3 \<and> (d' = d \<and> length post' < length post \<or> d' = Suc d))))"
          using f2 f2' found2 p'(1) post'(1) d' by (simp only: wp_Some prod.case fst_conv simp_thms) blast
        with True step show ?thesis by (simp only: if_True)
      next
        case False
        with step f2' found2 p' show ?thesis by (simp add: walker_ok_def)
      qed
    next
      case False
      let ?p' = "p\<lparr>next_addr := a + PAGE_SIZE * (cycles (cycles_read st1) mod 61 + 1)\<rparr>"
      let ?st2 = "upd_proc (st1\<lparr>cycles_read := cycles_read st1 + 1\<rparr>) pid ?p'"
      have st2: "get_proc ?st2 pid = Some ?p'" "walk_found ?st2"
        using p1 found1 by (simp_all add: get_upd_proc)
      have f2: "faulted ops pid 1 (st, pt) (?st2, pt1)"
        using faulted_trans[OF assms(2) f1 faulted_pure[where st' = ?st2 and st = st1 and pid = pid and ops = ops and pt = pt1]] p1
        by (simp add: get_upd_proc)
      have "case Some q of None \<Rightarrow> post = [] | Some p \<Rightarrow> \<exists>pre. xs = pre @ p # post" using q by auto
      from pf_advance_spec[OF assms(3) st2(1) this, where ops = ops and pt = pt1 and fl = fl]
      obtain go st3 p3 where adv: "pf_advance fl pid mm (Some q) ?st2 = Some (go, st3)"
        and f3: "faulted ops pid 0 (?st2, pt1) (st3, pt1)" and found3: "walk_found st3"
        and p3: "get_proc st3 pid = Some p3" "\<not> go \<longrightarrow> pf_vma p3 = None" "go \<longrightarrow> (\<exists>post'. at_area xs p3 post')"
        using st2(2) by (auto elim!: wpE)
      have f3': "faulted ops pid 1 (st, pt) (st3, pt1)"
        using faulted_trans[OF assms(2) f2 f3] by simp
      have ok3: "walker_ok xs pid st3"
        using found3 p3 by (cases go) (auto simp: walker_ok_def at_area_def)
      have ok2: "walker_ok xs pid ?st2"
        using st2 q by (simp add: walker_ok_def)
      have "pf_search_step ops walk cycles fl pid mm (ucast w) (st, pt) =
          (if next_addr ?p' \<ge> vm_end vma then Some (Some go, st3, pt1) else Some (Some True, ?st2, pt1))"
        using \<open>\<not> ucast (num_walks p) - ucast w > 2\<close> p q vma walk False p1 adv
        by (simp add: pf_search_step_def)
      then show ?thesis using f2 f3' ok2 ok3 by (cases "next_addr ?p' \<ge> vm_end vma") simp_all
    qed
  qed
qed

lemma pf_search_ok:
  assumes "walk_ok visits walk" "clears_present ops" "vma_list mm (mmap mm) xs"
  shows "get_proc st pid = Some p \<Longrightarrow> at_area xs p post \<Longrightarrow> walk_found st \<Longrightarrow>
    num_walks p = w + of_nat d \<Longrightarrow> d \<le> 3 \<Longrightarrow>
    wp (pf_search ops walk cycles fl pid mm (ucast w) (st, pt)) (\<lambda>(go, s').
      faulted ops pid 1 (st, pt) s' \<and> walker_ok xs pid (fst s'))"
proof (induction "(3 - d) * (length xs + 1) + length post" arbitrary: st pt p post d rule: less_induct)
  case less
  from pf_search_step_ok[OF assms less.prems, of cycles fl pt]
  obtain r st1 pt1 where step: "pf_search_step ops walk cycles fl pid mm (ucast w) (st, pt) = Some (r, st1, pt1)"
    and f: "faulted ops pid 1 (st, pt) (st1, pt1)" and fin: "r \<noteq> None \<longrightarrow> walker_ok xs pid st1"
    and more: "r = None \<longrightarrow> faulted ops pid 0 (st, pt) (st1, pt1) \<and> walk_found st1 \<and>
        (\<exists>p' post' d'. get_proc st1 pid = Some p' \<and> at_area xs p' post' \<and> num_walks p' = w + of_nat d' \<and>
           d' \<le> 3 \<and> (d' = d \<and> length post' < length post \<or> d' = Suc d))"
    unfolding wp_iff split_paired_Ex prod.case fst_conv by blast
  show ?case
  proof (cases r)
    case (Some go)
    with step f fin show ?thesis by (subst pf_search.simps) simp
  next
    case None
    with more obtain p' post' d' where f0: "faulted ops pid 0 (st, pt) (st1, pt1)" and n: "walk_found st1"
      "get_proc st1 pid = Some p'" "at_area xs p' post'" "num_walks p' = w + of_nat d'" "d' \<le> 3"
      and d': "d' = d \<and> length post' < length post \<or> d' = Suc d" by blast
    have len: "length post' < length xs + 1" using n(3) by (auto simp: at_area_def)
    have "(3 - d') * (length xs + 1) + length post' < (3 - d) * (length xs + 1) + length post"
    proof (cases "d' = d")
      case False
      with d' n(5) have "3 - d = Suc (3 - d')" by simp
      then show ?thesis using len by simp
    qed (use d' in simp)
    from less.hyps[OF this n(2) n(3) n(1) n(4) n(5), of pt1]
    obtain go s' where rec: "pf_search ops walk cycles fl pid mm (ucast w) (st1, pt1) = Some (go, s')"
      "faulted ops pid 1 (st1, pt1) s'" "walker_ok xs pid (fst s')"
      by (auto elim!: wpE)
    with faulted_trans[OF assms(2) f0 rec(2)] step None show ?thesis
      by (subst pf_search.simps) simp
  qed
qed

lemma pf_one_fault_ok:
  assumes "walk_ok visits walk" "clears_present ops" "vma_list mm (mmap mm) xs" "walker_ok xs pid (fst s)"
  shows "wp (pf_one_fault ops walk cycles active fl pid mm i s) (\<lambda>(go, s').
     faulted ops pid 1 s s' \<and> walker_ok xs pid (fst s'))"
proof -
  obtain st pt where s: "s = (st, pt)" by (cases s)
  from assms(4) s obtain p where p: "get_proc st pid = Some p" "walk_found st"
    and q: "\<And>q. pf_vma p = Some q \<Longrightarrow> q \<in> set xs"
    by (auto simp: walker_ok_def split: option.splits)
  have refl1: "faulted ops pid 1 (st, pt) (st, pt)" by (rule faulted_mono [OF faulted_refl]) simp
  consider (few) "active i < 4" | (new) "\<not> active i < 4" "pf_vma p = None"
    | (old) r where "\<not> active i < 4" "pf_vma p = Some r" by fastforce
  then show ?thesis
  proof cases
    case few
    with p refl1 assms(4) s show ?thesis by (simp add: pf_one_fault_def)
  next
    case new
    have "case None of None \<Rightarrow> ([] :: nat list) = [] | Some p \<Rightarrow> \<exists>pre. xs = pre @ p # []" by simp
    from pf_advance_spec[OF assms(3) p(1) this, where ops = ops and pt = pt and fl = fl]
    obtain go st2 p' where adv: "pf_advance fl pid mm None st = Some (go, st2)"
      and f: "faulted ops pid 0 (st, pt) (st2, pt)" and found: "walk_found st2"
      and p': "get_proc st2 pid = Some p'" "\<not> go \<longrightarrow> pf_vma p' = None"
        "go \<longrightarrow> (\<exists>post'. at_area xs p' post' \<and> num_walks p' = num_walks p + 1)"
      using p(2) by (auto elim!: wpE)
    have f1: "faulted ops pid 1 (st, pt) (st2, pt)" by (rule faulted_mono [OF f]) simp
    show ?thesis
    proof (cases go)
      case True
      with p' obtain post' where a: "at_area xs p' post'" "num_walks p' = num_walks p + of_nat 1" by auto
      from pf_search_ok[OF assms(1-3) p'(1) a(1) found a(2), of cycles fl pt]
      obtain go' s' where search: "pf_search ops walk cycles fl pid mm (ucast (num_walks p)) (st2, pt) = Some (go', s')"
        and f2: "faulted ops pid 1 (st2, pt) s'" and ok: "walker_ok xs pid (fst s')"
        by (auto elim!: wpE)
      from faulted_trans[OF assms(2) f f2] ok search adv new p True s show ?thesis
        by (simp add: pf_one_fault_def)
    next
      case False
      with adv new p p' found f1 s show ?thesis by (simp add: pf_one_fault_def walker_ok_def)
    qed
  next
    case old
    then obtain pre post where "xs = pre @ r # post" using q split_list by metis
    with old have a: "at_area xs p post" by (auto simp: at_area_def)
    have "num_walks p = num_walks p + of_nat 0" by simp
    from pf_search_ok[OF assms(1-3) p(1) a p(2) this, of cycles fl pt]
    obtain go' s' where "pf_search ops walk cycles fl pid mm (ucast (num_walks p)) (st, pt) = Some (go', s')"
        "faulted ops pid 1 (st, pt) s'" "walker_ok xs pid (fst s')"
      by (auto elim!: wpE)
    with old p s show ?thesis by (simp add: pf_one_fault_def)
  qed
qed

lemma pf_loop_ok:
  assumes "walk_ok visits walk" "clears_present ops" "vma_list mm (mmap mm) xs"
  shows "walker_ok xs pid (fst s) \<Longrightarrow>
    wp (loopM (pf_one_fault ops walk cycles active fl pid mm) ks s) (\<lambda>(go, s').
      faulted ops pid (length ks) s s' \<and> walker_ok xs pid (fst s'))"
proof (induction ks arbitrary: s)
  case Nil
  then show ?case by (simp add: faulted_refl)
next
  case (Cons k ks)
  from pf_one_fault_ok[OF assms Cons.prems, of cycles active fl k]
  obtain go s1 where one: "pf_one_fault ops walk cycles active fl pid mm k s = Some (go, s1)"
    and f1: "faulted ops pid 1 s s1" and ok1: "walker_ok xs pid (fst s1)"
    by (auto elim!: wpE)
  show ?case
  proof (cases go)
    case True
    from Cons.IH[OF ok1] obtain go' s2
      where "loopM (pf_one_fault ops walk cycles active fl pid mm) ks s1 = Some (go', s2)"
        "faulted ops pid (length ks) s1 s2" "walker_ok xs pid (fst s2)"
      by (auto elim!: wpE)
    with faulted_trans[OF assms(2) f1 this(2)] one True show ?thesis by simp
  next
    case False
    have "faulted ops pid (length (k # ks)) s s1" by (rule faulted_mono [OF f1]) simp
    with False one ok1 show ?thesis by simp
  qed
qed

lemma pf_pagewalk_ok:
  assumes "walk_ok visits walk" "clears_present ops" "vma_list mm (mmap mm) xs" "walker_ok xs pid (fst s)"
  shows "wp (pf_pagewalk ops walk cycles active cfg fl pid (Some mm) s) (\<lambda>s'.
     faulted ops pid (nat (spcd_num_faults cfg)) s s' \<and> walker_ok xs pid (fst s'))"
  using pf_loop_ok[OF assms, of cycles active fl "[0..<nat (spcd_num_faults cfg)]"]
  by (auto simp: pf_pagewalk_def elim!: wpE)

text \<open>The set of pages that a walk made to fault, read off the page tables.\<close>

lemma pages_cleared_changed:
  assumes "clears_present ops" "pages_cleared ops pt pt' A"
  shows "A = {a. pt' a \<noteq> pt a}"
  using assms by (auto simp: pages_cleared_def clears_present_def) metis

lemma faulted_changed:
  assumes "clears_present ops" "faulted ops pid n (st, pt) (st', pt')"
  shows "card {a. pt' a \<noteq> pt a} \<le> n"
    "spcd_pf_extra st' = spcd_pf_extra st + of_nat (card {a. pt' a \<noteq> pt a})"
    "pt' a \<noteq> pt a \<Longrightarrow> pte_present ops (pt a) \<and> pt' a = pte_clear_present ops (pt a)"
proof -
  from assms(2) obtain A where A: "pages_cleared ops pt pt' A" "card A \<le> n"
    "spcd_pf_extra st' = spcd_pf_extra st + of_nat (card A)"
    by (auto simp: faulted_def)
  note eq = pages_cleared_changed[OF assms(1) A(1)]
  show "card {a. pt' a \<noteq> pt a} \<le> n" using A(2) unfolding eq .
  show "spcd_pf_extra st' = spcd_pf_extra st + of_nat (card {a. pt' a \<noteq> pt a})" using A(3) unfolding eq .
  show "pt' a \<noteq> pt a \<Longrightarrow> pte_present ops (pt a) \<and> pt' a = pte_clear_present ops (pt a)"
    using A(1) by (auto simp: pages_cleared_def split: if_splits)
qed

text \<open>A small process: two areas of one page each, the second shared, and a walk that visits the first
  page of the range.\<close>

definition bit_ops :: pte_ops where
  "bit_ops = \<lparr>pte_none = (\<lambda>x. x = 0), pte_present = (\<lambda>x. bit x 0), pte_clear_present = unset_bit 0,
     pte_set_present = set_bit 0, pte_pfn = drop_bit 12\<rparr>"

definition first_page :: "u64 \<Rightarrow> u64 \<Rightarrow> u64 list" where
  "first_page a e = (if a < e then [a] else [])"

definition walk_first :: walk_fun where
  "walk_first cb a e = visit_loop cb (first_page a e)"

definition two_areas :: mm_struct where
  "two_areas = \<lparr>pgd = 0, mmap = Some 2, vmas = [2 \<mapsto> \<lparr>vm_start = 4096, vm_end = 8192, vm_flags = 0, vm_next = Some 3\<rparr>,
     3 \<mapsto> \<lparr>vm_start = 12288, vm_end = 16384, vm_flags = 8, vm_next = None\<rparr>]\<rparr>"

definition fresh_pf :: pf_state where
  "fresh_pf = \<lparr>proc = Some (replicate 4 zero_proc), spcd_pf_extra = 0, walk_found = True, cycles_read = 0\<rparr>"

definition faults_cfg :: config where
  "faults_cfg = \<lparr>max_threads = 4, max_threads_bits = 2, spcd_shift = 12, spcd_mem_hash_bits = 4,
     spcd_num_faults = 3, do_pf = True, do_map = False\<rparr>"

lemma two_areas_list: "vma_list two_areas (mmap two_areas) [2, 3]"
  unfolding two_areas_def by simp

lemma small_walk:
  "walk_ok first_page walk_first" "clears_present bit_ops" "walker_ok [2, 3] 0 fresh_pf"
  by (simp_all add: walk_ok_def walk_first_def clears_present_def bit_ops_def bit_unset_bit_iff
      walker_ok_def get_proc_def fresh_pf_def zero_proc_def)

lemma VM_SHARED_values [simp]: "is_shared \<lparr>vm_start = a, vm_end = b, vm_flags = 0, vm_next = n\<rparr> = 0"
    "is_shared \<lparr>vm_start = a, vm_end = b, vm_flags = 8, vm_next = n\<rparr> = 1"
  by (simp_all add: is_shared_def VM_SHARED_def)

section \<open>Properties\<close>

text \<open>
  The next memory area. On a list of areas \<open>xs\<close> in which \<open>prev\<close>, when it is not NULL, is followed by
  \<open>post\<close>, the loop of \<open>find_next_vma\<close> ends. It finds the first wanted area of \<open>post\<close>, and otherwise starts
  at the head of the list again, where it finds the first wanted area and counts one more walk; when no
  area is wanted it gives up after two starts and returns NULL.
\<close>
lemma find_next_vma_spec:
  assumes "vma_list mm (mmap mm) xs"
    and "case prev of None \<Rightarrow> post = [] | Some p \<Rightarrow> \<exists>pre. xs = pre @ p # post"
  shows "find_vma_loop fl mm prev 0 w = Some
    (case find (wanted fl mm) post of
       Some q \<Rightarrow> (Some q, w)
     | None \<Rightarrow> (case find (wanted fl mm) xs of Some q \<Rightarrow> (Some q, w + 1) | None \<Rightarrow> (None, w + 2)))"
  using find_vma_loop_spec[OF assms, of fl w] by (auto simp: next_wanted_def split: option.splits)

lemma find_next_vma_spec_example:
  "find_vma_loop 1 two_areas (Some 3) 0 5 = Some (Some 3, 6)"
proof -
  have prev: "case Some 3 of None \<Rightarrow> ([] :: nat list) = [] | Some p \<Rightarrow> \<exists>pre. [2, 3 :: nat] = pre @ p # []"
    by (auto intro!: exI[of _ "[2]"])
  show ?thesis
    using find_next_vma_spec[OF two_areas_list prev, of 1 5] by (simp add: wanted_def two_areas_def)
qed

text \<open>
  C15: the walk for extra faults ends and does what it counts. With a present \<open>walk_page_range\<close>, a NULL
  terminated list of areas and a saved area, if any, that is still in it, \<open>pf_pagewalk\<close> returns, also when
  \<open>num_walks\<close> wraps around. It makes at most \<open>spcd_num_faults\<close> pages fault; every page table entry it
  changed was present and has lost the present bit only; \<open>spcd_pf_extra\<close> grows by the number of changed
  entries; and the next walk finds the same condition again.
\<close>
theorem pagewalk_spec:
  assumes "walk_ok visits walk" "clears_present ops" "vma_list mm (mmap mm) xs" "walker_ok xs pid st"
  shows "\<exists>st' pt'. pf_pagewalk ops walk cycles active cfg fl pid (Some mm) (st, pt) = Some (st', pt') \<and>
    walker_ok xs pid st' \<and>
    card {a. pt' a \<noteq> pt a} \<le> nat (spcd_num_faults cfg) \<and>
    spcd_pf_extra st' = spcd_pf_extra st + of_nat (card {a. pt' a \<noteq> pt a}) \<and>
    (\<forall>a. pt' a \<noteq> pt a \<longrightarrow> pte_present ops (pt a) \<and> pt' a = pte_clear_present ops (pt a))"
proof -
  have "walker_ok xs pid (fst (st, pt))" using assms(4) by simp
  from pf_pagewalk_ok[OF assms(1-3) this, of cycles active cfg fl]
  obtain st' pt' where run: "pf_pagewalk ops walk cycles active cfg fl pid (Some mm) (st, pt) = Some (st', pt')"
    and f: "faulted ops pid (nat (spcd_num_faults cfg)) (st, pt) (st', pt')" and ok: "walker_ok xs pid st'"
    by (auto elim!: wpE)
  then show ?thesis using faulted_changed[OF assms(2) f] by blast
qed

theorem pagewalk_spec_witness:
  "\<exists>st' pt'. pf_pagewalk bit_ops walk_first (\<lambda>_. 0) (\<lambda>_. 4) faults_cfg 0 0 (Some two_areas) (fresh_pf, \<lambda>_. 3) = Some (st', pt') \<and>
    walker_ok [2, 3] 0 st' \<and> card {a. pt' a \<noteq> 3} \<le> 3"
  using pagewalk_spec[OF small_walk(1,2) two_areas_list small_walk(3), of "\<lambda>_. 0" "\<lambda>_. 4" faults_cfg 0 "\<lambda>_. 3"]
  by (auto simp: faults_cfg_def)

text \<open>
  C39: the saved area can dangle. \<open>proc[pid].vma\<close> survives the release of \<open>mmap_sem\<close>; when the process
  has unmapped that area before the next round, the walk follows the stale pointer: with four active
  threads and at least one extra fault per round, the model has no result.
\<close>
theorem pagewalk_dangling:
  assumes "get_proc st pid = Some p" "pf_vma p = Some q" "vmas mm q = None"
    and "4 \<le> active 0" "0 < spcd_num_faults cfg"
  shows "pf_pagewalk ops walk cycles active cfg fl pid (Some mm) (st, pt) = None"
proof -
  have "pf_search_step ops walk cycles fl pid mm (ucast (num_walks p)) (st, pt) = None"
    using assms(1-3) by (simp add: pf_search_step_def)
  then have "pf_search ops walk cycles fl pid mm (ucast (num_walks p)) (st, pt) = None"
    by (subst pf_search.simps) simp
  then have one: "pf_one_fault ops walk cycles active fl pid mm 0 (st, pt) = None"
    using assms by (simp add: pf_one_fault_def)
  have "[0..<nat (spcd_num_faults cfg)] = 0 # [1..<nat (spcd_num_faults cfg)]"
    using assms(5) by (simp add: upt_conv_Cons)
  with one show ?thesis by (simp add: pf_pagewalk_def)
qed

theorem pagewalk_dangling_witness:
  "pf_pagewalk bit_ops walk_first (\<lambda>_. 0) (\<lambda>_. 4) faults_cfg 0 0 (Some two_areas)
     (upd_proc fresh_pf 0 \<lparr>pf_vma = Some 4, next_addr = 0, num_walks = 0\<rparr>, \<lambda>_. 3) = None"
  by (rule pagewalk_dangling[where q = 4 and p = "\<lparr>pf_vma = Some 4, next_addr = 0, num_walks = 0\<rparr>"])
    (simp_all add: get_proc_def upd_proc_def fresh_pf_def two_areas_def faults_cfg_def)

definition served :: "pf_state \<Rightarrow> nat \<Rightarrow> pf_state \<times> (nat \<Rightarrow> page_table) \<Rightarrow> bool" where
  "served st i s \<longleftrightarrow> walk_found (fst s) = walk_found st \<and> (\<forall>k \<ge> int i. get_proc (fst s) k = get_proc st k)"

lemma serve_tid_ok:
  assumes walk: "walk_ok visits walk" "clears_present ops" and pid: "spcd_get_pid (int i) pids = Some pid"
    and areas: "\<forall>mm. task_mm pid = Some (Some mm) \<longrightarrow> (\<exists>xs. vma_list mm (mmap mm) xs \<and> walker_ok xs (int i) st)"
    and s: "served st i s"
  shows "wp (serve_tid ops walk cycles task_mm cfg fl pids i s) (served st (Suc i))"
proof -
  obtain st1 pts1 where st1: "s = (st1, pts1)" by (cases s)
  have I: "walk_found st1 = walk_found st" "\<forall>k \<ge> int i. get_proc st1 k = get_proc st k" using s st1 by (simp_all add: served_def)
  show ?thesis
  proof (cases "\<exists>mm. task_mm pid = Some (Some mm)")
    case True
    then obtain mm xs where mm: "task_mm pid = Some (Some mm)" and xs: "vma_list mm (mmap mm) xs" "walker_ok xs (int i) st"
      using areas by blast
    then have "walker_ok xs (int i) (fst (st1, pts1 (pgd mm)))" using I by (simp add: walker_ok_def)
    from pf_pagewalk_ok[OF walk xs(1) this, of cycles "\<lambda>_. spcd_get_active_threads pids" cfg fl]
    obtain st2 pt2 where "pf_pagewalk ops walk cycles (\<lambda>_. spcd_get_active_threads pids) cfg fl (int i) (Some mm)
         (st1, pts1 (pgd mm)) = Some (st2, pt2)"
      "faulted ops (int i) (nat (spcd_num_faults cfg)) (st1, pts1 (pgd mm)) (st2, pt2)" "walker_ok xs (int i) st2"
      by (auto elim!: wpE)
    then show ?thesis using I st1 pid mm xs(2) by (auto simp: serve_tid_def served_def faulted_def walker_ok_def)
  next
    case False
    then have "task_mm pid = None \<or> task_mm pid = Some None" by (cases "task_mm pid") auto
    then show ?thesis using I st1 pid by (auto simp: serve_tid_def served_def)
  qed
qed

text \<open>
  One round serves the lowest tids. When every numbered thread's task is gone or has memory in order,
  a round of \<open>spcd_pagefault_func\<close> returns, and it leaves the saved position of every tid from the number
  of active threads on as it was: after an exit, live threads with high tids are never made to fault. With
  fewer than four active threads it does nothing.
\<close>
lemma pagefault_round_spec:
  assumes "walk_ok visits walk" "clears_present ops"
    and "spcd_get_active_threads pids \<le> int (length (spcd_pid_reverse pids))"
    and "\<forall>i < nat (spcd_get_active_threads pids). \<forall>pid mm. spcd_get_pid (int i) pids = Some pid \<longrightarrow>
      task_mm pid = Some (Some mm) \<longrightarrow> (\<exists>xs. vma_list mm (mmap mm) xs \<and> walker_ok xs (int i) st)"
  shows "\<exists>st' pts'. spcd_pagefault_round ops walk cycles task_mm cfg fl pids (st, pts) = Some (st', pts') \<and>
    (spcd_get_active_threads pids < 4 \<longrightarrow> st' = st \<and> pts' = pts) \<and>
    (\<forall>k \<ge> spcd_get_active_threads pids. get_proc st' k = get_proc st k)"
proof (cases "spcd_get_active_threads pids < 4")
  case True
  then show ?thesis by (simp add: spcd_pagefault_round_def)
next
  case False
  define n where "n = nat (spcd_get_active_threads pids)"
  have "wp (foldM (serve_tid ops walk cycles task_mm cfg fl pids) [0..<n] (st, pts)) (served st n)"
  proof (rule wp_for0 [where I = "served st"])
    fix i s assume i: "i < n" and s: "served st i s"
    obtain pid where pid: "spcd_get_pid (int i) pids = Some pid" using i assms(3) by (simp add: spcd_get_pid_def n_def)
    show "wp (serve_tid ops walk cycles task_mm cfg fl pids i s) (served st (Suc i))"
      by (rule serve_tid_ok[OF assms(1,2) pid _ s]) (use assms(4) i pid in \<open>auto simp: n_def\<close>)
  qed (simp add: served_def)
  then show ?thesis using False by (auto simp: wp_iff n_def served_def spcd_pagefault_round_def)
qed

lemma pagefault_round_spec_example:
  "\<exists>st' pts'. spcd_pagefault_round bit_ops walk_first (\<lambda>_. 0) (\<lambda>_. Some None) faults_cfg 0
      (pid_boot\<lparr>spcd_active_threads := 5\<rparr>) (fresh_pf, \<lambda>_ _. 0) = Some (st', pts')"
  using pagefault_round_spec[OF small_walk(1,2), of "pid_boot\<lparr>spcd_active_threads := 5\<rparr>" "\<lambda>_. Some None" fresh_pf
      "\<lambda>_. 0" faults_cfg 0 "\<lambda>_ _. 0"]
  by (auto simp: pid_boot_def spcd_get_active_threads_def)

end
