(* ===== verification/Cdsm_Zap.thy ===== *)
theory Cdsm_Zap
  imports Cdsm_Pagefault
begin

text \<open>
  Present bits and unmapping, from \<open>src/probes.c\<close>: \<open>fix_pte\<close>, which gives a page back the present bit
  that an extra fault took, and the walk of \<open>unmap_page_range_handler\<close> over the four levels of the page
  table, which does it for every page of a range before the kernel unmaps it.

  The walk identifies an entry of a level by the first address it is responsible for; incrementing the
  entry pointer and advancing the address go together in the code. The directory operations of the
  kernel are arguments: \<open>pgd_addr_end\<close> and the others give the end of the part of the range that the
  directory entry covers, \<open>pgd_none\<close> and the others say that there is nothing below it.
\<close>

section \<open>The code\<close>

definition fix_pte_empty :: "u64 \<times> u64 \<Rightarrow> u64 \<times> u64" where
  "fix_pte_empty s = s"

text \<open>The entry and \<open>spcd_pte_fixes\<close>.\<close>

definition fix_pte_real :: "pte_ops \<Rightarrow> u64 \<times> u64 \<Rightarrow> u64 \<times> u64" where
  "fix_pte_real ops s = (case s of (pte, fixes) \<Rightarrow>
     if \<not> pte_present ops pte \<and> \<not> pte_none ops pte then (pte_set_present ops pte, fixes + 1) else (pte, fixes))"

text \<open>The function pointer \<open>fix_pte\<close>: \<open>real\<close> says which of the two it holds.\<close>

definition fix_pte :: "pte_ops \<Rightarrow> bool \<Rightarrow> u64 \<times> u64 \<Rightarrow> u64 \<times> u64" where
  "fix_pte ops real = (if real then fix_pte_real ops else fix_pte_empty)"

record dir_ops =
  pmd_addr_end :: "u64 \<Rightarrow> u64 \<Rightarrow> u64"
  pud_addr_end :: "u64 \<Rightarrow> u64 \<Rightarrow> u64"
  pgd_addr_end :: "u64 \<Rightarrow> u64 \<Rightarrow> u64"
  pmd_none :: "u64 \<Rightarrow> bool"
  pud_none :: "u64 \<Rightarrow> bool"
  pgd_none :: "u64 \<Rightarrow> bool"

type_synonym zap_state = "page_table \<times> u64"

text \<open>
  The loop of all four functions, \<open>do body; while (addr = next, addr != end)\<close>; it need not end. The body
  yields the next address.
\<close>

partial_function (option) zap_loop ::
  "(u64 \<Rightarrow> zap_state \<Rightarrow> (u64 \<times> zap_state) option) \<Rightarrow> u64 \<Rightarrow> u64 \<Rightarrow> zap_state \<Rightarrow> (u64 \<times> zap_state) option" where
  "zap_loop body addr stop s =
     Option.bind (body addr s) (\<lambda>(addr, s). if addr = stop then Some (addr, s) else zap_loop body addr stop s)"

definition zap_pte_range :: "pte_ops \<Rightarrow> bool \<Rightarrow> u64 \<Rightarrow> u64 \<Rightarrow> zap_state \<Rightarrow> (u64 \<times> zap_state) option" where
  "zap_pte_range ops real addr stop = zap_loop (\<lambda>addr (pt, fixes).
     case fix_pte ops real (pt addr, fixes) of (pte, fixes) \<Rightarrow> Some (addr + PAGE_SIZE, pt(addr := pte), fixes)) addr stop"

definition zap_pmd_range :: "pte_ops \<Rightarrow> dir_ops \<Rightarrow> bool \<Rightarrow> u64 \<Rightarrow> u64 \<Rightarrow> zap_state \<Rightarrow> (u64 \<times> zap_state) option" where
  "zap_pmd_range ops dir real addr stop = zap_loop (\<lambda>addr s.
     let next = pmd_addr_end dir addr stop in
     if pmd_none dir addr then Some (next, s) else zap_pte_range ops real addr next s) addr stop"

definition zap_pud_range :: "pte_ops \<Rightarrow> dir_ops \<Rightarrow> bool \<Rightarrow> u64 \<Rightarrow> u64 \<Rightarrow> zap_state \<Rightarrow> (u64 \<times> zap_state) option" where
  "zap_pud_range ops dir real addr stop = zap_loop (\<lambda>addr s.
     let next = pud_addr_end dir addr stop in
     if pud_none dir addr then Some (next, s) else zap_pmd_range ops dir real addr next s) addr stop"

text \<open>Only programs whose name ends with \<open>.x\<close> are accepted. The name is the bytes before the terminator.\<close>

definition check_name :: "string \<Rightarrow> bool option" where
  "check_name name = do {
     let len = int (length name);
     c \<leftarrow> agetz name (len - 2);
     if c = CHR ''.'' then do { d \<leftarrow> agetz name (len - 1); Some (d = CHR ''x'') } else Some False
   }"

text \<open>\<open>jprobe_return\<close> does not come back, so a process with another name is left alone.\<close>

definition unmap_page_range_handler ::
  "pte_ops \<Rightarrow> dir_ops \<Rightarrow> bool \<Rightarrow> string \<Rightarrow> u64 \<Rightarrow> u64 \<Rightarrow> zap_state \<Rightarrow> zap_state option" where
  "unmap_page_range_handler ops dir real comm addr stop s = do {
     named \<leftarrow> check_name comm;
     if \<not> named then Some s
     else map_option snd (zap_loop (\<lambda>addr s.
       let next = pgd_addr_end dir addr stop in
       if pgd_none dir addr then Some (next, s) else zap_pud_range ops dir real addr next s) addr stop s)
   }"

text \<open>\<open>page_mapped\<close> is the kernel's; the state is the page's \<open>_mapcount\<close>.\<close>

definition del_page_handler :: "(int \<Rightarrow> bool) \<Rightarrow> int \<Rightarrow> int" where
  "del_page_handler page_mapped mapcount = (if page_mapped mapcount then -1 else mapcount)"

section \<open>Fixing a set of pages\<close>

definition hidden :: "pte_ops \<Rightarrow> u64 \<Rightarrow> bool" where
  "hidden ops pte \<longleftrightarrow> \<not> pte_present ops pte \<and> \<not> pte_none ops pte"

definition fix_pages :: "pte_ops \<Rightarrow> bool \<Rightarrow> u64 set \<Rightarrow> zap_state \<Rightarrow> zap_state" where
  "fix_pages ops real A s = (case s of (pt, fixes) \<Rightarrow>
     (\<lambda>a. if real \<and> a \<in> A \<and> hidden ops (pt a) then pte_set_present ops (pt a) else pt a,
      fixes + of_nat (if real then card {a \<in> A. hidden ops (pt a)} else 0)))"

lemma fix_pages_empty [simp]: "fix_pages ops real {} s = s"
  by (cases s) (simp add: fix_pages_def)

lemma fix_pages_Un:
  assumes "A \<inter> B = {}"
  shows "fix_pages ops real B (fix_pages ops real A s) = fix_pages ops real (A \<union> B) s"
proof -
  obtain pt f where s: "s = (pt, f)" by (cases s)
  let ?H = "\<lambda>C pt. {a \<in> C. hidden ops (pt a)}"
  let ?pt = "\<lambda>a. if real \<and> a \<in> A \<and> hidden ops (pt a) then pte_set_present ops (pt a) else pt a"
  have "\<And>a. a \<in> B \<Longrightarrow> a \<notin> A" using assms by blast
  note disj = this
  then have same: "?H B ?pt = ?H B pt" and pts: "\<And>a. a \<in> B \<Longrightarrow> ?pt a = pt a"
    by auto
  have "?H (A \<union> B) pt = ?H A pt \<union> ?H B pt" by blast
  then have "card (?H (A \<union> B) pt) = card (?H A pt) + card (?H B pt)"
    using assms by (simp only:) (rule card_Un_disjoint, auto)
  then show ?thesis
    unfolding s fix_pages_def prod.case same using pts disj by (auto simp: fun_eq_iff)
qed

lemma fix_pte_page:
  "(case fix_pte ops real (pt addr, fixes) of (pte, fixes) \<Rightarrow> Some (n, pt(addr := pte), fixes)) =
   Some (n, fix_pages ops real {addr} (pt, fixes))"
proof -
  have "{a. a = addr \<and> hidden ops (pt a)} = (if hidden ops (pt addr) then {addr} else {})" by auto
  then show ?thesis
    by (auto simp: fix_pte_def fix_pte_real_def fix_pte_empty_def fix_pages_def hidden_def fun_eq_iff)
qed

section \<open>Ranges of pages\<close>

definition page_aligned :: "u64 \<Rightarrow> bool" where
  "page_aligned a \<longleftrightarrow> unat a mod 4096 = 0"

definition pages :: "(u64 \<Rightarrow> bool) \<Rightarrow> u64 \<Rightarrow> u64 \<Rightarrow> u64 set" where
  "pages P a e = {x. page_aligned x \<and> a \<le> x \<and> x < e \<and> P x}"

text \<open>What the code relies on from the kernel's macros, and from directories: one entry, one answer.\<close>

definition addr_end_ok :: "(u64 \<Rightarrow> u64 \<Rightarrow> u64) \<Rightarrow> (u64 \<Rightarrow> bool) \<Rightarrow> bool" where
  "addr_end_ok addr_end none \<longleftrightarrow> (\<forall>a e. page_aligned a \<longrightarrow> page_aligned e \<longrightarrow> a < e \<longrightarrow>
     a < addr_end a e \<and> addr_end a e \<le> e \<and> page_aligned (addr_end a e) \<and>
     (\<forall>x. a \<le> x \<longrightarrow> x < addr_end a e \<longrightarrow> none x = none a))"

definition dir_ok :: "dir_ops \<Rightarrow> bool" where
  "dir_ok dir \<longleftrightarrow> addr_end_ok (pmd_addr_end dir) (pmd_none dir) \<and>
     addr_end_ok (pud_addr_end dir) (pud_none dir) \<and> addr_end_ok (pgd_addr_end dir) (pgd_none dir)"

lemma pages_split:
  assumes "a \<le> n" "n \<le> e"
  shows "pages P a e = pages P a n \<union> pages P n e" "pages P a n \<inter> pages P n e = {}"
  using assms by (auto simp: pages_def)

lemma page_alignedE: "page_aligned a \<Longrightarrow> \<exists>i. unat a = 4096 * i"
  unfolding page_aligned_def mod_eq_0_iff_dvd by (auto elim: dvdE)

lemma unat_PAGE_SIZE [simp]: "unat PAGE_SIZE = 4096"
  by (simp add: PAGE_SIZE_def PAGE_SHIFT_def)

lemma unat_next_page:
  assumes "page_aligned a" "page_aligned e" "a < e"
  shows "unat (a + PAGE_SIZE) = unat a + 4096" "unat a + 4096 \<le> unat e"
proof -
  have lt: "unat a < unat e" using assms(3) by (simp only: word_less_nat_alt)
  obtain i j where i: "unat a = 4096 * i" and j: "unat e = 4096 * j"
    using page_alignedE assms(1,2) by metis
  from lt i j have "Suc i \<le> j" by simp
  then have "4096 * Suc i \<le> 4096 * j" by (rule mult_le_mono2)
  then show le: "unat a + 4096 \<le> unat e" using i j by simp
  have "unat e < 2 ^ 64" using unsigned_less[of e] by simp
  with le have "unat a + unat PAGE_SIZE < 2 ^ 64" by simp
  then show "unat (a + PAGE_SIZE) = unat a + 4096"
    by (simp only: unat_word_ariths(1) unat_PAGE_SIZE len_of_numeral_defs) simp
qed

lemma same_page:
  assumes "page_aligned a" "page_aligned x" "unat a \<le> unat x" "unat x < unat a + 4096"
  shows "x = a"
proof -
  obtain i k where "unat a = 4096 * i" "unat x = 4096 * k"
    using page_alignedE assms(1,2) by metis
  with assms(3,4) have "unat x = unat a" by simp
  then show ?thesis by (simp only: word_unat_eq_iff)
qed

lemma next_page:
  assumes "page_aligned a" "page_aligned e" "a < e"
  shows "a < a + PAGE_SIZE" "a + PAGE_SIZE \<le> e"
    "page_aligned (a + PAGE_SIZE)" "pages (\<lambda>_. True) a (a + PAGE_SIZE) = {a}"
proof -
  note u = unat_next_page[OF assms]
  show lt: "a < a + PAGE_SIZE" by (simp only: word_less_nat_alt u(1))
  show "a + PAGE_SIZE \<le> e" using u by (simp only: word_le_nat_alt)
  show "page_aligned (a + PAGE_SIZE)" using assms(1) by (simp add: u(1) page_aligned_def)
  have "x = a" if "page_aligned x" "a \<le> x" "x < a + PAGE_SIZE" for x
    by (rule same_page[OF assms(1) that(1)]) (use that(2,3) u(1) in \<open>simp_all only: word_less_nat_alt word_le_nat_alt\<close>)
  with lt assms(1) show "pages (\<lambda>_. True) a (a + PAGE_SIZE) = {a}"
    by (auto simp: pages_def)
qed

text \<open>A loop whose body fixes the pages up to its next address fixes the pages of the whole range.\<close>

lemma zap_loop_pages:
  assumes "\<And>a s. page_aligned a \<Longrightarrow> a < e \<Longrightarrow>
      \<exists>n. body a s = Some (n, fix_pages ops real (pages P a n) s) \<and> a < n \<and> n \<le> e \<and> page_aligned n"
  shows "page_aligned a \<Longrightarrow> a < e \<Longrightarrow> zap_loop body a e s = Some (e, fix_pages ops real (pages P a e) s)"
proof (induction "unat e - unat a" arbitrary: a s rule: less_induct)
  case less
  from assms[OF less.prems] obtain n where n: "body a s = Some (n, fix_pages ops real (pages P a n) s)"
    "a < n" "n \<le> e" "page_aligned n" by blast
  show ?case
  proof (cases "n = e")
    case True
    with n show ?thesis by (subst zap_loop.simps) simp
  next
    case False
    with n have "n < e" by simp
    then have "unat e - unat n < unat e - unat a"
      using n(2) by (simp add: word_less_nat_alt)
    from less.hyps[OF this n(4) \<open>n < e\<close>] n(1) False
    have "zap_loop body a e s = Some (e, fix_pages ops real (pages P n e) (fix_pages ops real (pages P a n) s))"
      by (subst zap_loop.simps) simp
    then show ?thesis
      using pages_split[of a n e P] n(2,3) by (simp add: fix_pages_Un)
  qed
qed

text \<open>One level of the walk over another.\<close>

lemma zap_level:
  assumes ok: "addr_end_ok addr_end none" and e: "page_aligned e"
    and inner: "\<And>a n s. page_aligned a \<Longrightarrow> page_aligned n \<Longrightarrow> a < n \<Longrightarrow>
      inner a n s = Some (n, fix_pages ops real (pages P a n) s)"
    and a: "page_aligned a" "a < e"
  shows "zap_loop (\<lambda>addr s. let next = addr_end addr e in if none addr then Some (next, s) else inner addr next s) a e s =
    Some (e, fix_pages ops real (pages (\<lambda>x. \<not> none x \<and> P x) a e) s)"
proof (rule zap_loop_pages[OF _ a])
  fix a s assume a: "page_aligned a" "a < e"
  let ?n = "addr_end a e"
  have n: "a < ?n" "?n \<le> e" "page_aligned ?n" and same: "\<And>x. a \<le> x \<Longrightarrow> x < ?n \<Longrightarrow> none x = none a"
    using ok a e unfolding addr_end_ok_def by blast+
  have "pages (\<lambda>x. \<not> none x \<and> P x) a ?n = (if none a then {} else pages P a ?n)"
    using same by (auto simp: pages_def)
  then show "\<exists>n. (let next = ?n in if none a then Some (next, s) else inner a next s) =
      Some (n, fix_pages ops real (pages (\<lambda>x. \<not> none x \<and> P x) a n) s) \<and> a < n \<and> n \<le> e \<and> page_aligned n"
    using inner[OF a(1) n(3,1)] n by (intro exI[of _ ?n]) simp
qed

lemma zap_pte_range_pages:
  assumes "page_aligned a" "page_aligned e" "a < e"
  shows "zap_pte_range ops real a e s = Some (e, fix_pages ops real (pages (\<lambda>_. True) a e) s)"
  unfolding zap_pte_range_def
proof (rule zap_loop_pages[OF _ assms(1,3)])
  fix a :: u64 and s :: zap_state assume a: "page_aligned a" "a < e"
  obtain pt f where s: "s = (pt, f)" by (cases s)
  show "\<exists>n. (case s of (pt, fixes) \<Rightarrow> case fix_pte ops real (pt a, fixes) of
        (pte, fixes) \<Rightarrow> Some (a + PAGE_SIZE, pt(a := pte), fixes)) =
      Some (n, fix_pages ops real (pages (\<lambda>_. True) a n) s) \<and> a < n \<and> n \<le> e \<and> page_aligned n"
    using next_page[OF a(1) assms(2) a(2)] unfolding s prod.case fix_pte_page
    by (intro exI[of _ "a + PAGE_SIZE"]) simp
qed

lemma zap_pmd_range_pages:
  assumes "dir_ok dir" "page_aligned a" "page_aligned e" "a < e"
  shows "zap_pmd_range ops dir real a e s =
    Some (e, fix_pages ops real (pages (\<lambda>x. \<not> pmd_none dir x) a e) s)"
  using zap_level[where addr_end = "pmd_addr_end dir" and none = "pmd_none dir" and e = e and a = a and s = s
      and inner = "zap_pte_range ops real" and ops = ops and real = real and P = "\<lambda>_. True"] assms
  by (simp add: zap_pmd_range_def dir_ok_def zap_pte_range_pages)

lemma zap_pud_range_pages:
  assumes "dir_ok dir" "page_aligned a" "page_aligned e" "a < e"
  shows "zap_pud_range ops dir real a e s =
    Some (e, fix_pages ops real (pages (\<lambda>x. \<not> pud_none dir x \<and> \<not> pmd_none dir x) a e) s)"
  using zap_level[where addr_end = "pud_addr_end dir" and none = "pud_none dir" and e = e and a = a and s = s
      and inner = "zap_pmd_range ops dir real" and ops = ops and real = real and P = "\<lambda>x. \<not> pmd_none dir x"]
    assms zap_pmd_range_pages[OF assms(1)]
  by (simp add: zap_pud_range_def dir_ok_def)

definition reachable_page :: "dir_ops \<Rightarrow> u64 \<Rightarrow> u64 \<Rightarrow> u64 \<Rightarrow> bool" where
  "reachable_page dir a e x \<longleftrightarrow> page_aligned x \<and> a \<le> x \<and> x < e \<and>
     \<not> pgd_none dir x \<and> \<not> pud_none dir x \<and> \<not> pmd_none dir x"

lemma unmap_handler_pages:
  assumes "dir_ok dir" "page_aligned a" "page_aligned e" "a < e" "check_name comm = Some True"
  shows "unmap_page_range_handler ops dir real comm a e s = Some (fix_pages ops real {x. reachable_page dir a e x} s)"
proof -
  have "zap_loop (\<lambda>addr s. let next = pgd_addr_end dir addr e in
       if pgd_none dir addr then Some (next, s) else zap_pud_range ops dir real addr next s) a e s =
     Some (e, fix_pages ops real (pages (\<lambda>x. \<not> pgd_none dir x \<and> \<not> pud_none dir x \<and> \<not> pmd_none dir x) a e) s)"
    by (rule zap_level) (use assms zap_pud_range_pages[OF assms(1)] in \<open>auto simp: dir_ok_def\<close>)
  moreover have "pages (\<lambda>x. \<not> pgd_none dir x \<and> \<not> pud_none dir x \<and> \<not> pmd_none dir x \<and> True) a e =
      {x. reachable_page dir a e x}"
    by (simp add: pages_def reachable_page_def)
  ultimately show ?thesis using assms(5) by (simp add: unmap_page_range_handler_def)
qed

lemma check_name_eq:
  "check_name name = (if length name < 2 then None
     else Some (name ! (length name - 2) = CHR ''.'' \<and> name ! (length name - 1) = CHR ''x''))"
proof (cases "length name < 2")
  case True
  then show ?thesis by (simp add: check_name_def agetz_def)
next
  case False
  then have "nat (int (length name) - 2) = length name - 2" "nat (int (length name) - 1) = length name - 1"
    by simp_all
  moreover have "length name - 2 < length name" "length name - 1 < length name" "name \<noteq> []" using False by auto
  ultimately show ?thesis using False by (simp add: check_name_def agetz_def aget_def del: One_nat_def)
qed

section \<open>Properties\<close>

text \<open>A page table whose directories cover the whole range, all of them present.\<close>

definition flat_dir :: dir_ops where
  "flat_dir = \<lparr>pmd_addr_end = (\<lambda>a e. e), pud_addr_end = (\<lambda>a e. e), pgd_addr_end = (\<lambda>a e. e),
     pmd_none = (\<lambda>_. False), pud_none = (\<lambda>_. False), pgd_none = (\<lambda>_. False)\<rparr>"

lemma flat_dir_ok: "dir_ok flat_dir"
  by (simp add: dir_ok_def addr_end_ok_def flat_dir_def)

text \<open>
  C16: unmapping gives the present bits back. For a page-aligned range and a program named \<open>.x\<close>, the walk
  of \<open>unmap_page_range_handler\<close> ends, and it sets the present bit of exactly those entries of the range
  that are in use but not present and that no empty directory hides; \<open>spcd_pte_fixes\<close> counts them, and
  every other entry is untouched.
\<close>
theorem unmap_spec:
  assumes "dir_ok dir" "page_aligned a" "page_aligned e" "a < e" "check_name comm = Some True"
  shows "\<exists>pt' f'. unmap_page_range_handler ops dir True comm a e (pt, f) = Some (pt', f') \<and>
    (\<forall>x. pt' x = (if reachable_page dir a e x \<and> hidden ops (pt x) then pte_set_present ops (pt x) else pt x)) \<and>
    f' = f + of_nat (card {x. reachable_page dir a e x \<and> hidden ops (pt x)})"
  using unmap_handler_pages[OF assms, of ops True "(pt, f)"] by (simp add: fix_pages_def)

theorem unmap_spec_witness:
  "\<exists>pt' f'. unmap_page_range_handler bit_ops flat_dir True ''a.x'' 4096 12288 (\<lambda>x. if x = 8192 then 2 else 0, 0) = Some (pt', f') \<and>
    pt' 8192 = 3"
proof -
  have al: "page_aligned 4096" "page_aligned 8192" "page_aligned 12288" by (simp_all add: page_aligned_def)
  have name: "check_name ''a.x'' = Some True" by (simp add: check_name_eq)
  have fix2: "set_bit 0 (2::u64) = 3" "\<not> bit (2 :: u64) 0"
    by (simp_all add: set_bit_0)
  show ?thesis
    using unmap_spec[OF flat_dir_ok al(1,3) _ name, of bit_ops "\<lambda>x. if x = 8192 then 2 else 0" 0] al fix2
    by (auto simp: reachable_page_def flat_dir_def hidden_def bit_ops_def)
qed

text \<open>
  C25: extra faults leave no trace on memory that is unmapped. If no reachable entry of a page-aligned range is in
  use but not present, then after a walk for extra faults by \<open>pf_pagewalk\<close>, the walk of the unmap handler over the
  range, for a process named \<open>.x\<close>, restores every reachable entry of the range to what it was before.
\<close>
theorem fault_fix_roundtrip:
  assumes "walk_ok visits walk" "clears_present ops" "vma_list mm (mmap mm) xs" "walker_ok xs pid st"
    and "dir_ok dir" "page_aligned a" "page_aligned e" "a < e" "check_name comm = Some True"
    and inv: "\<And>x. pte_present ops (pt x) \<Longrightarrow> \<not> pte_none ops (pte_clear_present ops (pt x)) \<and>
      pte_set_present ops (pte_clear_present ops (pt x)) = pt x"
    and plain: "\<And>x. reachable_page dir a e x \<Longrightarrow> \<not> hidden ops (pt x)"
  shows "\<exists>st' pt' pt'' f'. pf_pagewalk ops walk cycles active cfg fl pid (Some mm) (st, pt) = Some (st', pt') \<and>
    unmap_page_range_handler ops dir True comm a e (pt', f) = Some (pt'', f') \<and>
    (\<forall>x. reachable_page dir a e x \<longrightarrow> pt'' x = pt x)"
proof -
  have "walker_ok xs pid (fst (st, pt))" using assms(4) by simp
  from pf_pagewalk_ok[OF assms(1-3) this, of cycles active cfg fl]
  obtain st' pt' where run: "pf_pagewalk ops walk cycles active cfg fl pid (Some mm) (st, pt) = Some (st', pt')"
    and f: "faulted ops pid (nat (spcd_num_faults cfg)) (st, pt) (st', pt')"
    by (auto elim!: wpE)
  note change = faulted_changed(3)[OF assms(2) f]
  have restored: "(if hidden ops (pt' x) then pte_set_present ops (pt' x) else pt' x) = pt x"
    if r: "reachable_page dir a e x" for x
  proof (cases "pt' x = pt x")
    case True
    with plain[OF r] show ?thesis by simp
  next
    case False
    with change[of x] inv[of x] assms(2) show ?thesis
      by (simp add: hidden_def clears_present_def)
  qed
  show ?thesis
    using run unmap_handler_pages[OF assms(5-9), of ops True "(pt', f)"] restored by (simp add: fix_pages_def)
qed

theorem fault_fix_roundtrip_witness:
  "\<exists>st' pt' pt'' f'. pf_pagewalk bit_ops walk_first (\<lambda>_. 0) (\<lambda>_. 4) faults_cfg 0 0 (Some two_areas) (fresh_pf, \<lambda>_. 3) = Some (st', pt') \<and>
    unmap_page_range_handler bit_ops flat_dir True ''a.x'' 4096 8192 (pt', 0) = Some (pt'', f') \<and> pt'' 4096 = 3"
proof -
  have al: "page_aligned 4096" "page_aligned 8192" by (simp_all add: page_aligned_def)
  have name: "check_name ''a.x'' = Some True" by (simp add: check_name_eq)
  have val: "set_bit 0 (unset_bit 0 (3 :: u64)) = 3" "unset_bit 0 (3 :: u64) \<noteq> 0"
    by (simp_all add: unset_bit_0 set_bit_0)
  obtain st' pt' pt'' f' where
    "pf_pagewalk bit_ops walk_first (\<lambda>_. 0) (\<lambda>_. 4) faults_cfg 0 0 (Some two_areas) (fresh_pf, \<lambda>_. 3) = Some (st', pt')"
    "unmap_page_range_handler bit_ops flat_dir True ''a.x'' 4096 8192 (pt', 0) = Some (pt'', f')"
    "\<forall>x. reachable_page flat_dir 4096 8192 x \<longrightarrow> pt'' x = 3"
    using fault_fix_roundtrip[OF small_walk(1,2) two_areas_list small_walk(3) flat_dir_ok al _ name,
        of "\<lambda>_. 3" "\<lambda>_. 0" "\<lambda>_. 4" faults_cfg 0 0] val
    by (auto simp: bit_ops_def hidden_def)
  moreover have "reachable_page flat_dir 4096 8192 4096"
    using al by (simp add: reachable_page_def flat_dir_def)
  ultimately show ?thesis by blast
qed

end
