(* ===== verification/Cdsm_Probes.thy ===== *)
theory Cdsm_Probes
  imports Cdsm_Procfs Cdsm_Zap
begin

text \<open>
  The probes, \<open>src/probes.c\<close>: the handlers that the kernel calls on a page fault, when a process does
  its time accounting, and after a fork, on the state of the whole module (the globals of all its
  files). Each handler is a function from the state to the report it prints, if any, and the new state.

  \<open>answers\<close> holds what the kernel's allocators and \<open>kallsyms_lookup_name\<close> return to a handler. The name
  of a process is the bytes before the terminator of \<open>task_struct.comm\<close>.
\<close>

unbundle bit_operations_syntax

section \<open>The code\<close>

record spcd_state =
  sp_cfg :: config
  sp_pids :: pid_state
  sp_mem :: mem_state
  sp_matrix :: spcd_comm_matrix
  sp_pf :: pf_state
  spcd_pf :: u64
  spcd_pte_fixes :: u64
  spcd_vma_shared_flag :: int
  fix_pte_is_real :: bool

record answers =
  vmalloc_mem :: bool
  kmalloc_proc :: bool
  kallsyms :: bool
  kmalloc_matrix :: "u32 list option"

record task_struct =
  t_pid :: int
  t_comm :: string
  t_flags :: u32

definition PF_EXITING :: u32 where
  "PF_EXITING = 4"

definition reset_stats :: "answers \<Rightarrow> spcd_state \<Rightarrow> spcd_state option" where
  "reset_stats env st = do {
     ms \<leftarrow> spcd_mem_init (sp_cfg st) (vmalloc_mem env) (sp_mem st);
     let st = st\<lparr>sp_mem := ms, spcd_pte_fixes := 0, spcd_pf := 0, spcd_vma_shared_flag := 1\<rparr>;
     pf \<leftarrow> spcd_pf_thread_init (sp_cfg st) (kmalloc_proc env) (kallsyms env) (sp_pf st);
     Some (st\<lparr>sp_pf := pf\<rparr>)
   }"

definition print_stats :: "spcd_state \<Rightarrow> string option" where
  "print_stats st = do {
     let nt = spcd_get_num_threads (sp_pids st);
     report \<leftarrow> spcd_print_comm (sp_cfg st) (sp_pids st) (sp_matrix st);
     Some (report @ ''('' @ show_int nt @ '' threads): '' @ show_nat (unat (spcd_pf st)) @ '' pfs ('' @
       show_nat (unat (spcd_pf_extra (sp_pf st))) @ '' extra, '' @ show_nat (unat (spcd_pte_fixes st)) @
       '' fixes), '' @ show_nat (unat (spcd_addr_conflict (sp_mem st))) @ '' addr conflicts'' @ newline)
   }"

text \<open>The page fault of the thread \<open>pid\<close> at \<open>address\<close>; the entry is returned as the handler leaves it.\<close>

definition pte_fault_handler ::
  "hash_fun \<Rightarrow> pte_ops \<Rightarrow> u64 \<Rightarrow> int \<Rightarrow> u64 \<Rightarrow> u64 \<Rightarrow> spcd_state \<Rightarrow> (u64 \<times> spcd_state) option" where
  "pte_fault_handler hash ops cycles pid address pte st = do {
     tid \<leftarrow> spcd_get_tid hash pid (sp_pids st);
     let (pte, fixes) = fix_pte ops (fix_pte_is_real st) (pte, spcd_pte_fixes st);
     let st = st\<lparr>spcd_pte_fixes := fixes\<rparr>;
     if tid \<noteq> -1 then do {
       let physaddr = pte_pfn ops pte;
       let st = st\<lparr>spcd_pf := spcd_pf st + 1\<rparr>;
       if physaddr \<noteq> 0 then do {
         (ms, m) \<leftarrow> spcd_check_comm hash (sp_cfg st) cycles tid
           (push_bit PAGE_SHIFT physaddr OR (address AND (PAGE_SIZE - 1))) (sp_mem st, sp_matrix st);
         Some (pte, st\<lparr>sp_mem := ms, sp_matrix := m\<rparr>)
       } else Some (pte, st)
     } else Some (pte, st)
   }"

definition process_handler ::
  "hash_fun \<Rightarrow> answers \<Rightarrow> task_struct \<Rightarrow> spcd_state \<Rightarrow> (string \<times> spcd_state) option" where
  "process_handler hash env tsk st = do {
     let exiting = (t_flags tsk AND PF_EXITING \<noteq> 0);
     tid \<leftarrow> spcd_get_tid hash (t_pid tsk) (sp_pids st);
     if tid > -1 \<and> exiting then do {
       pids \<leftarrow> spcd_delete_pid hash (t_pid tsk) (sp_pids st);
       let st = st\<lparr>sp_pids := pids\<rparr>;
       if spcd_get_active_threads pids = 0 then do {
         report \<leftarrow> print_stats st;
         st \<leftarrow> reset_stats env st;
         Some (report, st)
       } else Some ([], st)
     } else do {
       named \<leftarrow> check_name (t_comm tsk);
       if named \<and> tid = -1 \<and> \<not> exiting then do {
         st \<leftarrow> (if spcd_get_active_threads (sp_pids st) = 0 then do {
             m \<leftarrow> spcd_comm_init (sp_cfg st) (kmalloc_matrix env) (sp_matrix st);
             Some (st\<lparr>sp_pids := spcd_pid_clear (sp_pids st), sp_matrix := m\<rparr>)
           } else Some st);
         (tid, pids) \<leftarrow> spcd_add_pid hash (max_threads (sp_cfg st)) (t_pid tsk) (sp_pids st);
         Some ([], st\<lparr>sp_pids := pids\<rparr>)
       } else Some ([], st)
     }
   }"

text \<open>\<open>comm\<close> is the name of the forking process, \<open>ret\<close> what \<open>do_fork\<close> returned, read as an \<open>int\<close>.\<close>

definition thread_handler :: "hash_fun \<Rightarrow> string \<Rightarrow> u64 \<Rightarrow> spcd_state \<Rightarrow> spcd_state option" where
  "thread_handler hash comm ret st = do {
     let pid = sint (ucast ret :: u32);
     named \<leftarrow> check_name comm;
     if named \<and> pid > 0 then do {
       (tid, pids) \<leftarrow> spcd_add_pid hash (max_threads (sp_cfg st)) pid (sp_pids st);
       Some (st\<lparr>sp_pids := pids, spcd_vma_shared_flag := 0\<rparr>)
     } else Some st
   }"

section \<open>Events\<close>

text \<open>What the kernel and the user do to the module, one at a time.\<close>

datatype event =
    PageFault int u64 u64 u64 \<comment> \<open>pid, address, entry, cycle counter\<close>
  | Accounting task_struct answers
  | Forked string u64
  | WriteReset nat
  | WriteShift string
  | WriteFaults string

fun sys_exec :: "hash_fun \<Rightarrow> pte_ops \<Rightarrow> (string \<Rightarrow> u32 option) \<Rightarrow> event \<Rightarrow> spcd_state \<Rightarrow> (string \<times> spcd_state) option" where
  "sys_exec hash ops kstrtouint (PageFault pid address pte cycles) st =
     map_option (\<lambda>r. ([], snd r)) (pte_fault_handler hash ops cycles pid address pte st)"
| "sys_exec hash ops kstrtouint (Accounting tsk env) st = process_handler hash env tsk st"
| "sys_exec hash ops kstrtouint (Forked comm ret) st = map_option (\<lambda>st. ([], st)) (thread_handler hash comm ret st)"
| "sys_exec hash ops kstrtouint (WriteReset count) st =
     map_option (\<lambda>r. ([], st\<lparr>sp_matrix := snd r\<rparr>)) (matrix_reset (sp_cfg st) (sp_matrix st) count)"
| "sys_exec hash ops kstrtouint (WriteShift bytes) st =
     map_option (\<lambda>r. ([], st\<lparr>sp_cfg := snd r\<rparr>)) (set_shift kstrtouint bytes (sp_cfg st))"
| "sys_exec hash ops kstrtouint (WriteFaults bytes) st =
     map_option (\<lambda>r. ([], st\<lparr>sp_cfg := snd r\<rparr>)) (set_num_faults kstrtouint bytes (sp_cfg st))"

section \<open>The invariant\<close>

text \<open>
  The settings with which the module is loaded: \<open>max_threads\<close> is the power of two of its bits, and not
  more than the slots of the registry.
\<close>

definition cfg_ok :: "config \<Rightarrow> bool" where
  "cfg_ok cfg \<longleftrightarrow> 0 \<le> max_threads_bits cfg \<and> max_threads_bits cfg \<le> 14 \<and>
     max_threads cfg = dim_int (max_threads_bits cfg) \<and>
     0 \<le> spcd_shift cfg \<and> spcd_shift cfg \<le> 12"

definition sys_ok :: "hash_fun \<Rightarrow> spcd_state \<Rightarrow> bool" where
  "sys_ok hash st \<longleftrightarrow> hash_32_ok hash \<and> cfg_ok (sp_cfg st) \<and>
     mem_wf (sp_cfg st) (max_threads (sp_cfg st)) (sp_mem st) \<and>
     (\<exists>ps. proc (sp_pf st) = Some ps \<and> nat (max_threads (sp_cfg st)) \<le> length ps) \<and>
     (sp_pids st = pid_boot \<and> matrix (sp_matrix st) = None \<or>
      pid_wf hash (max_threads (sp_cfg st)) (sp_pids st) \<and> matrix_wf (max_threads_bits (sp_cfg st)) (sp_matrix st))"

text \<open>
  What the kernel documents about an event: pids are positive, names have at least two bytes, a page frame
  number has at most 52 bits, and allocations of the matrix succeed with the size asked for. A number that
  the user writes is a valid one.
\<close>

definition matrix_alloc_ok :: "config \<Rightarrow> answers \<Rightarrow> bool" where
  "matrix_alloc_ok cfg env \<longleftrightarrow> (\<exists>a. kmalloc_matrix env = Some a \<and>
     length a = 2 ^ nat (max_threads_bits cfg) * 2 ^ nat (max_threads_bits cfg))"

definition pfn_ok :: "pte_ops \<Rightarrow> bool" where
  "pfn_ok ops \<longleftrightarrow> (\<forall>pte. unat (pte_pfn ops pte) < 2 ^ 52)"

fun event_ok :: "(string \<Rightarrow> u32 option) \<Rightarrow> spcd_state \<Rightarrow> event \<Rightarrow> bool" where
  "event_ok k st (PageFault pid address pte cycles) \<longleftrightarrow> 0 < pid"
| "event_ok k st (Accounting tsk env) \<longleftrightarrow> 0 < t_pid tsk \<and> 2 \<le> length (t_comm tsk) \<and> matrix_alloc_ok (sp_cfg st) env"
| "event_ok k st (Forked comm ret) \<longleftrightarrow> 2 \<le> length comm"
| "event_ok k st (WriteReset count) \<longleftrightarrow> True"
| "event_ok k st (WriteShift bytes) \<longleftrightarrow> (case read_number k bytes of None \<Rightarrow> False | Some v \<Rightarrow> unat v \<le> 12)"
| "event_ok k st (WriteFaults bytes) \<longleftrightarrow> read_number k bytes \<noteq> None"

section \<open>The abstract module\<close>

text \<open>
  What the module promises: which threads have which numbers, the window of every memory block and the
  counts of communication. \<open>started\<close> says that a first application has been seen.
\<close>

record module_spec =
  started :: bool
  tids :: "int \<Rightarrow> int option"
  next_tid :: int
  det :: detector

definition no_counts :: "int \<Rightarrow> int \<Rightarrow> u32" where
  "no_counts = (\<lambda>k l. 0)"

text \<open>A thread gets the next number unless the numbers are used up or a live thread has its slot.\<close>

definition spec_add :: "hash_fun \<Rightarrow> config \<Rightarrow> int \<Rightarrow> module_spec \<Rightarrow> module_spec" where
  "spec_add hash cfg pid s =
     (if started s \<and> next_tid s < max_threads cfg \<and> (\<forall>q. tids s q \<noteq> None \<longrightarrow> pid_slot hash q \<noteq> pid_slot hash pid)
      then s\<lparr>tids := (tids s)(pid \<mapsto> next_tid s), next_tid := next_tid s + 1\<rparr> else s)"

definition spec_exit :: "int \<Rightarrow> module_spec \<Rightarrow> module_spec" where
  "spec_exit pid s = (if tids s pid = None then s
     else let tids' = (tids s)(pid := None) in
       s\<lparr>tids := tids', det := (if tids' = Map.empty then (\<lambda>_. [], snd (det s)) else det s)\<rparr>)"

definition spec_start :: "hash_fun \<Rightarrow> config \<Rightarrow> int \<Rightarrow> module_spec \<Rightarrow> module_spec" where
  "spec_start hash cfg pid s = (if tids s pid \<noteq> None then s
     else spec_add hash cfg pid (if tids s = Map.empty
       then s\<lparr>started := True, next_tid := 0, det := (fst (det s), no_counts)\<rparr> else s))"

definition fault_block :: "config \<Rightarrow> u64 \<Rightarrow> u64 \<Rightarrow> u64" where
  "fault_block cfg pfn address =
     drop_bit (nat (spcd_shift cfg)) (push_bit PAGE_SHIFT pfn OR (address AND (PAGE_SIZE - 1)))"

fun spec_step :: "hash_fun \<Rightarrow> pte_ops \<Rightarrow> bool \<Rightarrow> config \<Rightarrow> event \<Rightarrow> module_spec \<Rightarrow> module_spec" where
  "spec_step hash ops real cfg (PageFault pid address pte cycles) s =
     (let pfn = pte_pfn ops (fst (fix_pte ops real (pte, 0))) in
      case tids s pid of None \<Rightarrow> s
      | Some t \<Rightarrow> if pfn = 0 then s
          else s\<lparr>det := spec_access (mem_slot hash cfg) t (fault_block cfg pfn address) (det s)\<rparr>)"
| "spec_step hash ops real cfg (Accounting tsk env) s =
     (if t_flags tsk AND PF_EXITING \<noteq> 0 then spec_exit (t_pid tsk) s
      else if check_name (t_comm tsk) = Some True then spec_start hash cfg (t_pid tsk) s else s)"
| "spec_step hash ops real cfg (Forked comm ret) s =
     (let pid = sint (ucast ret :: u32) in
      if check_name comm = Some True \<and> 0 < pid then spec_add hash cfg pid s else s)"
| "spec_step hash ops real cfg (WriteReset count) s = s\<lparr>det := (fst (det s), no_counts)\<rparr>"
| "spec_step hash ops real cfg (WriteShift bytes) s = s"
| "spec_step hash ops real cfg (WriteFaults bytes) s = s"

definition spec_of :: "hash_fun \<Rightarrow> spcd_state \<Rightarrow> module_spec" where
  "spec_of hash st = (let boot = (sp_pids st = pid_boot) in
     \<lparr>started = \<not> boot,
      tids = (if boot then Map.empty else live hash (sp_pids st)),
      next_tid = spcd_num_threads (sp_pids st),
      det = (block_window hash (sp_cfg st) (sp_mem st),
             if boot then no_counts else pair_count (sp_cfg st) (sp_matrix st))\<rparr>)"

section \<open>Facts about the parts\<close>

lemma boot_not_wf: "\<not> pid_wf hash m pid_boot"
proof
  assume "pid_wf hash m pid_boot"
  then have "card (live_slots pid_boot) = 0" by (simp add: pid_wf_def) (simp add: pid_boot_def)
  moreover have "0 \<in> live_slots pid_boot" by (simp add: live_slots_def entry_free_def pid_boot_def)
  ultimately show False by auto
qed

lemma boot_tid: "hash_32_ok hash \<Longrightarrow> 0 < pid \<Longrightarrow> spcd_get_tid hash pid pid_boot = Some (-1)"
  by (simp add: spcd_get_tid_def pid_boot_def)

lemma boot_add: "hash_32_ok hash \<Longrightarrow> spcd_add_pid hash m pid pid_boot = Some (-1, pid_boot)"
  by (simp add: spcd_add_pid_def Let_def pid_boot_def)

lemma active_zero_iff:
  assumes "pid_wf hash m st"
  shows "spcd_get_active_threads st = 0 \<longleftrightarrow> live hash st = Map.empty"
proof -
  have "spcd_get_active_threads st = 0 \<longleftrightarrow> live_slots st = {}"
    using assms by (simp add: spcd_get_active_threads_def pid_wf_def)
  also have "\<dots> \<longleftrightarrow> live hash st = Map.empty"
  proof
    assume none: "live_slots st = {}"
    show "live hash st = Map.empty"
    proof
      fix p
      show "live hash st p = None"
      proof (cases "live hash st p")
        case (Some t)
        then obtain h where "h < 16384" "\<not> entry_free (spcd_pid st ! h)" by (auto simp: live_conv[OF assms])
        with none show ?thesis by (auto simp: live_slots_def)
      qed
    qed
  next
    assume none: "live hash st = Map.empty"
    show "live_slots st = {}"
    proof (rule equals0I)
      fix h assume "h \<in> live_slots st"
      then have "h < 16384" "\<not> entry_free (spcd_pid st ! h)" by (auto simp: live_slots_def)
      then have "live hash st (ps_pid (spcd_pid st ! h)) = Some (ps_tid (spcd_pid st ! h))"
        by (auto simp: live_conv[OF assms] intro!: exI[of _ h])
      with none show False by simp
    qed
  qed
  finally show ?thesis .
qed

lemma slot_taken_iff:
  assumes "pid_wf hash m st"
  shows "ps_pid (spcd_pid st ! pid_slot hash p) \<noteq> -1 \<longleftrightarrow>
    (\<exists>q. live hash st q \<noteq> None \<and> pid_slot hash q = pid_slot hash p)"
proof
  have h: "pid_slot hash p < 16384" using assms by (simp add: pid_wf_hash)
  let ?q = "ps_pid (spcd_pid st ! pid_slot hash p)"
  assume taken: "?q \<noteq> -1"
  then have used: "\<not> entry_free (spcd_pid st ! pid_slot hash p)" by (simp add: entry_free_def)
  with pid_wf_live(2)[OF assms h] have "pid_slot hash ?q = pid_slot hash p" by simp
  with taken have "live hash st ?q \<noteq> None" by (simp add: live_def)
  with \<open>pid_slot hash ?q = pid_slot hash p\<close> show "\<exists>q. live hash st q \<noteq> None \<and> pid_slot hash q = pid_slot hash p"
    by blast
qed (auto simp: live_def split: if_splits)

lemma block_nonzero:
  assumes "pfn \<noteq> 0" "unat pfn < 2 ^ 52" "0 \<le> spcd_shift cfg" "spcd_shift cfg \<le> 12"
  shows "fault_block cfg pfn address \<noteq> 0"
proof -
  obtain n where n: "bit pfn n" using assms(1) by (metis bit_eqI bit_0_eq bot_apply bot_bool_def)
  have "n < 52"
  proof (rule ccontr)
    assume "\<not> n < 52"
    then have "(2::nat) ^ 52 \<le> 2 ^ n" by (intro power_increasing) auto
    with assms(2) have "unat pfn div 2 ^ n = 0" by simp
    moreover have "bit (unat pfn) n" using n by (simp add: bit_unsigned_iff)
    ultimately show False by (simp add: bit_iff_odd)
  qed
  have "bit (fault_block cfg pfn address) (n + 12 - nat (spcd_shift cfg))"
    using n \<open>n < 52\<close> assms(3,4)
    by (simp add: fault_block_def bit_drop_bit_eq bit_or_iff bit_push_bit_iff PAGE_SHIFT_def)
  then show ?thesis by auto
qed

section \<open>Each event\<close>

lemma sys_ok_cases:
  assumes "sys_ok hash st"
  obtains (boot) "sp_pids st = pid_boot" "matrix (sp_matrix st) = None"
  | (run) "sp_pids st \<noteq> pid_boot" "pid_wf hash (max_threads (sp_cfg st)) (sp_pids st)"
      "matrix_wf (max_threads_bits (sp_cfg st)) (sp_matrix st)"
      "detector_wf hash (sp_cfg st) (sp_mem st, sp_matrix st)"
  using assms boot_not_wf[of hash "max_threads (sp_cfg st)"]
  by (cases "sp_pids st = pid_boot") (auto simp: sys_ok_def detector_wf_def cfg_ok_def)

lemma fix_pte_fst: "fst (fix_pte ops real (pte, f)) = fst (fix_pte ops real (pte, 0))"
  by (simp add: fix_pte_def fix_pte_real_def fix_pte_empty_def)

lemma live_bounds:
  assumes "pid_wf hash (max_threads cfg) pids" "live hash pids p = Some t" "cfg_ok cfg"
  shows "t \<noteq> -1" "0 \<le> t" "t < dim_int (max_threads_bits cfg)"
proof -
  from live_range[OF assms(1,2)] have "0 \<le> t" "t < spcd_num_threads pids" by auto
  moreover from this have "spcd_num_threads pids \<le> max_threads cfg" using assms(1) by (auto simp: pid_wf_def)
  ultimately show "t \<noteq> -1" "0 \<le> t" "t < dim_int (max_threads_bits cfg)"
    using assms(3) by (auto simp: cfg_ok_def)
qed

lemma fault_refines:
  assumes ok: "sys_ok hash st" and "0 < pid" "pfn_ok ops"
  shows "wp (pte_fault_handler hash ops cycles pid address pte st) (\<lambda>(pte', st'). sys_ok hash st' \<and>
     spec_of hash st' = spec_step hash ops (fix_pte_is_real st) (sp_cfg st) (PageFault pid address pte cycles) (spec_of hash st))"
proof -
  obtain pte' f where fx: "fix_pte ops (fix_pte_is_real st) (pte, spcd_pte_fixes st) = (pte', f)"
    by (cases "fix_pte ops (fix_pte_is_real st) (pte, spcd_pte_fixes st)")
  then have pte': "fst (fix_pte ops (fix_pte_is_real st) (pte, 0)) = pte'"
    by (metis fix_pte_fst fst_conv)
  from ok show ?thesis
  proof (cases rule: sys_ok_cases)
    case boot
    have h: "hash_32_ok hash" using ok by (simp add: sys_ok_def)
    show ?thesis using boot ok boot_tid[OF h \<open>0 < pid\<close>] fx
      by (simp add: pte_fault_handler_def sys_ok_def spec_of_def Let_def)
  next
    case run
    have cfg: "cfg_ok (sp_cfg st)" using ok by (simp add: sys_ok_def)
    note tid = spcd_get_tid_live[OF run(2), of pid]
    show ?thesis
    proof (cases "live hash (sp_pids st) pid")
      case None
      with tid \<open>0 < pid\<close> fx run ok show ?thesis
        by (simp add: pte_fault_handler_def sys_ok_def spec_of_def Let_def)
    next
      case (Some t)
      note t = live_bounds[OF run(2) Some cfg]
      show ?thesis
      proof (cases "pte_pfn ops pte' = 0")
        case True
        with tid \<open>0 < pid\<close> fx run ok Some t pte' show ?thesis
          by (simp add: pte_fault_handler_def sys_ok_def spec_of_def Let_def)
      next
        case False
        let ?addr = "push_bit PAGE_SHIFT (pte_pfn ops pte') OR (address AND (PAGE_SIZE - 1))"
        have shift: "0 \<le> spcd_shift (sp_cfg st)" "spcd_shift (sp_cfg st) \<le> 12" using cfg by (simp_all add: cfg_ok_def)
        have page: "addr_to_page (sp_cfg st) ?addr = Some (fault_block (sp_cfg st) (pte_pfn ops pte') address)"
          using shift by (simp add: addr_to_page_def fault_block_def)
        have "fault_block (sp_cfg st) (pte_pfn ops pte') address \<noteq> 0"
          using \<open>pfn_ok ops\<close> by (intro block_nonzero[OF False _ shift]) (simp add: pfn_ok_def)
        from check_comm_refines[OF run(4) t(2,3) page this, of cycles]
        obtain ms m where acc: "spcd_check_comm hash (sp_cfg st) cycles t ?addr (sp_mem st, sp_matrix st) = Some (ms, m)"
          and wf: "detector_wf hash (sp_cfg st) (ms, m)"
          and det: "detector_of hash (sp_cfg st) (ms, m) =
            spec_access (mem_slot hash (sp_cfg st)) t (fault_block (sp_cfg st) (pte_pfn ops pte') address)
              (detector_of hash (sp_cfg st) (sp_mem st, sp_matrix st))"
          by (auto elim!: wpE)
        have "pte_fault_handler hash ops cycles pid address pte st = Some (pte',
            st\<lparr>spcd_pte_fixes := f, spcd_pf := spcd_pf st + 1, sp_mem := ms, sp_matrix := m\<rparr>)"
          using tid \<open>0 < pid\<close> fx Some t acc False by (simp add: pte_fault_handler_def Let_def)
        moreover have "\<exists>ps. proc (sp_pf st) = Some ps \<and> nat (dim_int (max_threads_bits (sp_cfg st))) \<le> length ps"
          using ok cfg by (auto simp: sys_ok_def cfg_ok_def)
        ultimately show ?thesis
          using ok run(1,2) wf det Some False pte' cfg
          by (simp add: sys_ok_def spec_of_def Let_def detector_wf_def detector_of_def cfg_ok_def)
      qed
    qed
  qed
qed

lemma add_refines:
  assumes wf: "pid_wf hash (max_threads cfg) pids" and "pid \<noteq> -1" and s: "started s" "tids s = live hash pids" "next_tid s = spcd_num_threads pids"
  shows "wp (spcd_add_pid hash (max_threads cfg) pid pids) (\<lambda>(t, pids').
     pid_wf hash (max_threads cfg) pids' \<and>
     spec_add hash cfg pid s = s\<lparr>tids := live hash pids', next_tid := spcd_num_threads pids'\<rparr>)"
proof -
  obtain t pids' where add: "spcd_add_pid hash (max_threads cfg) pid pids = Some (t, pids')"
    by (metis add_pid_cases[OF wf] surj_pair)
  have n: "0 \<le> spcd_num_threads pids" using wf by (simp add: pid_wf_def)
  have free: "(\<forall>q. tids s q \<noteq> None \<longrightarrow> pid_slot hash q \<noteq> pid_slot hash pid) \<longleftrightarrow>
      ps_pid (spcd_pid pids ! pid_slot hash pid) = -1"
    using slot_taken_iff[OF wf, of pid] s(2) by auto
  show ?thesis
  proof (cases "t = -1")
    case True
    with add add_pid_refused[OF wf] have "pids' = pids" by auto
    moreover have "max_threads cfg \<le> spcd_num_threads pids \<or> ps_pid (spcd_pid pids ! pid_slot hash pid) \<noteq> -1"
      using add True n by (auto simp: add_pid_cases[OF wf] Let_def split: if_splits)
    then have "spec_add hash cfg pid s = s"
      using free s by (auto simp: spec_add_def)
    ultimately show ?thesis using add wf s by simp
  next
    case False
    note ok = add_pid_success[OF wf \<open>pid \<noteq> -1\<close> add False]
    have "spcd_num_threads pids < max_threads cfg" "ps_pid (spcd_pid pids ! pid_slot hash pid) = -1"
      using add False by (auto simp: add_pid_cases[OF wf] Let_def split: if_splits)
    then have "spec_add hash cfg pid s = s\<lparr>tids := (live hash pids)(pid \<mapsto> t), next_tid := t + 1\<rparr>"
      unfolding spec_add_def free using s ok(1) by simp
    with add ok show ?thesis by simp
  qed
qed

lemma pf_init_ok:
  assumes "proc pf = Some ps" "nat (max_threads cfg) \<le> length ps" "0 \<le> max_threads cfg"
  shows "\<exists>pf' ps'. spcd_pf_thread_init cfg a b pf = Some pf' \<and> proc pf' = Some ps' \<and> length ps' = length ps"
  using assms by (simp add: spcd_pf_thread_init_def Let_def)

lemma zero_table_window:
  assumes "hash_32_ok hash" "mem_wf cfg n ms" "mem ms = Some (replicate (2 ^ nat (spcd_mem_hash_bits cfg)) zero_elem)"
  shows "block_window hash cfg ms = (\<lambda>_. [])"
proof
  fix p
  have "mem_slot hash cfg p < 2 ^ nat (spcd_mem_hash_bits cfg)"
    using mem_slot_less[OF assms] by simp
  then show "block_window hash cfg ms p = []"
    using assms(3) by (simp add: block_window_def Let_def) (simp add: zero_elem_def)
qed

lemma reset_stats_ok:
  assumes ok: "sys_ok hash st"
  shows "wp (reset_stats env st) (\<lambda>st'. sys_ok hash st' \<and> sp_cfg st' = sp_cfg st \<and> sp_pids st' = sp_pids st \<and>
     sp_matrix st' = sp_matrix st \<and> block_window hash (sp_cfg st) (sp_mem st') = (\<lambda>_. []))"
proof -
  let ?n = "max_threads (sp_cfg st)"
  have h: "hash_32_ok hash" and cfg: "cfg_ok (sp_cfg st)" and mem: "mem_wf (sp_cfg st) ?n (sp_mem st)"
    using ok by (simp_all add: sys_ok_def)
  obtain ps where ps: "proc (sp_pf st) = Some ps" "nat ?n \<le> length ps" using ok by (auto simp: sys_ok_def)
  obtain ms where ms: "spcd_mem_init (sp_cfg st) (vmalloc_mem env) (sp_mem st) = Some ms" "mem_wf (sp_cfg st) ?n ms"
    "mem ms = Some (replicate (2 ^ nat (spcd_mem_hash_bits (sp_cfg st))) zero_elem)"
    using spcd_mem_init_again[OF mem, of "vmalloc_mem env"] by blast
  have "0 \<le> ?n" using cfg by (simp add: cfg_ok_def dim_int_def)
  from pf_init_ok[OF ps this] obtain pf ps' where pf: "spcd_pf_thread_init (sp_cfg st) (kmalloc_proc env) (kallsyms env) (sp_pf st) = Some pf"
    "proc pf = Some ps'" "length ps' = length ps" by blast
  show ?thesis
    using ok ms(1,2) pf ps zero_table_window[OF h ms(2,3)]
    by (simp add: reset_stats_def Let_def sys_ok_def)
qed

lemma print_stats_ok:
  assumes "pid_wf hash (max_threads (sp_cfg st)) (sp_pids st)" "cfg_ok (sp_cfg st)"
    and "matrix_wf (max_threads_bits (sp_cfg st)) (sp_matrix st)"
  shows "\<exists>report. print_stats st = Some report"
proof -
  let ?n = "spcd_get_num_threads (sp_pids st)"
  have n: "0 \<le> ?n" "0 < ?n \<longrightarrow> ?n \<le> max_threads (sp_cfg st)"
    using assms(1) by (simp_all add: pid_wf_def spcd_get_num_threads_def)
  have "0 \<le> dim_int (max_threads_bits (sp_cfg st))" by (simp add: dim_int_def)
  with n assms(2) have "?n = int (nat ?n)" "int (nat ?n) \<le> dim_int (max_threads_bits (sp_cfg st))"
    by (auto simp: cfg_ok_def)
  from print_comm_ok[OF assms(3) this] show ?thesis by (auto simp: print_stats_def Let_def)
qed

lemma exit_refines:
  assumes ok: "sys_ok hash st" and p: "0 < t_pid tsk" and name: "2 \<le> length (t_comm tsk)"
    and exiting: "t_flags tsk AND PF_EXITING \<noteq> 0"
  shows "wp (process_handler hash env tsk st) (\<lambda>(out, st'). sys_ok hash st' \<and>
     spec_of hash st' = spec_exit (t_pid tsk) (spec_of hash st))"
proof -
  have h: "hash_32_ok hash" and cfg: "cfg_ok (sp_cfg st)" using ok by (simp_all add: sys_ok_def)
  have named: "\<exists>b. check_name (t_comm tsk) = Some b" using name by (simp add: check_name_eq)
  from ok show ?thesis
  proof (cases rule: sys_ok_cases)
    case boot
    with boot_tid[OF h p] named exiting ok show ?thesis
      by (auto simp: process_handler_def spec_exit_def spec_of_def Let_def)
  next
    case run
    have p1: "t_pid tsk \<noteq> -1" using p by simp
    show ?thesis
    proof (cases "live hash (sp_pids st) (t_pid tsk)")
      case None
      with spcd_get_tid_live[OF run(2) p1] named exiting ok run show ?thesis
        by (auto simp: process_handler_def spec_exit_def spec_of_def Let_def)
    next
      case (Some t)
      note t = live_bounds[OF run(2) Some cfg]
      obtain pids where del: "spcd_delete_pid hash (t_pid tsk) (sp_pids st) = Some pids"
        using delete_pid_cases[OF run(2) p1] by (auto split: if_splits)
      note wf = delete_pid_wf[OF run(2) p1 del] and live = delete_pid_live[OF run(2) p1 del]
      have num: "spcd_num_threads pids = spcd_num_threads (sp_pids st)"
        using del by (auto simp: delete_pid_cases[OF run(2) p1] split: if_splits)
      have nb: "pids \<noteq> pid_boot" using wf boot_not_wf by metis
      let ?st = "st\<lparr>sp_pids := pids\<rparr>"
      have ok1: "sys_ok hash ?st" using ok run wf by (simp add: sys_ok_def)
      have tids: "tids (spec_of hash st) = live hash (sp_pids st)" "det (spec_of hash st) = (block_window hash (sp_cfg st) (sp_mem st), pair_count (sp_cfg st) (sp_matrix st))"
        "started (spec_of hash st)" "next_tid (spec_of hash st) = spcd_num_threads (sp_pids st)"
        using run(1) by (simp_all add: spec_of_def Let_def)
      show ?thesis
      proof (cases "spcd_get_active_threads pids = 0")
        case True
        then have empty: "(live hash (sp_pids st))(t_pid tsk := None) = Map.empty"
          using active_zero_iff[OF wf] live by simp
        obtain report where "print_stats ?st = Some report"
          using print_stats_ok[of hash ?st] wf cfg run(3) by auto
        moreover obtain st' where st': "reset_stats env ?st = Some st'" "sys_ok hash st'" "sp_cfg st' = sp_cfg st"
          "sp_pids st' = pids" "sp_matrix st' = sp_matrix st" "block_window hash (sp_cfg st) (sp_mem st') = (\<lambda>_. [])"
          using reset_stats_ok[OF ok1, of env] by (auto elim!: wpE)
        ultimately have "process_handler hash env tsk st = Some (report, st')"
          using spcd_get_tid_live[OF run(2) p1] Some t exiting del True by (simp add: process_handler_def Let_def)
        moreover have "spec_of hash st' = spec_exit (t_pid tsk) (spec_of hash st)"
          using st' nb empty live num Some
          by (simp add: spec_exit_def tids Let_def) (simp add: spec_of_def Let_def run(1))
        ultimately show ?thesis using st'(2) by simp
      next
        case False
        then have "(live hash (sp_pids st))(t_pid tsk := None) \<noteq> Map.empty"
          using active_zero_iff[OF wf] live by simp
        moreover have "process_handler hash env tsk st = Some ([], ?st)"
          using spcd_get_tid_live[OF run(2) p1] Some t exiting del False by (simp add: process_handler_def Let_def)
        ultimately show ?thesis using ok1 nb live num Some
          by (simp add: spec_exit_def tids Let_def) (simp add: spec_of_def Let_def run(1))
      qed
    qed
  qed
qed

lemma cfg_ok_matrix:
  assumes "cfg_ok cfg"
  shows "0 \<le> max_threads_bits cfg" "max_threads_bits cfg \<le> 15" "max_threads cfg = 2 ^ nat (max_threads_bits cfg)"
    "max_threads cfg \<le> 16384"
proof -
  show "0 \<le> max_threads_bits cfg" "max_threads_bits cfg \<le> 15" "max_threads cfg = 2 ^ nat (max_threads_bits cfg)"
    using assms by (simp_all add: cfg_ok_def dim_int_def)
  have "(2::int) ^ nat (max_threads_bits cfg) \<le> 2 ^ 14"
    using assms by (intro power_increasing) (auto simp: cfg_ok_def)
  then show "max_threads cfg \<le> 16384" using assms by (simp add: cfg_ok_def dim_int_def)
qed

text \<open>The first thread of an application: the registry and the matrix are cleared.\<close>

lemma clear_refines:
  assumes ok: "sys_ok hash st" and alloc: "matrix_alloc_ok (sp_cfg st) env"
  shows "wp (spcd_comm_init (sp_cfg st) (kmalloc_matrix env) (sp_matrix st)) (\<lambda>m.
     let st' = st\<lparr>sp_pids := spcd_pid_clear (sp_pids st), sp_matrix := m\<rparr> in
       sys_ok hash st' \<and> sp_pids st' \<noteq> pid_boot \<and>
       spec_of hash st' = (spec_of hash st)\<lparr>started := True, tids := Map.empty, next_tid := 0,
          det := (fst (det (spec_of hash st)), no_counts)\<rparr>)"
proof -
  have h: "hash_32_ok hash" and cfg: "cfg_ok (sp_cfg st)" using ok by (simp_all add: sys_ok_def)
  note cm = cfg_ok_matrix[OF cfg]
  have old: "matrix (sp_matrix st) = None \<or> matrix_wf (max_threads_bits (sp_cfg st)) (sp_matrix st)"
    using ok by (rule sys_ok_cases) auto
  obtain a where a: "kmalloc_matrix env = Some a"
      "length a = 2 ^ nat (max_threads_bits (sp_cfg st)) * 2 ^ nat (max_threads_bits (sp_cfg st))"
    using alloc by (auto simp: matrix_alloc_ok_def)
  obtain m where m: "spcd_comm_init (sp_cfg st) (kmalloc_matrix env) (sp_matrix st) = Some m"
    "matrix_wf (max_threads_bits (sp_cfg st)) m" "\<forall>k l. pair_count (sp_cfg st) m k l = 0"
    using comm_init_ok[OF cm(1-3) old, of "kmalloc_matrix env"] a by auto
  have wf: "pid_wf hash (max_threads (sp_cfg st)) (spcd_pid_clear (sp_pids st))"
    by (rule pid_clear_wf[OF h cm(4)])
  then have nb: "spcd_pid_clear (sp_pids st) \<noteq> pid_boot" using boot_not_wf by metis
  have "pair_count (sp_cfg st) m = no_counts" using m(3) by (simp add: no_counts_def fun_eq_iff)
  then show ?thesis
    using m(1,2) wf nb ok pid_clear_live[OF h, of "sp_pids st"]
    by (simp add: Let_def sys_ok_def) (simp add: spec_of_def Let_def spcd_pid_clear_def)
qed

lemma add_step:
  assumes ok: "sys_ok hash st" and "0 < pid" "sp_pids st \<noteq> pid_boot"
  shows "wp (spcd_add_pid hash (max_threads (sp_cfg st)) pid (sp_pids st)) (\<lambda>(t, pids).
     sys_ok hash (st\<lparr>sp_pids := pids\<rparr>) \<and>
     spec_of hash (st\<lparr>sp_pids := pids\<rparr>) = spec_add hash (sp_cfg st) pid (spec_of hash st))"
proof -
  from ok assms(3) have run: "pid_wf hash (max_threads (sp_cfg st)) (sp_pids st)"
      "matrix_wf (max_threads_bits (sp_cfg st)) (sp_matrix st)"
    by (auto elim!: sys_ok_cases)
  have "started (spec_of hash st)" "tids (spec_of hash st) = live hash (sp_pids st)"
    "next_tid (spec_of hash st) = spcd_num_threads (sp_pids st)"
    using assms(3) by (simp_all add: spec_of_def Let_def)
  from add_refines[OF run(1) _ this, of pid] \<open>0 < pid\<close>
  obtain t pids where add: "spcd_add_pid hash (max_threads (sp_cfg st)) pid (sp_pids st) = Some (t, pids)"
    and wf: "pid_wf hash (max_threads (sp_cfg st)) pids"
    and sp: "spec_add hash (sp_cfg st) pid (spec_of hash st) =
      (spec_of hash st)\<lparr>tids := live hash pids, next_tid := spcd_num_threads pids\<rparr>"
    by (auto elim!: wpE)
  have "pids \<noteq> pid_boot" using wf boot_not_wf by metis
  then show ?thesis
    using add wf sp ok run assms(3) by (simp add: sys_ok_def) (simp add: spec_of_def Let_def)
qed

lemma start_refines:
  assumes ok: "sys_ok hash st" and p: "0 < t_pid tsk" and alloc: "matrix_alloc_ok (sp_cfg st) env"
    and name: "check_name (t_comm tsk) = Some True" and alive: "\<not> t_flags tsk AND PF_EXITING \<noteq> 0"
  shows "wp (process_handler hash env tsk st) (\<lambda>(out, st'). sys_ok hash st' \<and>
     spec_of hash st' = spec_start hash (sp_cfg st) (t_pid tsk) (spec_of hash st))"
proof (cases "tids (spec_of hash st) (t_pid tsk)")
  case (Some t)
  with ok show ?thesis
  proof (cases rule: sys_ok_cases)
    case boot
    with Some show ?thesis by (simp add: spec_of_def Let_def)
  next
    case run
    with Some have l: "live hash (sp_pids st) (t_pid tsk) = Some t" by (simp add: spec_of_def Let_def)
    have "cfg_ok (sp_cfg st)" using ok by (simp add: sys_ok_def)
    note t = live_bounds[OF run(2) l this]
    show ?thesis using spcd_get_tid_live[OF run(2), of "t_pid tsk"] p l t name alive ok Some
      by (simp add: process_handler_def spec_start_def Let_def)
  qed
next
  case None
  have h: "hash_32_ok hash" using ok by (simp add: sys_ok_def)
  have tid: "spcd_get_tid hash (t_pid tsk) (sp_pids st) = Some (-1)"
    and idle: "spcd_get_active_threads (sp_pids st) = 0 \<longleftrightarrow> tids (spec_of hash st) = Map.empty"
    using ok None boot_tid[OF h p] spcd_get_tid_live[of hash "max_threads (sp_cfg st)" "sp_pids st" "t_pid tsk"] p
      active_zero_iff[of hash "max_threads (sp_cfg st)" "sp_pids st"]
    by (auto elim!: sys_ok_cases simp: spec_of_def Let_def) (simp add: pid_boot_def spcd_get_active_threads_def)
  show ?thesis
  proof (cases "spcd_get_active_threads (sp_pids st) = 0")
    case True
    let ?st = "\<lambda>m. st\<lparr>sp_pids := spcd_pid_clear (sp_pids st), sp_matrix := m\<rparr>"
    obtain m where m: "spcd_comm_init (sp_cfg st) (kmalloc_matrix env) (sp_matrix st) = Some m"
      "sys_ok hash (?st m)" "sp_pids (?st m) \<noteq> pid_boot"
      "spec_of hash (?st m) = (spec_of hash st)\<lparr>started := True, tids := Map.empty, next_tid := 0,
          det := (fst (det (spec_of hash st)), no_counts)\<rparr>"
      using clear_refines[OF ok alloc] by (auto elim!: wpE simp: Let_def)
    have "spec_start hash (sp_cfg st) (t_pid tsk) (spec_of hash st) =
        spec_add hash (sp_cfg st) (t_pid tsk) (spec_of hash (?st m))"
      using None idle True by (simp add: spec_start_def m(4)) (simp add: spec_add_def)
    then show ?thesis
      using add_step[OF m(2) p m(3)] tid name alive True m(1)
      by (auto simp: process_handler_def Let_def elim!: wpE)
  next
    case False
    then have nb: "sp_pids st \<noteq> pid_boot" by (auto simp: pid_boot_def spcd_get_active_threads_def)
    have "spec_start hash (sp_cfg st) (t_pid tsk) (spec_of hash st) = spec_add hash (sp_cfg st) (t_pid tsk) (spec_of hash st)"
      using None idle False by (simp add: spec_start_def)
    then show ?thesis
      using add_step[OF ok p nb] tid name alive False
      by (auto simp: process_handler_def Let_def elim!: wpE)
  qed
qed

lemma fork_refines:
  assumes ok: "sys_ok hash st" and name: "2 \<le> length comm"
  shows "wp (thread_handler hash comm ret st) (\<lambda>st'. sys_ok hash st' \<and>
     spec_of hash st' = spec_step hash ops real (sp_cfg st) (Forked comm ret) (spec_of hash st))"
proof -
  let ?pid = "sint (ucast ret :: u32)"
  obtain b where b: "check_name comm = Some b" using name by (auto simp: check_name_eq)
  have h: "hash_32_ok hash" using ok by (simp add: sys_ok_def)
  have flag: "sys_ok hash (s\<lparr>spcd_vma_shared_flag := 0\<rparr>) = sys_ok hash s"
    "spec_of hash (s\<lparr>spcd_vma_shared_flag := 0\<rparr>) = spec_of hash s" for s
    by (simp_all add: sys_ok_def spec_of_def Let_def)
  show ?thesis
  proof (cases "b \<and> 0 < ?pid")
    case False
    with b ok show ?thesis by (auto simp: thread_handler_def Let_def)
  next
    case named: True
    show ?thesis
    proof (cases "sp_pids st = pid_boot")
      case True
      have "sys_ok hash (st\<lparr>sp_pids := pid_boot, spcd_vma_shared_flag := 0\<rparr>)"
        "spec_of hash (st\<lparr>sp_pids := pid_boot, spcd_vma_shared_flag := 0\<rparr>) = spec_of hash st"
        using ok True by (simp_all add: sys_ok_def spec_of_def Let_def)
      then show ?thesis using named b boot_add[OF h] True
        by (simp add: thread_handler_def Let_def spec_add_def) (simp add: spec_of_def Let_def)
    next
      case False
      from add_step[OF ok _ False, of ?pid] named b show ?thesis
        by (auto simp: thread_handler_def Let_def flag elim!: wpE)
    qed
  qed
qed

lemma reset_refines:
  assumes ok: "sys_ok hash st"
  shows "wp (matrix_reset (sp_cfg st) (sp_matrix st) count) (\<lambda>(r, m). sys_ok hash (st\<lparr>sp_matrix := m\<rparr>) \<and>
     spec_of hash (st\<lparr>sp_matrix := m\<rparr>) = (spec_of hash st)\<lparr>det := (fst (det (spec_of hash st)), no_counts)\<rparr>)"
  using ok
proof (cases rule: sys_ok_cases)
  case boot
  have "st\<lparr>sp_matrix := sp_matrix st\<rparr> = st" by simp
  with boot ok show ?thesis by (simp add: matrix_reset_def) (simp add: spec_of_def Let_def)
next
  case run
  have cfg: "cfg_ok (sp_cfg st)" using ok by (simp add: sys_ok_def)
  note cm = cfg_ok_matrix[OF cfg]
  from run(3) have old: "matrix (sp_matrix st) = None \<or> matrix_wf (max_threads_bits (sp_cfg st)) (sp_matrix st)" by simp
  obtain a where a: "matrix (sp_matrix st) = Some a" using run(3) by (auto simp: matrix_wf_def)
  obtain m where m: "spcd_comm_init (sp_cfg st) None (sp_matrix st) = Some m"
    "matrix_wf (max_threads_bits (sp_cfg st)) m" "\<forall>k l. pair_count (sp_cfg st) m k l = 0"
    using comm_init_ok[OF cm(1-3) old, of None] a by auto
  then have "matrix_reset (sp_cfg st) (sp_matrix st) count = Some (count, m)"
    using a by (simp add: spcd_comm_init_def matrix_reset_def Let_def split: if_splits)
  moreover have "pair_count (sp_cfg st) m = no_counts" using m(3) by (simp add: no_counts_def fun_eq_iff)
  ultimately show ?thesis using m(2) run(1,2) ok
    by (simp add: sys_ok_def) (simp add: spec_of_def Let_def)
qed

lemma cfg_change_refines:
  fixes nf :: int
  assumes ok: "sys_ok hash st" and shift: "0 \<le> sh" "sh \<le> 12"
  defines "st' \<equiv> st\<lparr>sp_cfg := (sp_cfg st)\<lparr>spcd_shift := sh, spcd_num_faults := nf\<rparr>\<rparr>"
  shows "sys_ok hash st'" "spec_of hash st' = spec_of hash st"
proof -
  let ?cfg = "(sp_cfg st)\<lparr>spcd_shift := sh, spcd_num_faults := nf\<rparr>"
  have "mem_wf ?cfg = mem_wf (sp_cfg st)" by (intro ext) (simp add: mem_wf_def)
  moreover have "cfg_ok ?cfg" using ok shift by (simp add: sys_ok_def cfg_ok_def)
  ultimately show "sys_ok hash st'" using ok by (simp add: st'_def sys_ok_def)
  have slot: "mem_slot hash ?cfg = mem_slot hash (sp_cfg st)" by (intro ext) (simp add: mem_slot_def)
  have "block_window hash ?cfg = block_window hash (sp_cfg st)"
    by (intro ext) (simp only: block_window_def slot)
  moreover have bits: "max_threads_bits ?cfg = max_threads_bits (sp_cfg st)" by simp
  have "pair_count ?cfg = pair_count (sp_cfg st)"
    by (intro ext) (simp only: pair_count_def bits)
  ultimately show "spec_of hash st' = spec_of hash st" by (simp add: st'_def spec_of_def Let_def)
qed

lemma small_sint: "unat (v :: u32) \<le> 12 \<Longrightarrow> 0 \<le> sint v \<and> sint v \<le> 12"
proof -
  assume v: "unat v \<le> 12"
  then have "int (unat v) \<le> int 12" by (simp only: of_nat_le_iff)
  then have u: "uint v \<le> 12" by (simp only: uint_nat of_nat_numeral)
  then have "uint v < 2 ^ 31" by (rule le_less_trans) simp
  from sint_small[OF this] u uint_ge_0[of v] show ?thesis by simp
qed

lemma event_refines:
  assumes ok: "sys_ok hash st" and ev: "event_ok k st e" and pfn: "pfn_ok ops"
  shows "wp (sys_exec hash ops k e st) (\<lambda>(out, st'). sys_ok hash st' \<and>
     spec_of hash st' = spec_step hash ops (fix_pte_is_real st) (sp_cfg st) e (spec_of hash st))"
proof (cases e)
  case (PageFault pid address pte cycles)
  with fault_refines[OF ok _ pfn, of pid cycles address pte] ev show ?thesis by (auto elim!: wpE)
next
  case (Accounting tsk env)
  have b: "\<exists>b. check_name (t_comm tsk) = Some b" using ev Accounting by (simp add: check_name_eq)
  show ?thesis
  proof (cases "t_flags tsk AND PF_EXITING \<noteq> 0")
    case True
    with exit_refines[OF ok _ _ True, of env] ev Accounting show ?thesis by (auto elim!: wpE)
  next
    case alive: False
    show ?thesis
    proof (cases "check_name (t_comm tsk) = Some True")
      case True
      with start_refines[OF ok _ _ True alive, of env] ev Accounting alive show ?thesis by (auto elim!: wpE)
    next
      case False
      with b have b: "check_name (t_comm tsk) = Some False" by (metis (full_types))
      have h: "hash_32_ok hash" using ok by (simp add: sys_ok_def)
      have "\<exists>t. spcd_get_tid hash (t_pid tsk) (sp_pids st) = Some t"
        using ok boot_tid[OF h] ev Accounting spcd_get_tid_live[of hash "max_threads (sp_cfg st)" "sp_pids st" "t_pid tsk"]
        by (auto elim!: sys_ok_cases)
      with b alive Accounting ok show ?thesis by (auto simp: process_handler_def Let_def)
    qed
  qed
next
  case (Forked comm ret)
  with fork_refines[OF ok, of comm ret ops "fix_pte_is_real st"] ev show ?thesis by (auto elim!: wpE)
next
  case (WriteReset count)
  with reset_refines[OF ok, of count] show ?thesis by (auto elim!: wpE)
next
  case (WriteShift bytes)
  with ev obtain v where v: "read_number k bytes = Some v" "unat v \<le> 12" by (auto split: option.splits)
  have same: "(sp_cfg st)\<lparr>spcd_shift := sint v, spcd_num_faults := spcd_num_faults (sp_cfg st)\<rparr> = (sp_cfg st)\<lparr>spcd_shift := sint v\<rparr>"
    by simp
  have "0 \<le> sint v" "sint v \<le> 12" using small_sint[OF v(2)] by simp_all
  from cfg_change_refines[OF ok this, of "spcd_num_faults (sp_cfg st)", unfolded same]
  show ?thesis unfolding WriteShift using v(1) by (simp add: set_shift_def)
next
  case (WriteFaults bytes)
  with ev obtain v where v: "read_number k bytes = Some v" by auto
  have "cfg_ok (sp_cfg st)" using ok by (simp add: sys_ok_def)
  then have sh: "0 \<le> spcd_shift (sp_cfg st)" "spcd_shift (sp_cfg st) \<le> 12" by (simp_all add: cfg_ok_def)
  have same: "(sp_cfg st)\<lparr>spcd_shift := spcd_shift (sp_cfg st), spcd_num_faults := sint v\<rparr> = (sp_cfg st)\<lparr>spcd_num_faults := sint v\<rparr>"
    by simp
  from cfg_change_refines[OF ok sh, of "sint v", unfolded same]
  show ?thesis unfolding WriteFaults using v by (simp add: set_num_faults_def)
qed

section \<open>Reachable states\<close>

inductive sys_reaches ::
  "hash_fun \<Rightarrow> pte_ops \<Rightarrow> (string \<Rightarrow> u32 option) \<Rightarrow> spcd_state \<Rightarrow> event list \<Rightarrow> spcd_state \<Rightarrow> bool"
  for hash ops k st where
  start: "sys_reaches hash ops k st [] st"
| event: "sys_reaches hash ops k st es st1 \<Longrightarrow> event_ok k st1 e \<Longrightarrow>
    sys_exec hash ops k e st1 = Some (out, st2) \<Longrightarrow> sys_reaches hash ops k st (es @ [e]) st2"

lemma reaches_ok:
  assumes "sys_reaches hash ops k st es st'" "sys_ok hash st" "pfn_ok ops"
  shows "sys_ok hash st'"
  using assms
proof induction
  case (event es st1 e out st2)
  then have "sys_ok hash st1" by simp
  from event_refines[OF this event.hyps(2) event.prems(2)] event.hyps(3) show ?case by simp
qed

text \<open>The module as it is loaded, with a small table.\<close>

definition loaded :: spcd_state where
  "loaded = \<lparr>sp_cfg = small_cfg, sp_pids = pid_boot, sp_mem = small_mem, sp_matrix = \<lparr>matrix = None, nthreads = 0\<rparr>,
     sp_pf = fresh_pf, spcd_pf = 0, spcd_pte_fixes = 0, spcd_vma_shared_flag = 1, fix_pte_is_real = True\<rparr>"

definition kernel_answers :: answers where
  "kernel_answers = \<lparr>vmalloc_mem = True, kmalloc_proc = True, kallsyms = True, kmalloc_matrix = Some (replicate 16 7)\<rparr>"

lemma loaded_ok: "sys_ok low_bits_hash loaded"
  using small_detector_wf
  by (simp add: sys_ok_def loaded_def cfg_ok_def detector_wf_def dim_int_def) (simp add: fresh_pf_def)

definition small_ops :: pte_ops where
  "small_ops = bit_ops\<lparr>pte_pfn := \<lambda>x. drop_bit 12 x\<rparr>"

lemma small_ops_ok: "pfn_ok small_ops"
proof -
  have "unat (drop_bit 12 x :: u64) < 2 ^ 52" for x
  proof -
    have "unat x < 2 ^ 64" using unsigned_less[of x] by simp
    then have "unat x < 2 ^ 12 * 2 ^ 52" by simp
    then have "unat x div 2 ^ 12 < 2 ^ 52" by (simp add: div_less_iff_less_mult)
    then show ?thesis by (simp add: drop_bit_eq_div unat_div_distrib)
  qed
  then show ?thesis by (simp add: pfn_ok_def small_ops_def)
qed

section \<open>Properties\<close>

text \<open>
  C1: the module implements its specification. In a state that satisfies the invariant, every event that
  the kernel or the user may send is handled without undefined behaviour, the invariant holds again, and
  the effect on the numbering of threads, on the windows of the blocks and on the communication counts is
  that of one \<open>spec_step\<close>: a fault of a numbered thread is one access to the block of its physical
  address; a \<open>.x\<close> process that is accounted for the first time, or forked, gets the next number unless
  the numbers are used up or its slot is taken; the first thread of an application resets numbers and
  counts; the exit of the last one empties all windows; a write to the reset file zeroes the counts.
\<close>
theorem module_refinement:
  assumes "sys_ok hash st" "event_ok k st e" "pfn_ok ops"
  shows "\<exists>out st'. sys_exec hash ops k e st = Some (out, st') \<and> sys_ok hash st' \<and>
    spec_of hash st' = spec_step hash ops (fix_pte_is_real st) (sp_cfg st) e (spec_of hash st)"
  using event_refines[OF assms] by (auto elim!: wpE)

theorem module_refinement_witness:
  "\<exists>out st'. sys_exec low_bits_hash small_ops decimal_kstrtouint (Accounting \<lparr>t_pid = 42, t_comm = ''a.x'', t_flags = 0\<rparr> kernel_answers) loaded = Some (out, st') \<and>
    tids (spec_of low_bits_hash st') 42 = Some 0 \<and> next_tid (spec_of low_bits_hash st') = 1"
proof -
  have ev: "event_ok decimal_kstrtouint loaded (Accounting \<lparr>t_pid = 42, t_comm = ''a.x'', t_flags = 0\<rparr> kernel_answers)"
    by (simp add: matrix_alloc_ok_def loaded_def kernel_answers_def)
  have name: "check_name ''a.x'' = Some True" by (simp add: check_name_eq)
  have "tids (spec_of low_bits_hash loaded) = Map.empty" "max_threads (sp_cfg loaded) = 4"
    by (simp_all add: spec_of_def loaded_def Let_def)
  with module_refinement[OF loaded_ok ev small_ops_ok] name show ?thesis
    by (auto simp: spec_start_def spec_add_def)
qed

text \<open>
  No history of events breaks the module. From a loaded module that satisfies the invariant, every
  state that any sequence of admissible events leads to satisfies it, and every further admissible event
  is handled without undefined behaviour.
\<close>

lemma module_never_stuck:
  assumes "sys_reaches hash ops k st es st'" "sys_ok hash st" "pfn_ok ops" "event_ok k st' e"
  shows "sys_ok hash st' \<and> (\<exists>out st''. sys_exec hash ops k e st' = Some (out, st'') \<and>
    sys_reaches hash ops k st (es @ [e]) st'')"
proof -
  have ok: "sys_ok hash st'" by (rule reaches_ok[OF assms(1-3)])
  from event_refines[OF ok assms(4,3)] obtain out st'' where "sys_exec hash ops k e st' = Some (out, st'')"
    by (auto elim!: wpE)
  with ok sys_reaches.event[OF assms(1,4) this] show ?thesis by blast
qed

lemma module_never_stuck_example:
  "\<exists>out st''. sys_exec low_bits_hash small_ops decimal_kstrtouint (Forked ''a.x'' 43) loaded = Some (out, st'') \<and>
    sys_reaches low_bits_hash small_ops decimal_kstrtouint loaded [Forked ''a.x'' 43] st''"
  using module_never_stuck[OF sys_reaches.start loaded_ok small_ops_ok, of decimal_kstrtouint "Forked ''a.x'' 43"]
  by auto

text \<open>
  C38: a fork can hide the start of an application. When no thread is alive after an earlier application
  and a \<open>.x\<close> process forks before its own accounting, while a number is left, the child is numbered after
  the dead threads, and the accounting of the parent then keeps the child's number and gives the parent the
  next one or none: neither event clears the numbers or the matrix, which still holds the counts of the
  earlier application.
\<close>
theorem fork_before_accounting:
  assumes "sys_ok hash st" "sp_pids st \<noteq> pid_boot" "spcd_get_active_threads (sp_pids st) = 0"
    and "spcd_get_num_threads (sp_pids st) < max_threads (sp_cfg st)"
    and "check_name comm = Some True" "sint (ucast ret :: u32) = child" "0 < child"
    and "0 < t_pid tsk" "t_pid tsk \<noteq> child" "check_name (t_comm tsk) = Some True" "t_flags tsk AND PF_EXITING = 0"
  shows "\<exists>st1 out st2. thread_handler hash comm ret st = Some st1 \<and>
    process_handler hash env tsk st1 = Some (out, st2) \<and>
    sp_matrix st2 = sp_matrix st \<and>
    spcd_get_tid hash child (sp_pids st1) = Some (spcd_get_num_threads (sp_pids st)) \<and>
    spcd_get_tid hash child (sp_pids st2) = Some (spcd_get_num_threads (sp_pids st)) \<and>
    (\<exists>t. spcd_get_tid hash (t_pid tsk) (sp_pids st2) = Some t \<and> (t = spcd_get_num_threads (sp_pids st) + 1 \<or> t = -1))"
proof -
  from assms(1,2) have wf: "pid_wf hash (max_threads (sp_cfg st)) (sp_pids st)" by (auto elim!: sys_ok_cases)
  have c: "child \<noteq> -1" "t_pid tsk \<noteq> -1" using assms(7,8) by simp_all
  have none: "live hash (sp_pids st) = Map.empty" using active_zero_iff[OF wf] assms(3) by simp
  then have "ps_pid (spcd_pid (sp_pids st) ! pid_slot hash child) = -1"
    using slot_taken_iff[OF wf, of child] by simp
  then obtain pids where add: "spcd_add_pid hash (max_threads (sp_cfg st)) child (sp_pids st) =
      Some (spcd_num_threads (sp_pids st), pids)"
    using assms(4) by (simp add: add_pid_cases[OF wf] Let_def spcd_get_num_threads_def)
  have n: "spcd_num_threads (sp_pids st) \<noteq> -1" using wf by (simp add: pid_wf_def)
  note ok = add_pid_success[OF wf c(1) add n]
  have act: "spcd_get_active_threads pids \<noteq> 0" using ok(6) assms(3) by (simp add: spcd_get_active_threads_def)
  have tid: "spcd_get_tid hash (t_pid tsk) pids = Some (-1)" "spcd_get_tid hash child pids = Some (spcd_num_threads (sp_pids st))"
    using spcd_get_tid_live[OF ok(2) c(2)] spcd_get_tid_live[OF ok(2) c(1)] ok(4) none assms(9) by simp_all
  obtain t2 pids2 where add2: "spcd_add_pid hash (max_threads (sp_cfg st)) (t_pid tsk) pids = Some (t2, pids2)"
    by (metis add_pid_cases[OF ok(2)] surj_pair)
  have tid2: "spcd_get_tid hash child pids2 = Some (spcd_num_threads (sp_pids st)) \<and>
      (\<exists>t. spcd_get_tid hash (t_pid tsk) pids2 = Some t \<and> (t = spcd_num_threads (sp_pids st) + 1 \<or> t = -1))"
  proof (cases "t2 = -1")
    case True
    then have "pids2 = pids" using add2 ok(2,5) by (auto simp: add_pid_cases[OF ok(2)] Let_def pid_wf_def split: if_splits)
    with tid show ?thesis by simp
  next
    case False
    note ok2 = add_pid_success[OF ok(2) c(2) add2 False]
    show ?thesis
      using spcd_get_tid_live[OF ok2(2) c(1)] spcd_get_tid_live[OF ok2(2) c(2)] ok2(1,4) ok(4,5) assms(9) by simp
  qed
  show ?thesis
    using assms add act tid add2 tid2
    by (simp add: thread_handler_def process_handler_def Let_def spcd_get_num_threads_def)
qed

text \<open>An earlier application has left counts of five and no living thread.\<close>

definition between :: spcd_state where
  "between = loaded\<lparr>sp_pids := spcd_pid_clear pid_boot, sp_matrix := \<lparr>matrix = Some (replicate 16 5), nthreads = 0\<rparr>\<rparr>"

lemma between_ok: "sys_ok low_bits_hash between" "sp_pids between \<noteq> pid_boot"
proof -
  have wf: "pid_wf low_bits_hash 4 (spcd_pid_clear pid_boot)" by (rule pid_clear_wf) simp_all
  then show "sp_pids between \<noteq> pid_boot" using boot_not_wf by (auto simp: between_def)
  show "sys_ok low_bits_hash between"
    using loaded_ok wf by (simp add: sys_ok_def between_def matrix_wf_def) (simp add: loaded_def)
qed

theorem fork_before_accounting_witness:
  "\<exists>st1 out st2. thread_handler low_bits_hash ''a.x'' 43 between = Some st1 \<and>
    process_handler low_bits_hash kernel_answers \<lparr>t_pid = 42, t_comm = ''a.x'', t_flags = 0\<rparr> st1 = Some (out, st2) \<and>
    get_comm 2 (sp_matrix st2) 0 1 = Some 5"
proof -
  have name: "check_name ''a.x'' = Some True" by (simp add: check_name_eq)
  have count: "get_comm 2 (sp_matrix between) 0 1 = Some 5"
    by (simp add: between_def get_comm_def mat_index_def shl_int_def cint_def in_int_def)
  have active: "spcd_get_active_threads (sp_pids between) = 0"
    "spcd_get_num_threads (sp_pids between) < max_threads (sp_cfg between)"
    by (simp_all add: between_def loaded_def spcd_get_active_threads_def spcd_get_num_threads_def spcd_pid_clear_def)
  show ?thesis
    using fork_before_accounting[OF between_ok active name, of 43 43 "\<lparr>t_pid = 42, t_comm = ''a.x'', t_flags = 0\<rparr>" kernel_answers]
      name count by auto
qed

end
