(* ===== verification/Cdsm_History.thy ===== *)
theory Cdsm_History
  imports Cdsm_Probes
begin

text \<open>
  The module over a whole history of events (\<open>src/probes.c\<close>, \<open>src/procfs.c\<close>): the refinement of a single event lifts
  to every sequence, because the module with its settings is a simulation. The settings belong to the abstract state
  here, as two of the files change them.
\<close>

section \<open>What the events leave alone\<close>

lemma fault_keeps: "pte_fault_handler hash ops cycles pid address pte st = Some (pte', st') \<Longrightarrow>
    sp_cfg st' = sp_cfg st \<and> fix_pte_is_real st' = fix_pte_is_real st"
  by (cases "fix_pte ops (fix_pte_is_real st) (pte, spcd_pte_fixes st)")
    (auto simp: pte_fault_handler_def Let_def bind_eq_Some_conv split: if_splits)

lemma reset_keeps: "reset_stats env st = Some st' \<Longrightarrow> sp_cfg st' = sp_cfg st \<and> fix_pte_is_real st' = fix_pte_is_real st"
  by (auto simp: reset_stats_def Let_def bind_eq_Some_conv)

lemma process_keeps: "process_handler hash env tsk st = Some (out, st') \<Longrightarrow>
    sp_cfg st' = sp_cfg st \<and> fix_pte_is_real st' = fix_pte_is_real st"
  by (auto simp: process_handler_def Let_def bind_eq_Some_conv split: if_splits dest: reset_keeps)

lemma thread_keeps: "thread_handler hash comm ret st = Some st' \<Longrightarrow> sp_cfg st' = sp_cfg st \<and> fix_pte_is_real st' = fix_pte_is_real st"
  by (auto simp: thread_handler_def Let_def bind_eq_Some_conv split: if_splits)

text \<open>The settings after an event.\<close>

fun cfg_step :: "(string \<Rightarrow> u32 option) \<Rightarrow> event \<Rightarrow> config \<Rightarrow> config" where
  "cfg_step k (WriteShift bytes) cfg = (case read_number k bytes of None \<Rightarrow> cfg | Some v \<Rightarrow> cfg\<lparr>spcd_shift := sint v\<rparr>)"
| "cfg_step k (WriteFaults bytes) cfg = (case read_number k bytes of None \<Rightarrow> cfg | Some v \<Rightarrow> cfg\<lparr>spcd_num_faults := sint v\<rparr>)"
| "cfg_step k e cfg = cfg"

lemma exec_settings:
  "sys_exec hash ops kst e st = Some (out, st') \<Longrightarrow> sp_cfg st' = cfg_step kst e (sp_cfg st) \<and> fix_pte_is_real st' = fix_pte_is_real st"
  by (cases e)
    (auto simp: set_shift_def set_num_faults_def Let_def bind_eq_Some_conv split: if_splits
      dest: fault_keeps process_keeps thread_keeps)

lemma cfg_step_keeps:
  "max_threads (cfg_step k e cfg) = max_threads cfg" "max_threads_bits (cfg_step k e cfg) = max_threads_bits cfg"
  "do_pf (cfg_step k e cfg) = do_pf cfg"
  by (cases e; simp split: option.splits)+

lemma exec_keeps:
  "sys_exec hash ops kst e st = Some (out, st') \<Longrightarrow> max_threads (sp_cfg st') = max_threads (sp_cfg st) \<and>
    max_threads_bits (sp_cfg st') = max_threads_bits (sp_cfg st) \<and> do_pf (sp_cfg st') = do_pf (sp_cfg st)"
  by (simp add: exec_settings cfg_step_keeps)

lemma reaches_keeps:
  "sys_reaches hash ops kst st es st' \<Longrightarrow> max_threads (sp_cfg st') = max_threads (sp_cfg st) \<and>
    max_threads_bits (sp_cfg st') = max_threads_bits (sp_cfg st) \<and> do_pf (sp_cfg st') = do_pf (sp_cfg st)"
  by (induction rule: sys_reaches.induct) (use exec_keeps in fastforce)+

section \<open>The history\<close>

text \<open>A run of the module, and what its specification makes of the settings and the abstract module.\<close>

definition run_events :: "hash_fun \<Rightarrow> pte_ops \<Rightarrow> (string \<Rightarrow> u32 option) \<Rightarrow> event list \<Rightarrow> spcd_state \<Rightarrow> spcd_state option" where
  "run_events hash ops k = foldM (\<lambda>e st. map_option snd (sys_exec hash ops k e st))"

definition spec_event ::
  "hash_fun \<Rightarrow> pte_ops \<Rightarrow> (string \<Rightarrow> u32 option) \<Rightarrow> bool \<Rightarrow> event \<Rightarrow> config \<times> module_spec \<Rightarrow> config \<times> module_spec" where
  "spec_event hash ops k real e s = (cfg_step k e (fst s), spec_step hash ops real (fst s) e (snd s))"

text \<open>Whether an event is admissible depends on the state only by the size of the matrix.\<close>

lemma event_ok_cong: "max_threads_bits (sp_cfg st) = max_threads_bits (sp_cfg st') \<Longrightarrow> event_ok k st e = event_ok k st' e"
  by (cases e) (simp_all add: matrix_alloc_ok_def)

interpretation module: simulation "\<lambda>e st. map_option snd (sys_exec hash ops k e st)" "event_ok k st0"
  "\<lambda>st. sys_ok hash st \<and> pfn_ok ops \<and> max_threads_bits (sp_cfg st) = max_threads_bits (sp_cfg st0) \<and> fix_pte_is_real st = real"
  "\<lambda>st. (sp_cfg st, spec_of hash st)" "spec_event hash ops k real"
  for hash :: hash_fun and ops :: pte_ops and k :: "string \<Rightarrow> u32 option" and st0 :: spcd_state and real :: bool
proof unfold_locales
  fix st e
  assume st: "sys_ok hash st \<and> pfn_ok ops \<and> max_threads_bits (sp_cfg st) = max_threads_bits (sp_cfg st0) \<and> fix_pte_is_real st = real"
    and e: "event_ok k st0 e"
  have "event_ok k st e" using st e event_ok_cong[of st st0 k e] by simp
  then obtain out st' where run: "sys_exec hash ops k e st = Some (out, st')" and st': "sys_ok hash st'"
    "spec_of hash st' = spec_step hash ops (fix_pte_is_real st) (sp_cfg st) e (spec_of hash st)"
    using event_refines[of hash st k e ops] st by (auto elim!: wpE)
  with exec_settings[OF run] st
  show "wp (map_option snd (sys_exec hash ops k e st)) (\<lambda>s'. (sys_ok hash s' \<and> pfn_ok ops \<and>
      max_threads_bits (sp_cfg s') = max_threads_bits (sp_cfg st0) \<and> fix_pte_is_real s' = real) \<and>
      (sp_cfg s', spec_of hash s') = spec_event hash ops k real e (sp_cfg st, spec_of hash st))"
    by (simp add: spec_event_def cfg_step_keeps)
qed

text \<open>A run and reachability agree.\<close>

lemma reaches_trans:
  "sys_reaches hash ops k st1 es st2 \<Longrightarrow> event_ok k st e \<Longrightarrow> sys_exec hash ops k e st = Some (out, st1) \<Longrightarrow>
    sys_reaches hash ops k st (e # es) st2"
proof (induction rule: sys_reaches.induct)
  case start
  then show ?case using sys_reaches.event[OF sys_reaches.start, of k st e hash ops out st1] by simp
next
  case (event es st2 e' out' st3)
  then have "sys_reaches hash ops k st (e # es) st2" by blast
  from sys_reaches.event[OF this event.hyps(2,3)] show ?case by simp
qed

lemma run_events_reaches:
  assumes "run_events hash ops k es st = Some st'" "\<forall>e \<in> set es. event_ok k st e"
  shows "sys_reaches hash ops k st es st'"
  using assms
proof (induction es arbitrary: st)
  case Nil
  then show ?case by (simp add: run_events_def sys_reaches.start)
next
  case (Cons e es)
  then obtain out st1 where st1: "sys_exec hash ops k e st = Some (out, st1)" "run_events hash ops k es st1 = Some st'"
    by (auto simp: run_events_def bind_eq_Some_conv)
  have "\<forall>e \<in> set es. event_ok k st1 e" using Cons.prems(2) exec_keeps[OF st1(1)] event_ok_cong[of st1 st k] by simp
  from reaches_trans[OF Cons.IH[OF st1(2) this] _ st1(1)] Cons.prems(2) show ?case by simp
qed

section \<open>Properties\<close>

text \<open>
  C2: the module over a whole history. In a state that satisfies the invariant, every sequence of admissible events
  is handled without undefined behaviour, and afterwards the settings, the numbers of the threads, the windows of the
  blocks and the counts of communication are those that the specification computes from the sequence of events alone.
\<close>
theorem module_history:
  assumes "sys_ok hash st" "pfn_ok ops" "\<forall>e \<in> set es. event_ok k st e"
  shows "\<exists>st'. run_events hash ops k es st = Some st' \<and> sys_ok hash st' \<and> sys_reaches hash ops k st es st' \<and>
    (sp_cfg st', spec_of hash st') = fold (spec_event hash ops k (fix_pte_is_real st)) es (sp_cfg st, spec_of hash st)"
proof -
  obtain st' where "run_events hash ops k es st = Some st'" "sys_ok hash st'"
    "(sp_cfg st', spec_of hash st') = fold (spec_event hash ops k (fix_pte_is_real st)) es (sp_cfg st, spec_of hash st)"
    using module.history[of hash st ops st "fix_pte_is_real st" es k] assms unfolding run_events_def wp_iff by auto
  with run_events_reaches[OF _ assms(3)] show ?thesis by blast
qed

text \<open>
  Two threads of an application: the accounting of the first, its fork, and a fault of each on the same page. The
  specification counts one event between the threads 0 and 1.
\<close>

definition two_threads :: "event list" where
  "two_threads = [Accounting \<lparr>t_pid = 42, t_comm = ''a.x'', t_flags = 0\<rparr> kernel_answers, Forked ''a.x'' 43,
     PageFault 42 8 0x5001 77, PageFault 43 16 0x5001 78]"

lemma two_threads_ok: "\<forall>e \<in> set two_threads. event_ok decimal_kstrtouint loaded e"
  by (simp add: two_threads_def matrix_alloc_ok_def loaded_def kernel_answers_def)

lemma two_threads_spec:
  "fold (spec_event low_bits_hash small_ops decimal_kstrtouint True) two_threads (small_cfg, spec_of low_bits_hash loaded) =
    (small_cfg, \<lparr>started = True, tids = [42 \<mapsto> 0, 43 \<mapsto> 1], next_tid = 2,
       det = spec_access (mem_slot low_bits_hash small_cfg) 1 5 (spec_access (mem_slot low_bits_hash small_cfg) 0 5 (\<lambda>p. [], no_counts))\<rparr>)"
proof -
  have name: "check_name ''a.x'' = Some True" by (simp add: check_name_eq)
  have s0: "spec_of low_bits_hash loaded = \<lparr>started = False, tids = Map.empty, next_tid = 0, det = (\<lambda>p. [], no_counts)\<rparr>"
    by (simp add: spec_of_def loaded_def pid_boot_def fun_eq_iff)
  have pfn: "pte_pfn small_ops (fst (fix_pte small_ops True (0x5001, 0))) = 5"
    by (simp add: fix_pte_def fix_pte_real_def small_ops_def bit_ops_def drop_bit_eq_div)
  have block: "fault_block small_cfg 5 8 = 5" "fault_block small_cfg 5 16 = 5"
    by (simp_all add: fault_block_def PAGE_SHIFT_def PAGE_SIZE_def)
  have slot: "pid_slot low_bits_hash 42 \<noteq> pid_slot low_bits_hash 43" by (simp add: low_bits_slot)
  have s1: "spec_start low_bits_hash small_cfg 42 (spec_of low_bits_hash loaded) =
      \<lparr>started = True, tids = [42 \<mapsto> 0], next_tid = 1, det = (\<lambda>p. [], no_counts)\<rparr>"
    by (simp add: s0 spec_start_def spec_add_def)
  have s2: "spec_add low_bits_hash small_cfg 43 \<lparr>started = True, tids = [42 \<mapsto> 0], next_tid = 1, det = (\<lambda>p. [], no_counts)\<rparr> =
      \<lparr>started = True, tids = [42 \<mapsto> 0, 43 \<mapsto> 1], next_tid = 2, det = (\<lambda>p. [], no_counts)\<rparr>"
    using slot by (simp add: spec_add_def)
  show ?thesis
    by (simp add: two_threads_def spec_event_def name s1 s2 pfn block PF_EXITING_def Let_def)
qed

theorem module_history_witness:
  "\<exists>st'. run_events low_bits_hash small_ops decimal_kstrtouint two_threads loaded = Some st' \<and>
    tids (spec_of low_bits_hash st') 43 = Some 1 \<and> snd (det (spec_of low_bits_hash st')) 1 0 = 1"
proof -
  have set: "fix_pte_is_real loaded" "sp_cfg loaded = small_cfg" by (simp_all add: loaded_def)
  obtain st' where "run_events low_bits_hash small_ops decimal_kstrtouint two_threads loaded = Some st'"
    "spec_of low_bits_hash st' = snd (fold (spec_event low_bits_hash small_ops decimal_kstrtouint True) two_threads (small_cfg, spec_of low_bits_hash loaded))"
    using module_history[OF loaded_ok small_ops_ok two_threads_ok] set by (metis snd_conv)
  then show ?thesis
    by (intro exI[of _ st']) (simp add: two_threads_spec spec_access_def communicates_def touch_def no_counts_def)
qed

end
