(* ===== verification/Cdsm_Lib.thy ===== *)
theory Cdsm_Lib
  imports Cdsm_Matrix
begin

text \<open>
  The arithmetic of \<open>src/libmapping/lib.c\<close>: powers of two, logarithms, the row pointers of a matrix, and
  the tokenizer. A loop that does not end and a shift that C leaves undefined are the value \<open>None\<close>.
\<close>

section \<open>The code\<close>

text \<open>\<open>for (r = 1; r < v; r <<= 1)\<close> on 64 bits.\<close>

partial_function (option) next_power_loop :: "u64 \<Rightarrow> u64 \<Rightarrow> u64 option" where
  "next_power_loop v r = (if r < v then next_power_loop v (push_bit 1 r) else Some r)"

definition libmapping_get_next_power_of_two :: "u64 \<Rightarrow> u64 option" where
  "libmapping_get_next_power_of_two v = next_power_loop v 1"

text \<open>\<open>for (r = 0; (1 << r) < v; r++)\<close>: the shifted 1 is an \<open>int\<close>, the counter has eight bits.\<close>

partial_function (option) log2_loop :: "u64 \<Rightarrow> u8 \<Rightarrow> u8 option" where
  "log2_loop v r = Option.bind (shl_int 1 (uint r)) (\<lambda>p.
     if word_of_int p < v then log2_loop v (r + 1) else Some r)"

definition libmapping_get_log2 :: "u64 \<Rightarrow> u8 option" where
  "libmapping_get_log2 v = log2_loop v 0"

text \<open>
  The size in bytes that \<open>libmapping_matrix_malloc\<close> asks for and the offsets of its row pointers, both
  computed with 32 bits.
\<close>

definition libmapping_matrix_malloc :: "u32 \<Rightarrow> u32 \<Rightarrow> u32 \<Rightarrow> u32 \<times> u32 list" where
  "libmapping_matrix_malloc nrows ncols type_size =
     (nrows * ncols * type_size, map (\<lambda>i. of_nat i * ncols * type_size) [0..<max 1 (unat nrows)])"

text \<open>\<open>alloc\<close> is what \<open>kmalloc\<close> returns.\<close>

definition libmapping_comm_matrix_init :: "u32 list option \<Rightarrow> u32 \<Rightarrow> spcd_comm_matrix" where
  "libmapping_comm_matrix_init alloc n = \<lparr>matrix = alloc, nthreads = unat n\<rparr>"

text \<open>
  \<open>libmapping_strtok\<close> on the bytes at \<open>str\<close> before the terminator: the token and what is left, \<open>None\<close>
  for NULL. \<open>room\<close> is what remains of the buffer; the assertion on it only prints, so a token that does
  not fit with its terminator is written past the buffer.
\<close>

fun strtok_loop :: "string \<Rightarrow> char \<Rightarrow> nat \<Rightarrow> string \<Rightarrow> (string \<times> string) option" where
  "strtok_loop p del room tok = (if room = 0 then None else
     (case p of [] \<Rightarrow> Some (tok, p)
      | c # cs \<Rightarrow> if c = del then Some (tok, p) else strtok_loop cs del (room - 1) (tok @ [c])))"

definition libmapping_strtok :: "string \<Rightarrow> char \<Rightarrow> nat \<Rightarrow> (string \<times> string option) option" where
  "libmapping_strtok str del bsize = do {
     (tok, p) \<leftarrow> strtok_loop str del bsize [];
     Some (tok, if p \<noteq> [] then Some (tl p) else if tok \<noteq> [] then Some p else None)
   }"

section \<open>Powers of two\<close>

lemma unat_exp: "k < 64 \<Longrightarrow> unat (2 ^ k :: u64) = 2 ^ k"
proof -
  assume "k < 64"
  then have "(2::nat) ^ k < 2 ^ 64" by (intro power_strict_increasing) auto
  then have "unat (word_of_nat (2 ^ k) :: u64) = 2 ^ k" by (simp add: unat_of_nat del: of_nat_power)
  then show ?thesis by simp
qed

lemma next_power_run:
  assumes "n \<le> 63" "k \<le> n" "unat v \<le> 2 ^ n" "\<And>i. k \<le> i \<Longrightarrow> i < n \<Longrightarrow> 2 ^ i < unat v"
  shows "next_power_loop v (2 ^ k) = Some (2 ^ n)"
  using assms(2,4)
proof (induction "n - k" arbitrary: k)
  case 0
  have "unat (2 ^ n :: u64) = 2 ^ n" using assms(1) by (simp add: unat_exp)
  then have "\<not> (2 ^ n :: u64) < v" using assms(3) by (simp add: word_less_nat_alt)
  with 0 show ?case by (subst next_power_loop.simps) simp
next
  case (Suc d)
  then have "k < n" by simp
  have "unat (2 ^ k :: u64) = 2 ^ k" using assms(1) \<open>k < n\<close> by (simp add: unat_exp)
  then have "(2 ^ k :: u64) < v" using Suc.prems(2)[of k] \<open>k < n\<close> by (simp add: word_less_nat_alt)
  moreover have "push_bit 1 (2 ^ k :: u64) = 2 ^ Suc k" by (simp add: push_bit_eq_mult mult.commute)
  moreover have "next_power_loop v (2 ^ Suc k) = Some (2 ^ n)"
    using Suc \<open>k < n\<close> by (intro Suc.hyps(1)) auto
  ultimately show ?case by (subst next_power_loop.simps) (simp only: if_True)
qed

lemma next_power_ok:
  assumes "unat v \<le> 2 ^ 63"
  shows "\<exists>n \<le> 63. libmapping_get_next_power_of_two v = Some (2 ^ n) \<and> unat v \<le> 2 ^ n \<and>
    (\<forall>i < n. 2 ^ i < unat v)"
proof -
  define n where "n = (LEAST n. unat v \<le> 2 ^ n)"
  have le: "unat v \<le> 2 ^ n" unfolding n_def by (rule LeastI[of _ 63]) (rule assms)
  have n: "n \<le> 63" unfolding n_def by (rule Least_le) (rule assms)
  have lt: "2 ^ i < unat v" if "i < n" for i
    using not_less_Least[of i "\<lambda>n. unat v \<le> 2 ^ n"] that by (auto simp: n_def)
  have "next_power_loop v (2 ^ 0) = Some (2 ^ n)"
    by (rule next_power_run) (use n le lt in auto)
  with n le lt show ?thesis by (auto simp: libmapping_get_next_power_of_two_def)
qed

text \<open>Above \<open>2 ^ 63\<close> the bit is shifted out, and zero stays zero.\<close>

lemma next_power_never:
  assumes "next_power_loop v r = Some y"
  shows "2 ^ 63 < unat v \<longrightarrow> (\<forall>k. r \<noteq> 2 ^ k)"
proof (rule next_power_loop.raw_induct[where P = "\<lambda>v r _. 2 ^ 63 < unat v \<longrightarrow> (\<forall>k. r \<noteq> 2 ^ k)", OF _ assms])
  fix loop :: "u64 \<Rightarrow> u64 \<Rightarrow> u64 option" and v r y
  assume IH: "\<And>v r y. loop v r = Some y \<Longrightarrow> 2 ^ 63 < unat v \<longrightarrow> (\<forall>k. r \<noteq> 2 ^ k)"
    and run: "(if r < v then loop v (push_bit 1 r) else Some r) = Some y"
  show "2 ^ 63 < unat v \<longrightarrow> (\<forall>k. r \<noteq> 2 ^ k)"
  proof (intro impI allI notI)
    fix k assume big: "2 ^ 63 < unat v" and k: "r = 2 ^ k"
    have "r < v"
    proof (cases "k < 64")
      case True
      then have "unat r = 2 ^ k" unfolding k by (rule unat_exp)
      also have "(2::nat) ^ k \<le> 2 ^ 63" using True by (intro power_increasing) auto
      finally show ?thesis using big by (simp add: word_less_nat_alt)
    next
      case False
      then have "r = 0" unfolding k by (simp add: exp_eq_zero_iff)
      then show ?thesis using big by (simp add: word_less_nat_alt)
    qed
    moreover have "push_bit 1 r = 2 ^ Suc k" by (simp add: k push_bit_eq_mult mult.commute)
    ultimately have "loop v (2 ^ Suc k) = Some y" using run by (simp only: if_True)
    from IH[OF this] big show False by blast
  qed
qed

section \<open>Logarithms\<close>

lemma shl_one:
  assumes "k \<le> 30"
  shows "shl_int 1 (uint (of_nat k :: u8)) = Some (2 ^ k)"
proof -
  have "unat (of_nat k :: u8) = k" using assms by (simp add: unat_of_nat)
  then have u: "uint (of_nat k :: u8) = int k" by (simp only: uint_nat)
  have "(2::int) ^ k \<le> 2 ^ 30" using assms by (intro power_increasing) auto
  moreover have "- 2147483648 \<le> (2::int) ^ k" by (rule order_trans[of _ 0]) simp_all
  ultimately show ?thesis using assms unfolding u by (simp add: shl_int_def cint_def in_int_def)
qed

lemma log2_run:
  assumes "n \<le> 30" "k \<le> n" "unat v \<le> 2 ^ n" "\<And>i. k \<le> i \<Longrightarrow> i < n \<Longrightarrow> 2 ^ i < unat v"
  shows "log2_loop v (of_nat k) = Some (of_nat n)"
  using assms(2,4)
proof (induction "n - k" arbitrary: k)
  case 0
  note sh = shl_one[OF assms(1)]
  have "unat (2 ^ n :: u64) = 2 ^ n" using assms(1) by (simp add: unat_exp)
  then have "\<not> (2 ^ n :: u64) < v" using assms(3) by (simp add: word_less_nat_alt)
  with 0 sh show ?case by (subst log2_loop.simps) simp
next
  case (Suc d)
  then have "k < n" by simp
  have sh: "shl_int 1 (uint (of_nat k :: u8)) = Some (2 ^ k)"
    by (rule shl_one) (use \<open>k < n\<close> assms(1) in simp)
  have "unat (2 ^ k :: u64) = 2 ^ k" using assms(1) \<open>k < n\<close> by (simp add: unat_exp)
  then have lt: "(2 ^ k :: u64) < v" using Suc.prems(2)[of k] \<open>k < n\<close> by (simp add: word_less_nat_alt)
  have "log2_loop v (of_nat (Suc k)) = Some (of_nat n)"
    using Suc \<open>k < n\<close> by (intro Suc.hyps(1)) auto
  with sh lt show ?case by (subst log2_loop.simps) (simp add: add.commute)
qed

text \<open>One lookup for both: the logarithm of the rounded size.\<close>

lemma log2_next_power:
  assumes "unat v \<le> 2 ^ 30"
  shows "\<exists>n \<le> 30. libmapping_get_next_power_of_two v = Some (2 ^ n) \<and> libmapping_get_log2 v = Some (of_nat n) \<and>
    libmapping_get_log2 (2 ^ n) = Some (of_nat n) \<and> unat v \<le> 2 ^ n \<and> (\<forall>i < n. 2 ^ i < unat v)"
proof -
  have "(2::nat) ^ 30 \<le> 2 ^ 63" by (intro power_increasing) auto
  with assms have "unat v \<le> 2 ^ 63" by linarith
  from next_power_ok[OF this] obtain n where n: "n \<le> 63" "libmapping_get_next_power_of_two v = Some (2 ^ n)"
    "unat v \<le> 2 ^ n" "\<forall>i < n. 2 ^ i < unat v" by blast
  have n30: "n \<le> 30"
  proof (rule ccontr)
    assume "\<not> n \<le> 30"
    then have "2 ^ 30 < unat v" using spec[OF n(4), of 30] by linarith
    with assms show False by linarith
  qed
  have "libmapping_get_log2 v = Some (of_nat n)"
    using log2_run[OF n30, of 0 v] n by (simp add: libmapping_get_log2_def)
  moreover have "libmapping_get_log2 (2 ^ n) = Some (of_nat n)"
    using log2_run[OF n30, of 0 "2 ^ n"] n30 by (simp add: libmapping_get_log2_def unat_exp)
  ultimately show ?thesis using n n30 by blast
qed

section \<open>Tokens\<close>

declare strtok_loop.simps [simp del]

lemma strtok_loop_eq:
  "strtok_loop p del room tok = (if room \<le> length (takeWhile (\<lambda>c. c \<noteq> del) p) then None
     else Some (tok @ takeWhile (\<lambda>c. c \<noteq> del) p, dropWhile (\<lambda>c. c \<noteq> del) p))"
proof (induction p arbitrary: room tok)
  case Nil
  show ?case by (subst strtok_loop.simps) simp
next
  case (Cons c cs)
  show ?case
  proof (cases "room = 0 \<or> c = del")
    case True
    then show ?thesis by (subst strtok_loop.simps) auto
  next
    case False
    then have "strtok_loop (c # cs) del room tok = strtok_loop cs del (room - 1) (tok @ [c])"
      by (subst strtok_loop.simps) simp
    with Cons.IH[of "room - 1" "tok @ [c]"] False show ?thesis by (cases room) simp_all
  qed
qed

section \<open>Rows\<close>

lemma malloc_rows:
  assumes "unat nrows * unat ncols * unat sz < 2 ^ 32" "0 < unat nrows"
  shows "libmapping_matrix_malloc nrows ncols sz = (bytes, offs) \<Longrightarrow>
    unat bytes = unat nrows * unat ncols * unat sz \<and> length offs = unat nrows \<and>
    (\<forall>i < unat nrows. unat (offs ! i) = i * unat ncols * unat sz)"
proof -
  assume eq: "libmapping_matrix_malloc nrows ncols sz = (bytes, offs)"
  have row: "unat (of_nat i * ncols * sz) = i * unat ncols * unat sz" if "i \<le> unat nrows" for i
  proof -
    have "i * unat ncols * unat sz \<le> unat nrows * unat ncols * unat sz"
      using that by (intro mult_le_mono) auto
    then have "i * unat ncols * unat sz < 2 ^ 32" using assms(1) by linarith
    moreover have "(of_nat i * ncols * sz) = (of_nat (i * unat ncols * unat sz) :: u32)" by simp
    ultimately show ?thesis by (simp only: unat_of_nat) (simp add: mod_less)
  qed
  have bytes: "bytes = of_nat (unat nrows) * ncols * sz" using eq by (simp add: libmapping_matrix_malloc_def)
  have "unat bytes = unat nrows * unat ncols * unat sz" unfolding bytes by (rule row) simp
  with row eq assms(2) show ?thesis by (auto simp: libmapping_matrix_malloc_def max_def)
qed

section \<open>Properties\<close>

text \<open>
  Rounding up to a power of two. For \<open>v\<close> up to \<open>2 ^ 63\<close> the loop ends with the least power of two that
  is not below \<open>v\<close>; for a larger \<open>v\<close> it never ends, because the bit is shifted out of the word.
\<close>

lemma next_power_spec:
  "(if unat v \<le> 2 ^ 63
    then \<exists>n \<le> 63. libmapping_get_next_power_of_two v = Some (2 ^ n) \<and> unat v \<le> 2 ^ n \<and> {i. i < n \<and> unat v \<le> 2 ^ i} = {}
    else libmapping_get_next_power_of_two v = None)"
proof (cases "unat v \<le> 2 ^ 63")
  case True
  with next_power_ok[OF True] show ?thesis by (auto simp: not_le)
next
  case False
  have "libmapping_get_next_power_of_two v = None"
  proof (cases "libmapping_get_next_power_of_two v")
    case (Some y)
    then have "next_power_loop v 1 = Some y" by (simp add: libmapping_get_next_power_of_two_def)
    from next_power_never[OF this] False show ?thesis by (auto dest: spec[of _ 0])
  qed
  with False show ?thesis by simp
qed

end
