(* ===== verification/Cdsm_Graph.thy ===== *)
theory Cdsm_Graph
  imports Cdsm_Lib
begin

text \<open>
  The graph of \<open>src/libmapping/graph.c\<close> and \<open>graph.h\<close>. A pointer into the arrays of vertices or edges is
  an index. The slots \<open>linked[i]\<close> of a vertex are its row of the shared array; a slot that was never
  written is \<open>None\<close>, as reading it is undefined. The assertions of the code only print a message, so what
  follows a failed one is modelled: the access outside an array, a run without result.

  \<open>junk_v\<close> and \<open>junk_e\<close> stand for the contents of fresh memory, which \<open>lm_calloc\<close> (a \<open>kmalloc\<close> in the
  module) does not clear.
\<close>

section \<open>The code\<close>

datatype graph_eltype_t =
    GRAPH_ELTYPE_PU
  | GRAPH_ELTYPE_CORE
  | GRAPH_ELTYPE_CACHE
  | GRAPH_ELTYPE_INTERCONNECTION
  | GRAPH_ELTYPE_NUMA_NODE
  | GRAPH_ELTYPE_SOCKET
  | GRAPH_ELTYPE_UNDEFINED
  | GRAPH_ELTYPE_ROOT

record vertex_t =
  v_type :: graph_eltype_t
  v_weight :: int
  v_id :: u32
  v_pos :: nat
  linked :: "(nat \<times> nat) option list" \<comment> \<open>edge, vertex\<close>
  arity :: nat

record edge_t =
  e_type :: graph_eltype_t
  e_weight :: int
  e_id :: u32
  e_src :: nat
  e_dest :: nat

record graph_t =
  vertices :: "vertex_t list"
  edges :: "edge_t list"
  n_vertices :: nat
  n_edges :: nat
  next_vertex :: nat
  next_edge :: nat
  used_vertices :: nat
  used_edges :: nat

fun libmapping_graph_eltype_str :: "graph_eltype_t \<Rightarrow> string" where
  "libmapping_graph_eltype_str GRAPH_ELTYPE_PU = ''PU''"
| "libmapping_graph_eltype_str GRAPH_ELTYPE_CORE = ''CORE''"
| "libmapping_graph_eltype_str GRAPH_ELTYPE_CACHE = ''CACHE''"
| "libmapping_graph_eltype_str GRAPH_ELTYPE_INTERCONNECTION = ''INTERCONNECTION''"
| "libmapping_graph_eltype_str GRAPH_ELTYPE_NUMA_NODE = ''NUMA_NODE''"
| "libmapping_graph_eltype_str GRAPH_ELTYPE_SOCKET = ''SOCKET''"
| "libmapping_graph_eltype_str GRAPH_ELTYPE_UNDEFINED = ''UNDEFINED''"
| "libmapping_graph_eltype_str GRAPH_ELTYPE_ROOT = ''ROOT''"

text \<open>\<open>allocated\<close> is whether the three allocations succeed; \<open>vertices[0].linked\<close> needs one vertex.\<close>

definition libmapping_graph_init :: "bool \<Rightarrow> vertex_t \<Rightarrow> edge_t \<Rightarrow> nat \<Rightarrow> nat \<Rightarrow> graph_t option" where
  "libmapping_graph_init allocated junk_v junk_e nv ne =
     (if \<not> allocated \<or> nv = 0 then None
      else Some \<lparr>vertices = map (\<lambda>i. junk_v\<lparr>linked := replicate nv None, v_pos := i\<rparr>) [0..<nv],
                edges = replicate ne junk_e, n_vertices = nv, n_edges = ne,
                next_vertex = 0, next_edge = 0, used_vertices = 0, used_edges = 0\<rparr>)"

definition libmapping_get_free_vertex :: "graph_t \<Rightarrow> (nat \<times> graph_t) option" where
  "libmapping_get_free_vertex g = do {
     let g = g\<lparr>used_vertices := used_vertices g + 1\<rparr>;
     v \<leftarrow> aget (vertices g) (next_vertex g);
     vs \<leftarrow> aput (vertices g) (next_vertex g) (v\<lparr>arity := 0\<rparr>);
     Some (next_vertex g, g\<lparr>vertices := vs, next_vertex := next_vertex g + 1\<rparr>)
   }"

definition libmapping_get_free_edge :: "graph_t \<Rightarrow> nat \<times> graph_t" where
  "libmapping_get_free_edge g =
     (next_edge g, g\<lparr>used_edges := used_edges g + 1, next_edge := next_edge g + 1\<rparr>)"

text \<open>\<open>v->linked[v->arity] = (e, other)\<close>, and the two updates of \<open>arity\<close> at the end.\<close>

definition set_slot :: "nat \<Rightarrow> nat \<times> nat \<Rightarrow> graph_t \<Rightarrow> graph_t option" where
  "set_slot v slot g = do {
     x \<leftarrow> aget (vertices g) v;
     l \<leftarrow> aput (linked x) (arity x) (Some slot);
     vs \<leftarrow> aput (vertices g) v (x\<lparr>linked := l\<rparr>);
     Some (g\<lparr>vertices := vs\<rparr>)
   }"

definition inc_arity :: "nat \<Rightarrow> graph_t \<Rightarrow> graph_t option" where
  "inc_arity v g = do {
     x \<leftarrow> aget (vertices g) v;
     vs \<leftarrow> aput (vertices g) v (x\<lparr>arity := arity x + 1\<rparr>);
     Some (g\<lparr>vertices := vs\<rparr>)
   }"

definition libmapping_graph_connect_vertices :: "graph_t \<Rightarrow> nat \<Rightarrow> nat \<Rightarrow> (nat \<times> graph_t) option" where
  "libmapping_graph_connect_vertices g src dest = do {
     let (e, g) = libmapping_get_free_edge g;
     x \<leftarrow> aget (edges g) e;
     es \<leftarrow> aput (edges g) e (x\<lparr>e_src := src, e_dest := dest\<rparr>);
     let g = g\<lparr>edges := es\<rparr>;
     g \<leftarrow> set_slot src (e, dest) g;
     g \<leftarrow> set_slot dest (e, src) g;
     g \<leftarrow> inc_arity src g;
     g \<leftarrow> inc_arity dest g;
     Some (e, g)
   }"

section \<open>What the operations do\<close>

text \<open>A graph whose counters agree, with room for \<open>nv\<close> more vertices and \<open>ne\<close> more edges.\<close>

definition graph_wf :: "graph_t \<Rightarrow> bool" where
  "graph_wf g \<longleftrightarrow> length (vertices g) = n_vertices g \<and> length (edges g) = n_edges g \<and>
     next_vertex g = used_vertices g \<and> next_edge g = used_edges g \<and>
     (\<forall>v \<in> set (vertices g). length (linked v) = n_vertices g)"

lemma graph_init_wf:
  assumes "0 < nv"
  shows "\<exists>g. libmapping_graph_init True jv je nv ne = Some g \<and> graph_wf g \<and> n_vertices g = nv \<and> n_edges g = ne \<and>
    used_vertices g = 0 \<and> used_edges g = 0 \<and> (\<forall>i < nv. v_pos (vertices g ! i) = i)"
  using assms by (auto simp: libmapping_graph_init_def graph_wf_def)

lemma free_vertex_eq:
  assumes "graph_wf g" "used_vertices g < n_vertices g"
  shows "libmapping_get_free_vertex g = Some (used_vertices g,
    g\<lparr>used_vertices := used_vertices g + 1, next_vertex := used_vertices g + 1,
      vertices := (vertices g)[used_vertices g := (vertices g ! used_vertices g)\<lparr>arity := 0\<rparr>]\<rparr>)"
  using assms by (simp add: libmapping_get_free_vertex_def graph_wf_def Let_def)

lemma free_vertex_wf:
  assumes "graph_wf g" "libmapping_get_free_vertex g = Some (v, g')"
  shows "graph_wf g'"
  using assms
  by (auto simp: libmapping_get_free_vertex_def graph_wf_def Let_def aget_eq_Some_iff aput_eq_Some_iff
      bind_eq_Some_conv dest!: set_update_subset_insert[THEN subsetD])

text \<open>A connection appends a slot to both ends.\<close>

definition add_slot :: "nat \<times> nat \<Rightarrow> vertex_t \<Rightarrow> vertex_t" where
  "add_slot s x = x\<lparr>linked := (linked x)[arity x := Some s], arity := arity x + 1\<rparr>"

lemma connect_eq:
  assumes "graph_wf g" "used_edges g < n_edges g" "src < n_vertices g" "dest < n_vertices g" "src \<noteq> dest"
    and "arity (vertices g ! src) < n_vertices g" "arity (vertices g ! dest) < n_vertices g"
  shows "libmapping_graph_connect_vertices g src dest = Some (used_edges g,
    g\<lparr>used_edges := used_edges g + 1, next_edge := used_edges g + 1,
      edges := (edges g)[used_edges g := (edges g ! used_edges g)\<lparr>e_src := src, e_dest := dest\<rparr>],
      vertices := (vertices g)[src := add_slot (used_edges g, dest) (vertices g ! src),
                               dest := add_slot (used_edges g, src) (vertices g ! dest)]\<rparr>)"
proof -
  have len: "length (vertices g) = n_vertices g" "length (edges g) = n_edges g" "next_edge g = used_edges g"
    using assms(1) by (simp_all add: graph_wf_def)
  have rows: "length (linked (vertices g ! src)) = n_vertices g" "length (linked (vertices g ! dest)) = n_vertices g"
    using assms(1,3,4) by (simp_all add: graph_wf_def)
  show ?thesis
    using assms(2-7) len rows
    by (simp add: libmapping_graph_connect_vertices_def libmapping_get_free_edge_def set_slot_def inc_arity_def
        Let_def add_slot_def list_update_swap)
qed

lemma connect_wf:
  assumes "graph_wf g" "used_edges g < n_edges g" "src < n_vertices g" "dest < n_vertices g" "src \<noteq> dest"
    and "arity (vertices g ! src) < n_vertices g" "arity (vertices g ! dest) < n_vertices g"
    and "libmapping_graph_connect_vertices g src dest = Some (e, g')"
  shows "graph_wf g'"
proof -
  have rows: "length (linked (vertices g ! src)) = n_vertices g" "length (linked (vertices g ! dest)) = n_vertices g"
    using assms(1,3,4) by (simp_all add: graph_wf_def)
  show ?thesis
    using assms(1,8) rows unfolding connect_eq[OF assms(1-7)]
    by (auto simp: graph_wf_def add_slot_def dest!: set_update_subset_insert[THEN subsetD])
qed

end
