(* ===== verification/Cdsm_Topology.thy ===== *)
theory Cdsm_Topology
  imports Cdsm_Graph
begin

text \<open>
  Building and walking the topology tree, \<open>src/libmapping/topology.c\<close>. A pointer \<open>arities\<close> with its
  count \<open>nlevels\<close> is a list. The static counters of \<open>create_fake_topology\<close> live in the state: they are
  never reset.

  \<open>fake_tree\<close> is the tree that a list of arities describes, with its vertices numbered in pre-order,
  and \<open>represents\<close> relates it to the graph. Walks over the graph are walks over that tree.
\<close>

section \<open>Building\<close>

text \<open>The pair \<open>*npus\<close>, \<open>*nvertices\<close>, which the code only increments.\<close>

fun libmapping_get_n_pus_fake_topology :: "nat list \<Rightarrow> nat \<times> nat \<Rightarrow> nat \<times> nat" where
  "libmapping_get_n_pus_fake_topology [] (npus, nvertices) = (npus + 1, nvertices + 1)"
| "libmapping_get_n_pus_fake_topology (a # as) (npus, nvertices) =
     fold (\<lambda>j. libmapping_get_n_pus_fake_topology as) [0..<a] (npus, nvertices + 1)"

record fake_state =
  fs_graph :: graph_t
  fs_pu_id :: nat
  fs_numa_id :: nat

definition set_vertex :: "nat \<Rightarrow> (vertex_t \<Rightarrow> vertex_t) \<Rightarrow> fake_state \<Rightarrow> fake_state option" where
  "set_vertex v f st = do {
     x \<leftarrow> aget (vertices (fs_graph st)) v;
     vs \<leftarrow> aput (vertices (fs_graph st)) v (f x);
     Some (st\<lparr>fs_graph := (fs_graph st)\<lparr>vertices := vs\<rparr>\<rparr>)
   }"

definition set_edge :: "nat \<Rightarrow> (edge_t \<Rightarrow> edge_t) \<Rightarrow> fake_state \<Rightarrow> fake_state option" where
  "set_edge e f st = do {
     x \<leftarrow> aget (edges (fs_graph st)) e;
     es \<leftarrow> aput (edges (fs_graph st)) e (f x);
     Some (st\<lparr>fs_graph := (fs_graph st)\<lparr>edges := es\<rparr>\<rparr>)
   }"

text \<open>The branch for a leaf, after the vertex was taken.\<close>

definition fake_pu :: "u32 list option \<Rightarrow> nat \<Rightarrow> fake_state \<Rightarrow> fake_state option" where
  "fake_pu pus v st = do {
     id \<leftarrow> (case pus of None \<Rightarrow> Some (of_nat (fs_pu_id st)) | Some ids \<Rightarrow> aget ids (fs_pu_id st));
     st \<leftarrow> set_vertex v (\<lambda>x. x\<lparr>v_type := GRAPH_ELTYPE_PU, v_id := id\<rparr>) st;
     Some (st\<lparr>fs_pu_id := fs_pu_id st + 1\<rparr>)
   }"

definition fake_inner :: "nat \<Rightarrow> bool \<Rightarrow> nat \<Rightarrow> fake_state \<Rightarrow> fake_state option" where
  "fake_inner level numa_node v st =
     (if numa_node \<and> level = 1 then do {
        st \<leftarrow> set_vertex v (\<lambda>x. x\<lparr>v_type := GRAPH_ELTYPE_NUMA_NODE, v_id := of_nat (fs_numa_id st)\<rparr>) st;
        Some (st\<lparr>fs_numa_id := fs_numa_id st + 1\<rparr>)
      } else set_vertex v (\<lambda>x. x\<lparr>v_type := GRAPH_ELTYPE_UNDEFINED, v_id := 0\<rparr>) st)"

text \<open>The edge to a child that was just built.\<close>

definition fake_link :: "nat \<Rightarrow> int list option \<Rightarrow> nat \<Rightarrow> nat \<Rightarrow> fake_state \<Rightarrow> fake_state option" where
  "fake_link nlevels weights v link st = do {
     (e, g) \<leftarrow> libmapping_graph_connect_vertices (fs_graph st) v link;
     w \<leftarrow> (case weights of None \<Rightarrow> shl_int 1 (int nlevels) | Some ws \<Rightarrow> aget ws 0);
     set_edge e (\<lambda>x. x\<lparr>e_weight := w, e_type := GRAPH_ELTYPE_UNDEFINED\<rparr>) (st\<lparr>fs_graph := g\<rparr>)
   }"

fun create_fake_topology ::
  "nat \<Rightarrow> nat list \<Rightarrow> u32 list option \<Rightarrow> int list option \<Rightarrow> bool \<Rightarrow> fake_state \<Rightarrow> (nat \<times> fake_state) option" where
  "create_fake_topology level [] pus weights numa_node st = do {
     (v, g) \<leftarrow> libmapping_get_free_vertex (fs_graph st);
     st \<leftarrow> fake_pu pus v (st\<lparr>fs_graph := g\<rparr>);
     Some (v, st)
   }"
| "create_fake_topology level (a # as) pus weights numa_node st = do {
     (v, g) \<leftarrow> libmapping_get_free_vertex (fs_graph st);
     st \<leftarrow> fake_inner level numa_node v (st\<lparr>fs_graph := g\<rparr>);
     st \<leftarrow> foldM (\<lambda>j st. do {
         (link, st) \<leftarrow> create_fake_topology (level + 1) as pus (map_option tl weights) numa_node st;
         fake_link (length (a # as)) weights v link st
       }) [0..<a] st;
     Some (v, st)
   }"

definition libmapping_create_fake_topology ::
  "nat list \<Rightarrow> u32 list option \<Rightarrow> int list option \<Rightarrow> fake_state \<Rightarrow> (nat \<times> fake_state) option" where
  "libmapping_create_fake_topology arities pus weights st = create_fake_topology 0 arities pus weights False st"

section \<open>Walking\<close>

text \<open>
  A routine gets the vertex, the vertex and the edge it was reached by, and the level; it says whether
  the walk goes on. The recursion of the code is bounded by \<open>fuel\<close>, the greatest depth allowed; the height
  of the tree is enough.
\<close>

type_synonym 's routine = "nat \<Rightarrow> nat option \<Rightarrow> nat option \<Rightarrow> nat \<Rightarrow> 's \<Rightarrow> (bool \<times> 's) option"

primrec topology_walk_pre_order ::
  "nat \<Rightarrow> graph_t \<Rightarrow> 's routine \<Rightarrow> nat \<Rightarrow> nat option \<Rightarrow> nat option \<Rightarrow> nat \<Rightarrow> 's \<Rightarrow> (bool \<times> 's) option" where
  "topology_walk_pre_order 0 g routine v from edge level s = None"
| "topology_walk_pre_order (Suc fuel) g routine v from edge level s = do {
     (go, s) \<leftarrow> routine v from edge level s;
     if go then do {
       x \<leftarrow> aget (vertices g) v;
       loopM (\<lambda>i s. do {
         slot \<leftarrow> aget (linked x) i;
         (e, w) \<leftarrow> slot;
         if Some w \<noteq> from then topology_walk_pre_order fuel g routine w (Some v) (Some e) (level + 1) s
         else Some (True, s)
       }) [0..<arity x] s
     } else Some (False, s)
   }"

section \<open>The tree of a list of arities\<close>

text \<open>The size of the tree, and the children of its root when the root is vertex \<open>u\<close>.\<close>

fun tree_size :: "nat list \<Rightarrow> nat" where
  "tree_size [] = 1"
| "tree_size (a # as) = 1 + a * tree_size as"

fun children :: "nat list \<Rightarrow> nat \<Rightarrow> nat list" where
  "children [] u = []"
| "children (a # as) u = map (\<lambda>j. Suc u + j * tree_size as) [0..<a]"

definition node_ok :: "graph_t \<Rightarrow> nat option \<Rightarrow> nat \<Rightarrow> int \<Rightarrow> nat list \<Rightarrow> bool" where
  "node_ok g par v w kids \<longleftrightarrow> v < length (vertices g) \<and>
     arity (vertices g ! v) = length kids + (if par = None then 0 else 1) \<and>
     arity (vertices g ! v) \<le> length (linked (vertices g ! v)) \<and>
     (\<forall>i < length kids. \<exists>e. e < used_edges g \<and> linked (vertices g ! v) ! i = Some (e, kids ! i) \<and>
        e_weight (edges g ! e) = w) \<and>
     (\<forall>p. par = Some p \<longrightarrow> (\<exists>e. e < used_edges g \<and> linked (vertices g ! v) ! length kids = Some (e, p) \<and>
        e_weight (edges g ! e) = 2 * w))"

fun represents :: "graph_t \<Rightarrow> nat option \<Rightarrow> nat list \<Rightarrow> nat \<Rightarrow> bool" where
  "represents g par [] u \<longleftrightarrow> node_ok g par u 1 []"
| "represents g par (a # as) u \<longleftrightarrow> node_ok g par u (2 ^ length (a # as)) (children (a # as) u) \<and>
     (\<forall>j < a. represents g (Some u) as (Suc u + j * tree_size as))"

text \<open>The types and the ids: the \<open>n\<close>-th leaf has the \<open>n\<close>-th id.\<close>

fun typed :: "graph_t \<Rightarrow> (nat \<Rightarrow> u32) \<Rightarrow> nat list \<Rightarrow> nat \<Rightarrow> nat \<Rightarrow> bool" where
  "typed g ids [] u n \<longleftrightarrow> v_type (vertices g ! u) = GRAPH_ELTYPE_PU \<and> v_id (vertices g ! u) = ids n"
| "typed g ids (a # as) u n \<longleftrightarrow> v_type (vertices g ! u) = GRAPH_ELTYPE_UNDEFINED \<and>
     (\<forall>j < a. typed g ids as (Suc u + j * tree_size as) (n + j * prod_list as))"

lemma tree_size_pos: "0 < tree_size as"
  by (cases as) auto

lemma child_range:
  assumes "j < a"
  shows "u + 1 + j * tree_size as + tree_size as \<le> u + tree_size (a # as)"
proof -
  have "j * tree_size as + tree_size as = Suc j * tree_size as" by simp
  also have "\<dots> \<le> a * tree_size as" using assms by (intro mult_le_mono1) simp
  finally show ?thesis by simp
qed

lemma v_pos_update [simp]: "v_pos x = v_pos (xs ! i) \<Longrightarrow> v_pos (xs[i := x] ! j) = v_pos (xs ! j)"
  by (cases "i < length xs") (simp_all add: nth_list_update list_update_beyond)

text \<open>Only the vertices of the tree and the edges in use matter.\<close>

definition same_below :: "graph_t \<Rightarrow> graph_t \<Rightarrow> bool" where
  "same_below g g' \<longleftrightarrow> length (vertices g') = length (vertices g) \<and> used_edges g \<le> used_edges g' \<and>
     (\<forall>e < used_edges g. edges g' ! e = edges g ! e) \<and>
     (\<forall>v < length (vertices g). v_pos (vertices g' ! v) = v_pos (vertices g ! v))"

lemma node_ok_cong:
  assumes "node_ok g par v w kids" "same_below g g'" "vertices g' ! v = vertices g ! v"
  shows "node_ok g' par v w kids"
proof -
  have old: "e < used_edges g' \<and> edges g' ! e = edges g ! e" if "e < used_edges g" for e
    using assms(2) that by (auto simp: same_below_def intro: less_le_trans)
  have edge: "\<exists>e. e < used_edges g' \<and> s = Some (e, x) \<and> e_weight (edges g' ! e) = w'"
    if "\<exists>e. e < used_edges g \<and> s = Some (e, x) \<and> e_weight (edges g ! e) = w'" for s x w'
    using that old by metis
  have len: "length (vertices g') = length (vertices g)" using assms(2) by (simp add: same_below_def)
  from assms(1) have "\<forall>i < length kids. \<exists>e. e < used_edges g' \<and> linked (vertices g ! v) ! i = Some (e, kids ! i) \<and> e_weight (edges g' ! e) = w"
    "\<forall>p. par = Some p \<longrightarrow> (\<exists>e. e < used_edges g' \<and> linked (vertices g ! v) ! length kids = Some (e, p) \<and> e_weight (edges g' ! e) = 2 * w)"
    unfolding node_ok_def using edge by metis+
  with assms(1) show ?thesis unfolding node_ok_def assms(3) len by simp
qed

lemma represents_cong:
  assumes "represents g par as u" "same_below g g'" "\<And>v. u \<le> v \<Longrightarrow> v < u + tree_size as \<Longrightarrow> vertices g' ! v = vertices g ! v"
  shows "represents g' par as u"
  using assms(1,3)
proof (induction as arbitrary: par u)
  case Nil
  have "vertices g' ! u = vertices g ! u" by (rule Nil.prems(2)) simp_all
  with Nil.prems(1) node_ok_cong[OF _ assms(2)] show ?case by simp
next
  case (Cons a as)
  have "represents g' (Some u) as (Suc u + j * tree_size as)" if j: "j < a" for j
  proof (rule Cons.IH)
    show "represents g (Some u) as (Suc u + j * tree_size as)" using Cons.prems(1) j by simp
    fix v assume "Suc u + j * tree_size as \<le> v" "v < Suc u + j * tree_size as + tree_size as"
    with child_range[OF j, of u as] show "vertices g' ! v = vertices g ! v"
      by (intro Cons.prems(2)) auto
  qed
  moreover have "node_ok g' par u (2 ^ length (a # as)) (children (a # as) u)"
  proof (rule node_ok_cong[OF _ assms(2)])
    show "node_ok g par u (2 ^ length (a # as)) (children (a # as) u)" using Cons.prems(1) by simp
    show "vertices g' ! u = vertices g ! u" by (rule Cons.prems(2)) (simp_all add: tree_size_pos)
  qed
  ultimately show ?case by simp
qed

lemma typed_cong:
  assumes "typed g ids as u n"
    and "\<And>v. u \<le> v \<Longrightarrow> v < u + tree_size as \<Longrightarrow> v_type (vertices g' ! v) = v_type (vertices g ! v) \<and>
      v_id (vertices g' ! v) = v_id (vertices g ! v)"
  shows "typed g' ids as u n"
  using assms
proof (induction as arbitrary: u n)
  case Nil
  then show ?case by simp
next
  case (Cons a as)
  have "typed g' ids as (Suc u + j * tree_size as) (n + j * prod_list as)" if j: "j < a" for j
  proof (rule Cons.IH)
    show "typed g ids as (Suc u + j * tree_size as) (n + j * prod_list as)" using Cons.prems(1) j by simp
    fix v assume "Suc u + j * tree_size as \<le> v" "v < Suc u + j * tree_size as + tree_size as"
    with child_range[OF j, of u as] show "v_type (vertices g' ! v) = v_type (vertices g ! v) \<and>
        v_id (vertices g' ! v) = v_id (vertices g ! v)"
      by (intro Cons.prems(2)) auto
  qed
  with Cons.prems(1) Cons.prems(2)[of u] show ?case by simp
qed

text \<open>A root becomes a child: it gets a slot for its parent after those for its children.\<close>

lemma represents_link:
  assumes "represents g None as u" "same_below g g'" "vertices g' ! u = add_slot (e, p) (vertices g ! u)"
    and "arity (vertices g ! u) < length (linked (vertices g ! u))"
    and "\<And>v. u < v \<Longrightarrow> v < u + tree_size as \<Longrightarrow> vertices g' ! v = vertices g ! v"
    and "e < used_edges g'" "e_weight (edges g' ! e) = 2 ^ Suc (length as)"
  shows "represents g' (Some p) as u"
proof -
  have node: "node_ok g' (Some p) u w kids" if "node_ok g None u w kids" "2 * w = 2 ^ Suc (length as)" for w kids
    using that assms(2-4,6,7)
    by (auto simp: node_ok_def same_below_def add_slot_def nth_list_update intro: less_le_trans)
  show ?thesis
  proof (cases as)
    case Nil
    with assms(1) node show ?thesis by simp
  next
    case (Cons a as')
    have "represents g' (Some u) as' (Suc u + j * tree_size as')" if j: "j < a" for j
    proof (rule represents_cong[OF _ assms(2)])
      show "represents g (Some u) as' (Suc u + j * tree_size as')" using assms(1) j Cons by simp
      fix v assume "Suc u + j * tree_size as' \<le> v" "v < Suc u + j * tree_size as' + tree_size as'"
      with child_range[OF j, of u as'] Cons show "vertices g' ! v = vertices g ! v"
        by (intro assms(5)) auto
    qed
    with assms(1) node Cons show ?thesis by simp
  qed
qed

section \<open>The code builds the tree\<close>

lemma same_below_refl: "same_below g g"
  by (simp add: same_below_def)

lemma same_below_trans: "same_below g g' \<Longrightarrow> same_below g' g'' \<Longrightarrow> same_below g g''"
  by (auto simp: same_below_def intro: less_le_trans)

lemma represents_arity: "represents g None as u \<Longrightarrow> arity (vertices g ! u) < tree_size as"
proof (cases as)
  case (Cons a as')
  assume "represents g None as u"
  then have "arity (vertices g ! u) = a" using Cons by (simp add: node_ok_def)
  moreover have "a * 1 \<le> a * tree_size as'" using tree_size_pos[of as'] by (intro mult_le_mono2) simp
  ultimately show ?thesis unfolding Cons tree_size.simps by linarith
qed (simp add: node_ok_def)

text \<open>The state in the loop over the children of vertex \<open>u\<close>, of which \<open>j\<close> are built.\<close>

definition growing :: "u32 list \<Rightarrow> nat list \<Rightarrow> nat \<Rightarrow> int \<Rightarrow> nat \<Rightarrow> fake_state \<Rightarrow> fake_state \<Rightarrow> bool" where
  "growing ids as u w j st st' \<longleftrightarrow> (let g = fs_graph st; g' = fs_graph st'; x = vertices g' ! u in
     graph_wf g' \<and> n_vertices g' = n_vertices g \<and> n_edges g' = n_edges g \<and>
     used_vertices g' = Suc u + j * tree_size as \<and> used_edges g' = used_edges g + j * tree_size as \<and>
     fs_pu_id st' = fs_pu_id st + j * prod_list as \<and> same_below g g' \<and>
     (\<forall>v < u. vertices g' ! v = vertices g ! v) \<and>
     arity x = j \<and> v_type x = GRAPH_ELTYPE_UNDEFINED \<and>
     (\<forall>i < j. \<exists>e. e < used_edges g' \<and> linked x ! i = Some (e, Suc u + i * tree_size as) \<and> e_weight (edges g' ! e) = w) \<and>
     (\<forall>i < j. represents g' (Some u) as (Suc u + i * tree_size as) \<and>
        typed g' (\<lambda>i. ids ! i) as (Suc u + i * tree_size as) (fs_pu_id st + i * prod_list as)))"

text \<open>What a call leaves behind.\<close>

definition created :: "u32 list \<Rightarrow> nat list \<Rightarrow> nat \<Rightarrow> fake_state \<Rightarrow> nat \<times> fake_state \<Rightarrow> bool" where
  "created ids as u st r \<longleftrightarrow> (let g = fs_graph st; st' = snd r; g' = fs_graph st' in fst r = u \<and>
     graph_wf g' \<and> n_vertices g' = n_vertices g \<and> n_edges g' = n_edges g \<and>
     used_vertices g' = u + tree_size as \<and> Suc (used_edges g') = used_edges g + tree_size as \<and>
     fs_pu_id st' = fs_pu_id st + prod_list as \<and> same_below g g' \<and>
     (\<forall>v < u. vertices g' ! v = vertices g ! v) \<and>
     represents g' None as u \<and> typed g' (\<lambda>i. ids ! i) as u (fs_pu_id st))"

lemma fake_link_grows:
  assumes grow: "growing ids as u (2 ^ nl) j st st1" and made: "created ids as (Suc u + j * tree_size as) st1 (link, st2)"
    and room: "Suc u + Suc j * tree_size as \<le> n_vertices (fs_graph st)"
      "used_edges (fs_graph st) + Suc j * tree_size as \<le> n_edges (fs_graph st)" and nl: "nl \<le> 30" "nl = Suc (length as)"
  shows "wp (fake_link nl None u link st2) (growing ids as u (2 ^ nl) (Suc j) st)"
proof -
  let ?T = "tree_size as"
  let ?g = "fs_graph st" and ?g1 = "fs_graph st1" and ?g2 = "fs_graph st2"
  let ?l = "Suc u + j * ?T" and ?k = "used_edges ?g2"
  have T: "0 < ?T" by (rule tree_size_pos)
  from grow have g1: "graph_wf ?g1" "n_vertices ?g1 = n_vertices ?g" "n_edges ?g1 = n_edges ?g"
      "used_edges ?g1 = used_edges ?g + j * ?T" "fs_pu_id st1 = fs_pu_id st + j * prod_list as" "same_below ?g ?g1"
      "\<And>v. v < u \<Longrightarrow> vertices ?g1 ! v = vertices ?g ! v"
      "arity (vertices ?g1 ! u) = j" "v_type (vertices ?g1 ! u) = GRAPH_ELTYPE_UNDEFINED"
    by (simp_all add: growing_def Let_def)
  from grow have slots: "\<And>i. i < j \<Longrightarrow> \<exists>e. e < used_edges ?g1 \<and> linked (vertices ?g1 ! u) ! i = Some (e, Suc u + i * ?T) \<and>
        e_weight (edges ?g1 ! e) = 2 ^ nl"
    and subs: "\<And>i. i < j \<Longrightarrow> represents ?g1 (Some u) as (Suc u + i * ?T)"
      "\<And>i. i < j \<Longrightarrow> typed ?g1 (\<lambda>i. ids ! i) as (Suc u + i * ?T) (fs_pu_id st + i * prod_list as)"
    unfolding growing_def Let_def by blast+
  from made have g2: "link = ?l" "graph_wf ?g2" "n_vertices ?g2 = n_vertices ?g1" "n_edges ?g2 = n_edges ?g1"
      "used_vertices ?g2 = ?l + ?T" "Suc ?k = used_edges ?g1 + ?T" "fs_pu_id st2 = fs_pu_id st1 + prod_list as"
      "same_below ?g1 ?g2" "\<And>v. v < ?l \<Longrightarrow> vertices ?g2 ! v = vertices ?g1 ! v"
      "represents ?g2 None as ?l" "typed ?g2 (\<lambda>i. ids ! i) as ?l (fs_pu_id st1)"
    by (simp_all add: created_def Let_def)
  have bounds: "?k < n_edges ?g2" "u < n_vertices ?g2" "?l < n_vertices ?g2"
    using room g1(2-4) g2(3,4,6) T by auto
  have len: "length (vertices ?g2) = n_vertices ?g2" "length (edges ?g2) = n_edges ?g2"
    "length (linked (vertices ?g2 ! u)) = n_vertices ?g2" "length (linked (vertices ?g2 ! ?l)) = n_vertices ?g2"
    using g2(2) bounds by (auto simp: graph_wf_def)
  have u2: "vertices ?g2 ! u = vertices ?g1 ! u" by (rule g2(9)) simp
  have "j * 1 \<le> j * ?T" using T by (intro mult_le_mono2) simp
  then have "j < n_vertices ?g" using room(1) unfolding mult_Suc by linarith
  moreover have "?T \<le> n_vertices ?g" using room(1) unfolding mult_Suc by linarith
  ultimately have ar: "arity (vertices ?g2 ! u) < n_vertices ?g2" "arity (vertices ?g2 ! ?l) < n_vertices ?g2"
    using u2 g1(2,8) g2(3) represents_arity[OF g2(10)] by auto
  have ne: "u \<noteq> ?l" by simp
  note conn = connect_eq[OF g2(2) bounds ne ar]
  note conn_wf = connect_wf[OF g2(2) bounds ne ar conn]
  have "(2::int) ^ nl \<le> 2 ^ 30" using nl(1) by (intro power_increasing) auto
  moreover have "- 2147483648 \<le> (2::int) ^ nl" by (rule order_trans[of _ 0]) simp_all
  ultimately have shl: "shl_int 1 (int nl) = Some (2 ^ nl)" using nl(1) by (simp add: shl_int_def cint_def in_int_def)
  define vs where "vs = (vertices ?g2)[u := add_slot (?k, ?l) (vertices ?g2 ! u), ?l := add_slot (?k, u) (vertices ?g2 ! ?l)]"
  define es where "es = (edges ?g2)[?k := (edges ?g2 ! ?k)\<lparr>e_src := u, e_dest := ?l, e_weight := 2 ^ nl, e_type := GRAPH_ELTYPE_UNDEFINED\<rparr>]"
  define g4 where "g4 = ?g2\<lparr>used_edges := ?k + 1, next_edge := ?k + 1, vertices := vs, edges := es\<rparr>"
  have run: "fake_link nl None u link st2 = Some (st2\<lparr>fs_graph := g4\<rparr>)"
    using bounds(1) len(2) shl unfolding fake_link_def g2(1) conn
    by (simp add: set_edge_def g4_def vs_def es_def)
  have wf4: "graph_wf g4" using conn_wf by (simp add: graph_wf_def g4_def vs_def es_def)
  have low: "same_below ?g2 g4" using len by (auto simp: same_below_def g4_def vs_def es_def add_slot_def)
  have k4: "?k < used_edges g4" "e_weight (edges g4 ! ?k) = 2 ^ Suc (length as)"
    using bounds(1) len nl(2) by (simp_all add: g4_def es_def)
  have v4: "vertices g4 ! v = vertices ?g2 ! v" if "v \<noteq> u" "v \<noteq> ?l" for v
    using that by (simp add: g4_def vs_def)
  have u4: "vertices g4 ! u = add_slot (?k, ?l) (vertices ?g1 ! u)"
    using bounds(2) len ne u2 by (simp add: g4_def vs_def)
  have l4: "vertices g4 ! ?l = add_slot (?k, u) (vertices ?g2 ! ?l)"
    using bounds(3) len by (simp add: g4_def vs_def)
  have below: "same_below ?g1 g4" by (rule same_below_trans[OF g2(8) low])
  have kept: "vertices g4 ! v = vertices ?g1 ! v" if "v < ?l" "v \<noteq> u" for v
    using v4[OF that(2)] g2(9)[OF that(1)] that(1) by simp
  have new: "represents g4 (Some u) as ?l"
    by (rule represents_link[OF g2(10) low l4]) (use ar(2) len(4) v4 k4 in auto)
  have new_typed: "typed g4 (\<lambda>i. ids ! i) as ?l (fs_pu_id st + j * prod_list as)"
  proof (rule typed_cong)
    show "typed ?g2 (\<lambda>i. ids ! i) as ?l (fs_pu_id st + j * prod_list as)" using g2(11) g1(5) by simp
    fix v assume "?l \<le> v"
    then show "v_type (vertices g4 ! v) = v_type (vertices ?g2 ! v) \<and> v_id (vertices g4 ! v) = v_id (vertices ?g2 ! v)"
      using v4[of v] l4 by (cases "v = ?l") (auto simp: add_slot_def)
  qed
  have old: "represents g4 (Some u) as (Suc u + i * ?T)"
    "typed g4 (\<lambda>i. ids ! i) as (Suc u + i * ?T) (fs_pu_id st + i * prod_list as)" if i: "i < j" for i
  proof -
    have in_range: "v < ?l \<and> v \<noteq> u" if "Suc u + i * ?T \<le> v" "v < Suc u + i * ?T + ?T" for v
      using that child_range[OF i, of u as] by auto
    show "represents g4 (Some u) as (Suc u + i * ?T)"
      by (rule represents_cong[OF subs(1)[OF i] below]) (use in_range kept in blast)
    show "typed g4 (\<lambda>i. ids ! i) as (Suc u + i * ?T) (fs_pu_id st + i * prod_list as)"
      by (rule typed_cong[OF subs(2)[OF i]]) (use in_range kept in metis)
  qed
  have slots4: "\<exists>e. e < used_edges g4 \<and> linked (vertices g4 ! u) ! i = Some (e, Suc u + i * ?T) \<and> e_weight (edges g4 ! e) = 2 ^ nl"
    if "i < Suc j" for i
  proof (cases "i = j")
    case True
    have "j < length (linked (vertices ?g1 ! u))" using ar(1) len(3) u2 g1(8) by simp
    then have "linked (vertices g4 ! u) ! j = Some (?k, ?l)" by (simp add: u4 add_slot_def g1(8))
    moreover have "e_weight (edges g4 ! ?k) = 2 ^ nl" using bounds(1) len by (simp add: g4_def es_def)
    ultimately show ?thesis using True by (intro exI[of _ ?k]) (simp add: g4_def)
  next
    case False
    with that have i: "i < j" by simp
    from slots[OF i] obtain e where e: "e < used_edges ?g1" "linked (vertices ?g1 ! u) ! i = Some (e, Suc u + i * ?T)"
      "e_weight (edges ?g1 ! e) = 2 ^ nl" by blast
    moreover have "edges g4 ! e = edges ?g1 ! e" "e < used_edges g4"
      using below e(1) by (auto simp: same_below_def)
    moreover have "linked (vertices g4 ! u) ! i = linked (vertices ?g1 ! u) ! i"
      using i by (simp add: u4 add_slot_def g1(8))
    ultimately show ?thesis by auto
  qed
  have "growing ids as u (2 ^ nl) (Suc j) st (st2\<lparr>fs_graph := g4\<rparr>)"
    unfolding growing_def Let_def
  proof (intro conjI allI impI)
    show "same_below ?g (fs_graph (st2\<lparr>fs_graph := g4\<rparr>))" using same_below_trans[OF g1(6) below] by simp
    fix v assume "v < u"
    then show "vertices (fs_graph (st2\<lparr>fs_graph := g4\<rparr>)) ! v = vertices ?g ! v" using kept[of v] g1(7) by simp
  next
    fix i assume i: "i < Suc j"
    then show "represents (fs_graph (st2\<lparr>fs_graph := g4\<rparr>)) (Some u) as (Suc u + i * ?T)"
      "typed (fs_graph (st2\<lparr>fs_graph := g4\<rparr>)) (\<lambda>i. ids ! i) as (Suc u + i * ?T) (fs_pu_id st + i * prod_list as)"
      using old new new_typed by (cases "i = j"; simp)+
    show "\<exists>e. e < used_edges (fs_graph (st2\<lparr>fs_graph := g4\<rparr>)) \<and>
        linked (vertices (fs_graph (st2\<lparr>fs_graph := g4\<rparr>)) ! u) ! i = Some (e, Suc u + i * ?T) \<and>
        e_weight (edges (fs_graph (st2\<lparr>fs_graph := g4\<rparr>)) ! e) = 2 ^ nl"
      using slots4[OF i] by simp
  qed (use wf4 g1 g2 u4 in \<open>simp_all add: g4_def add_slot_def algebra_simps\<close>)
  with run show ?thesis by simp
qed

lemma create_ok:
  assumes "graph_wf (fs_graph st)" "u = used_vertices (fs_graph st)"
    and "u + tree_size as \<le> n_vertices (fs_graph st)"
    and "used_edges (fs_graph st) + tree_size as \<le> Suc (n_edges (fs_graph st))"
    and "length as \<le> 30" "fs_pu_id st + prod_list as \<le> length ids"
  shows "wp (create_fake_topology level as (Some ids) None False st) (created ids as u st)"
  using assms
proof (induction as arbitrary: level st u)
  case Nil
  let ?g = "fs_graph st"
  have u: "u < n_vertices ?g" "length (vertices ?g) = n_vertices ?g" "fs_pu_id st < length ids"
    using Nil.prems by (simp_all add: graph_wf_def)
  have free: "libmapping_get_free_vertex ?g = Some (u, ?g\<lparr>used_vertices := u + 1, next_vertex := u + 1,
      vertices := (vertices ?g)[u := (vertices ?g ! u)\<lparr>arity := 0\<rparr>]\<rparr>)"
    using free_vertex_eq[OF Nil.prems(1)] Nil.prems(2) u(1) by simp
  have "length (linked (vertices ?g ! u)) = n_vertices ?g"
    using Nil.prems(1) u(1) by (auto simp: graph_wf_def)
  then show ?case
    using u Nil.prems(1,2) unfolding create_fake_topology.simps free
    by (auto simp: fake_pu_def set_vertex_def created_def Let_def same_below_def node_ok_def graph_wf_def
        dest!: set_update_subset_insert[THEN subsetD])
next
  case (Cons a as)
  let ?g = "fs_graph st" and ?T = "tree_size as" and ?nl = "length (a # as)"
  have u: "u < n_vertices ?g" "length (vertices ?g) = n_vertices ?g"
    using Cons.prems by (simp_all add: graph_wf_def)
  let ?x = "(vertices ?g ! u)\<lparr>arity := 0\<rparr>"
  let ?gx = "?g\<lparr>used_vertices := u + 1, next_vertex := u + 1, vertices := (vertices ?g)[u := ?x]\<rparr>"
  let ?g1 = "?gx\<lparr>vertices := (vertices ?g)[u := ?x\<lparr>v_type := GRAPH_ELTYPE_UNDEFINED, v_id := 0\<rparr>]\<rparr>"
  have free: "libmapping_get_free_vertex ?g = Some (u, ?gx)"
    using free_vertex_eq[OF Cons.prems(1)] u(1) unfolding Cons.prems(2)[symmetric] by simp
  have "graph_wf ?gx" by (rule free_vertex_wf[OF Cons.prems(1) free])
  then have wf1: "graph_wf ?g1"
    using Cons.prems(1) u by (auto simp: graph_wf_def dest!: set_update_subset_insert[THEN subsetD])
  have inner: "fake_inner level False u (st\<lparr>fs_graph := ?gx\<rparr>) = Some (st\<lparr>fs_graph := ?g1\<rparr>)"
    using u by (simp add: fake_inner_def set_vertex_def)
  define body where "body = (\<lambda>(j::nat) st. do {
         (link, st) \<leftarrow> create_fake_topology (level + 1) as (Some ids) None False st;
         fake_link ?nl None u link st
       })"
  have start: "growing ids as u (2 ^ ?nl) 0 st (st\<lparr>fs_graph := ?g1\<rparr>)"
    using wf1 u Cons.prems(2) by (simp add: growing_def Let_def same_below_def)
  have "wp (foldM body [0..<a] (st\<lparr>fs_graph := ?g1\<rparr>)) (growing ids as u (2 ^ ?nl) a st)"
  proof (rule wp_for0[where I = "\<lambda>j. growing ids as u (2 ^ ?nl) j st", OF start])
    fix j st1 assume j: "j < a" and grow: "growing ids as u (2 ^ ?nl) j st st1"
    have g1: "graph_wf (fs_graph st1)" "n_vertices (fs_graph st1) = n_vertices ?g" "n_edges (fs_graph st1) = n_edges ?g"
      "used_vertices (fs_graph st1) = Suc u + j * ?T" "used_edges (fs_graph st1) = used_edges ?g + j * ?T"
      "fs_pu_id st1 = fs_pu_id st + j * prod_list as"
      using grow by (simp_all add: growing_def Let_def)
    have T: "Suc j * ?T \<le> a * ?T" "Suc j * prod_list as \<le> a * prod_list as" using j by (simp_all only: mult_le_mono1 Suc_le_eq)
    have room: "Suc u + Suc j * ?T \<le> n_vertices ?g" "used_edges ?g + Suc j * ?T \<le> n_edges ?g"
      "fs_pu_id st + Suc j * prod_list as \<le> length ids"
      using Cons.prems(3,4,6) T unfolding tree_size.simps prod_list.Cons by linarith+
    have "wp (create_fake_topology (level + 1) as (Some ids) None False st1) (created ids as (Suc u + j * ?T) st1)"
    proof (rule Cons.IH)
      show "Suc u + j * ?T + ?T \<le> n_vertices (fs_graph st1)" using room(1) g1(2) by simp
      show "used_edges (fs_graph st1) + ?T \<le> Suc (n_edges (fs_graph st1))" using room(2) g1(3,5) by simp
      show "fs_pu_id st1 + prod_list as \<le> length ids" using room(3) g1(6) by simp
    qed (use g1 Cons.prems(5) in simp_all)
    then obtain link st2 where "create_fake_topology (level + 1) as (Some ids) None False st1 = Some (link, st2)"
      and made: "created ids as (Suc u + j * ?T) st1 (link, st2)" by (auto simp: wp_iff)
    with fake_link_grows[OF grow made room(1,2) Cons.prems(5)]
    show "wp (body j st1) (growing ids as u (2 ^ ?nl) (Suc j) st)" by (simp add: body_def)
  qed
  then obtain st' where loop: "foldM body [0..<a] (st\<lparr>fs_graph := ?g1\<rparr>) = Some st'"
    and grown: "growing ids as u (2 ^ ?nl) a st st'" by (auto elim!: wpE)
  have "create_fake_topology level (a # as) (Some ids) None False st = Some (u, st')"
    using inner loop unfolding create_fake_topology.simps free body_def by simp
  moreover have "created ids (a # as) u st (u, st')"
  proof -
    let ?g' = "fs_graph st'"
    from grown have g': "graph_wf ?g'" "n_vertices ?g' = n_vertices ?g" "n_edges ?g' = n_edges ?g"
        "used_vertices ?g' = Suc u + a * ?T" "used_edges ?g' = used_edges ?g + a * ?T"
        "fs_pu_id st' = fs_pu_id st + a * prod_list as" "same_below ?g ?g'"
        "arity (vertices ?g' ! u) = a" "v_type (vertices ?g' ! u) = GRAPH_ELTYPE_UNDEFINED"
      by (simp_all add: growing_def Let_def)
    from grown have slots: "\<And>i. i < a \<Longrightarrow> \<exists>e. e < used_edges ?g' \<and> linked (vertices ?g' ! u) ! i = Some (e, Suc u + i * ?T) \<and>
          e_weight (edges ?g' ! e) = 2 ^ ?nl"
      and same: "\<forall>v < u. vertices ?g' ! v = vertices ?g ! v"
      and subs: "\<And>i. i < a \<Longrightarrow> represents ?g' (Some u) as (Suc u + i * ?T)"
        "\<And>i. i < a \<Longrightarrow> typed ?g' (\<lambda>i. ids ! i) as (Suc u + i * ?T) (fs_pu_id st + i * prod_list as)"
      unfolding growing_def Let_def by blast+
    have rows: "length (linked (vertices ?g' ! u)) = n_vertices ?g" "u < length (vertices ?g')"
      using g'(1,2) u(1) by (auto simp: graph_wf_def)
    have "a * 1 \<le> a * ?T" using tree_size_pos[of as] by (intro mult_le_mono2) simp
    then have "a \<le> n_vertices ?g" using Cons.prems(3) unfolding tree_size.simps by linarith
    then have node: "node_ok ?g' None u (2 ^ ?nl) (children (a # as) u)"
      unfolding node_ok_def using slots rows g'(8) by simp
    show ?thesis
      unfolding created_def Let_def using g' same node subs by simp
  qed
  ultimately show ?case by simp
qed

section \<open>Walking the tree\<close>

text \<open>
  A walk that is not stopped by its routine before the leaves visits the tree in pre-order. For the
  routines of the code that only look at a vertex and fold it into their state, the walk is a loop over
  \<open>preorder\<close>, the vertices with their levels.
\<close>

fun preorder :: "nat list \<Rightarrow> nat \<Rightarrow> nat \<Rightarrow> (nat \<times> nat) list" where
  "preorder [] u level = [(u, level)]"
| "preorder (a # as) u level =
     (u, level) # concat (map (\<lambda>j. preorder as (Suc u + j * tree_size as) (Suc level)) [0..<a])"

definition folds :: "'s routine \<Rightarrow> (nat \<Rightarrow> nat \<Rightarrow> 's \<Rightarrow> 's option) \<Rightarrow> nat set \<Rightarrow> bool" where
  "folds routine f V \<longleftrightarrow>
     (\<forall>v \<in> V. \<forall>from e level s. routine v from e level s = map_option (\<lambda>s. (True, s)) (f v level s))"

lemma foldM_concat: "foldM f (concat xss) s = foldM (foldM f) xss s"
proof (induction xss arbitrary: s)
  case (Cons xs xss)
  then show ?case by (cases "foldM f xs s") (simp_all add: foldM_append)
qed simp

lemma loopM_fold:
  assumes "\<And>j s. j \<in> set js \<Longrightarrow> f j s = map_option (\<lambda>s. (True, s)) (h j s)"
  shows "loopM f js s = map_option (\<lambda>s. (True, s)) (foldM h js s)"
  using assms
proof (induction js arbitrary: s)
  case (Cons j js)
  then show ?case by (cases "h j s") auto
qed simp

lemma loopM_append:
  "loopM f (xs @ ys) s = Option.bind (loopM f xs s) (\<lambda>(go, s). if go then loopM f ys s else Some (False, s))"
proof (induction xs arbitrary: s)
  case (Cons x xs)
  show ?case
  proof (cases "f x s")
    case (Some r)
    with Cons show ?thesis by (cases r) auto
  qed simp
qed simp

lemma foldM_map: "foldM f (map g xs) s = foldM (\<lambda>x. f (g x)) xs s"
proof (induction xs arbitrary: s)
  case (Cons x xs)
  then show ?case by (cases "f (g x) s") simp_all
qed simp

lemma walk_fold:
  assumes "represents g par as u" "\<And>p. par = Some p \<Longrightarrow> p < u" "length as < fuel"
    and "folds routine f {u..<u + tree_size as}"
  shows "topology_walk_pre_order fuel g routine u par e level s =
    map_option (\<lambda>s. (True, s)) (foldM (\<lambda>(v, l). f v l) (preorder as u level) s)"
  using assms
proof (induction as arbitrary: fuel par u e level s)
  case Nil
  obtain n where n: "fuel = Suc n" using Nil.prems(3) by (cases fuel) auto
  have r: "routine u par e level s = map_option (\<lambda>s. (True, s)) (f u level s)" using Nil.prems(4) by (simp add: folds_def)
  show ?case
  proof (cases par)
    case None
    then show ?thesis using Nil.prems(1) r n by (cases "f u level s") (simp_all add: node_ok_def)
  next
    case (Some p)
    then obtain e' where "linked (vertices g ! u) ! 0 = Some (e', p)" "u < length (vertices g)"
      "arity (vertices g ! u) = 1" "0 < length (linked (vertices g ! u))"
      using Nil.prems(1) by (auto simp: node_ok_def Suc_le_eq)
    then show ?thesis using r n Some by (cases "f u level s") simp_all
  qed
next
  case (Cons a as)
  obtain n where n: "fuel = Suc n" using Cons.prems(3) by (cases fuel) auto
  have node: "node_ok g par u (2 ^ length (a # as)) (children (a # as) u)" using Cons.prems(1) by simp
  let ?x = "vertices g ! u" and ?kid = "\<lambda>j. preorder as (Suc u + j * tree_size as) (Suc level)"
  let ?f = "\<lambda>i s. do {
         slot \<leftarrow> aget (linked ?x) i;
         (e, w) \<leftarrow> slot;
         if Some w \<noteq> par then topology_walk_pre_order n g routine w (Some u) (Some e) (level + 1) s
         else Some (True, s)
       }"
  have child: "?f j s = map_option (\<lambda>s. (True, s)) (foldM (\<lambda>(v, l). f v l) (?kid j) s)" if j: "j \<in> set [0..<a]" for j s
  proof -
    from node j obtain e where slot: "linked ?x ! j = Some (e, Suc u + j * tree_size as)" "j < length (linked ?x)"
      by (auto simp: node_ok_def)
    have "Some (Suc u + j * tree_size as) \<noteq> par" using Cons.prems(2) by (cases par) auto
    moreover have "topology_walk_pre_order n g routine (Suc u + j * tree_size as) (Some u) (Some e) (Suc level) s =
        map_option (\<lambda>s. (True, s)) (foldM (\<lambda>(v, l). f v l) (?kid j) s)"
    proof (rule Cons.IH)
      show "represents g (Some u) as (Suc u + j * tree_size as)" using Cons.prems(1) j by simp
      show "length as < n" using Cons.prems(3) n by simp
      show "folds routine f {Suc u + j * tree_size as..<Suc u + j * tree_size as + tree_size as}"
        using Cons.prems(4) child_range[of j a u as] j by (auto simp: folds_def)
    qed auto
    ultimately show ?thesis using slot by simp
  qed
  have r: "routine u par e level s = map_option (\<lambda>s. (True, s)) (f u level s)"
    using Cons.prems(4) tree_size_pos[of "a # as"] by (simp add: folds_def del: tree_size.simps)
  have loop: "loopM ?f [0..<a] s = map_option (\<lambda>s. (True, s)) (foldM (\<lambda>(v, l). f v l) (concat (map ?kid [0..<a])) s)" for s
    using loopM_fold[of "[0..<a]" ?f, OF child] by (simp add: foldM_concat foldM_map)
  have "loopM ?f [0..<arity ?x] s = loopM ?f [0..<a] s" for s
  proof (cases par)
    case None
    then show ?thesis using node by (simp add: node_ok_def)
  next
    case (Some p)
    then obtain e' where slot: "linked ?x ! a = Some (e', p)" "arity ?x = Suc a" "a < length (linked ?x)"
      using node by (auto simp: node_ok_def)
    then have "loopM ?f [0..<arity ?x] s = Option.bind (loopM ?f [0..<a] s) (\<lambda>(go, s). if go then loopM ?f [a] s else Some (False, s))"
      by (simp add: loopM_append)
    then show ?thesis using slot Some unfolding loop
      by (cases "foldM (\<lambda>(v, l). f v l) (concat (map ?kid [0..<a])) s") simp_all
  qed
  moreover have "u < length (vertices g)" using node by (simp add: node_ok_def)
  ultimately show ?case using r loop n by (cases "f u level s") simp_all
qed

section \<open>Properties\<close>

lemma n_pus_fold:
  assumes "\<And>npus nv. h (npus, nv) = (npus + p, nv + (t :: nat))"
  shows "fold (\<lambda>j. h) [0..<a] (npus, nv) = (npus + a * (p :: nat), nv + a * t)"
  using assms by (induction a arbitrary: npus nv) auto

lemma n_pus_eq: "libmapping_get_n_pus_fake_topology as (npus, nv) = (npus + prod_list as, nv + tree_size as)"
  by (induction as arbitrary: npus nv) (simp_all add: n_pus_fold)

text \<open>
  C22: building the topology. With enough free vertices and edges, at most 30 levels and an id for every
  leaf, \<open>libmapping_create_fake_topology\<close> returns the first free vertex \<open>u\<close> as the root of the tree that the
  arities describe: every vertex is linked to its children in order and last to its parent, the edges below a
  vertex weigh two to the number of levels below it, the leaves are processing units with the given ids
  from left to right. It uses exactly the vertices and edges of the tree, and leaves the others alone.
\<close>
theorem create_fake_topology_spec:
  assumes "graph_wf (fs_graph st)" "u = used_vertices (fs_graph st)"
    and "u + tree_size as \<le> n_vertices (fs_graph st)"
    and "used_edges (fs_graph st) + tree_size as \<le> Suc (n_edges (fs_graph st))"
    and "length as \<le> 30" "fs_pu_id st + prod_list as \<le> length ids"
  shows "\<exists>st'. libmapping_create_fake_topology as (Some ids) None st = Some (u, st') \<and>
    represents (fs_graph st') None as u \<and> typed (fs_graph st') (\<lambda>i. ids ! i) as u (fs_pu_id st) \<and>
    used_vertices (fs_graph st') = u + tree_size as \<and> Suc (used_edges (fs_graph st')) = used_edges (fs_graph st) + tree_size as \<and>
    fs_pu_id st' = fs_pu_id st + prod_list as \<and> (\<forall>v < u. vertices (fs_graph st') ! v = vertices (fs_graph st) ! v)"
  using create_ok[OF assms, of 0]
  unfolding libmapping_create_fake_topology_def wp_iff split_paired_Ex created_def Let_def fst_conv snd_conv by blast

definition demo_graph :: "nat \<Rightarrow> graph_t" where
  "demo_graph n = the (libmapping_graph_init True
     \<lparr>v_type = GRAPH_ELTYPE_UNDEFINED, v_weight = 0, v_id = 0, v_pos = 0, linked = [], arity = 0\<rparr>
     \<lparr>e_type = GRAPH_ELTYPE_UNDEFINED, e_weight = 0, e_id = 0, e_src = 0, e_dest = 0\<rparr> n (n - 1))"

lemma demo_graph_wf: "0 < n \<Longrightarrow> graph_wf (demo_graph n) \<and> used_vertices (demo_graph n) = 0 \<and> n_vertices (demo_graph n) = n \<and>
    used_edges (demo_graph n) = 0 \<and> n_edges (demo_graph n) = n - 1"
  by (simp add: demo_graph_def libmapping_graph_init_def graph_wf_def)

theorem create_fake_topology_spec_witness:
  "\<exists>st'. libmapping_create_fake_topology [2, 2] (Some [4, 5, 6, 7]) None
      \<lparr>fs_graph = demo_graph 7, fs_pu_id = 0, fs_numa_id = 0\<rparr> = Some (0, st') \<and>
    represents (fs_graph st') None [2, 2] 0 \<and> used_vertices (fs_graph st') = 7"
  using create_fake_topology_spec[of "\<lparr>fs_graph = demo_graph 7, fs_pu_id = 0, fs_numa_id = 0\<rparr>" 0 "[2, 2]" "[4, 5, 6, 7]"]
    demo_graph_wf[of 7] by auto

lemma preorder_vertices: "map fst (preorder as u l) = [u..<u + tree_size as]"
proof (induction as arbitrary: u l)
  case (Cons a as)
  have "concat (map (\<lambda>j. [Suc u + j * tree_size as..<Suc u + j * tree_size as + tree_size as]) [0..<n]) =
      [Suc u..<Suc u + n * tree_size as]" for n
  proof (induction n)
    case (Suc n)
    have "[Suc u..<Suc u + (n * tree_size as + tree_size as)] =
        [Suc u..<Suc u + n * tree_size as] @ [Suc u + n * tree_size as..<Suc u + n * tree_size as + tree_size as]"
      by (metis add.assoc le_add1 upt_add_eq_append)
    with Suc show ?case by (simp add: add.commute)
  qed simp
  with Cons show ?case by (simp add: map_concat comp_def upt_conv_Cons del: upt_Suc)
qed simp

text \<open>
  Walking the topology. Over a graph that represents a tree of height below the fuel, a walk whose routine
  never stops it, but may fail, is the loop of the routine over the vertices in pre-order: each vertex of the tree
  once, in the order of the numbers, with its level.
\<close>

lemma walk_pre_order_spec:
  assumes "represents g None as u" "length as < fuel" "folds routine f {u..<u + tree_size as}"
  shows "topology_walk_pre_order fuel g routine u None None 0 s =
      map_option (\<lambda>s. (True, s)) (foldM (\<lambda>(v, l). f v l) (preorder as u 0) s) \<and>
    map fst (preorder as u 0) = [u..<u + tree_size as]"
  using walk_fold[OF assms(1) _ assms(2,3)] preorder_vertices by auto

lemma walk_pre_order_spec_example:
  "\<exists>g. topology_walk_pre_order 3 g (\<lambda>v from e level s. Some (True, s @ [v])) 0 None None 0 [] = Some (True, [0..<7])"
proof -
  let ?st = "\<lparr>fs_graph = demo_graph 7, fs_pu_id = 0, fs_numa_id = 0\<rparr>"
  have "wp (create_fake_topology 0 [2, 2] (Some [4, 5, 6, 7]) None False ?st) (created [4, 5, 6, 7] [2, 2] 0 ?st)"
    by (rule create_ok) (use demo_graph_wf[of 7] in simp_all)
  then obtain st' :: fake_state where "represents (fs_graph st') None [2, 2] 0"
    unfolding wp_iff split_paired_Ex created_def Let_def fst_conv snd_conv by blast
  from walk_pre_order_spec[OF this, of 3 "\<lambda>v from e level s. Some (True, s @ [v])" "\<lambda>v l s. Some (s @ [v])" "[]"]
  have "topology_walk_pre_order 3 (fs_graph st') (\<lambda>v from e level s. Some (True, s @ [v])) 0 None None 0 [] =
      map_option (\<lambda>s. (True, s)) (foldM (\<lambda>(v, l) s. Some (s @ [v])) (preorder [2, 2] 0 0) [])" by (simp add: folds_def)
  moreover have "foldM (\<lambda>(v, l) s. Some (s @ [v])) (preorder [2, 2] 0 0) [] = Some [0..<7]" by (simp add: upt_rec numeral_2_eq_2)
  ultimately show ?thesis by (metis option.simps(9))
qed

end
