(* ===== verification/Cdsm_Tree.thy ===== *)
theory Cdsm_Tree
  imports Cdsm_Topology
begin

text \<open>
  Trees of any shape in the graph of \<open>src/libmapping/graph.c\<close>, for the operations of
  \<open>src/libmapping/topology.c\<close> that build or read a tree whose levels need not be regular.

  \<open>topo_tree\<close> is the tree, each child with the weight of its edge. \<open>tree_at g hi par t u\<close> says that the graph shows
  the tree \<open>t\<close> at vertex \<open>u\<close>, below the vertex \<open>par\<close>, on vertices below \<open>hi\<close>: the slots of a vertex are its children
  in order and last its parent. The steps that the building operations share (take a vertex, connect a child that was
  just built) keep the invariant \<open>tree_growing\<close> of their loops over the children, and \<open>built\<close> is what they leave behind.
\<close>

section \<open>Shared steps of the code\<close>

definition set_gvertex :: "nat \<Rightarrow> (vertex_t \<Rightarrow> vertex_t) \<Rightarrow> graph_t \<Rightarrow> graph_t option" where
  "set_gvertex v f g = do {
     x \<leftarrow> aget (vertices g) v;
     vs \<leftarrow> aput (vertices g) v (f x);
     Some (g\<lparr>vertices := vs\<rparr>)
   }"

definition new_vertex :: "graph_eltype_t \<Rightarrow> u32 \<Rightarrow> graph_t \<Rightarrow> (nat \<times> graph_t) option" where
  "new_vertex ty i g = do {
     (v, g) \<leftarrow> libmapping_get_free_vertex g;
     g \<leftarrow> set_gvertex v (\<lambda>x. x\<lparr>v_type := ty, v_weight := 0, v_id := i\<rparr>) g;
     Some (v, g)
   }"

definition link_child :: "nat \<Rightarrow> nat \<Rightarrow> int \<Rightarrow> graph_t \<Rightarrow> graph_t option" where
  "link_child v link w g = do {
     (e, g) \<leftarrow> libmapping_graph_connect_vertices g v link;
     x \<leftarrow> aget (edges g) e;
     es \<leftarrow> aput (edges g) e (x\<lparr>e_weight := w, e_type := GRAPH_ELTYPE_UNDEFINED\<rparr>);
     Some (g\<lparr>edges := es\<rparr>)
   }"

section \<open>Trees\<close>

datatype topo_tree = Node (t_type: graph_eltype_t) (t_id: u32) (t_kids: "(int \<times> topo_tree) list")

fun nodes :: "topo_tree \<Rightarrow> nat" where
  "nodes (Node ty i kids) = Suc (sum_list (map (\<lambda>wk. nodes (snd wk)) kids))"

definition forest :: "(int \<times> topo_tree) list \<Rightarrow> nat" where
  "forest kids = sum_list (map (\<lambda>wk. nodes (snd wk)) kids)"

lemma nodes_forest: "nodes (Node ty i kids) = Suc (forest kids)"
  by (simp add: forest_def)

declare nodes.simps [simp del]

lemma nodes_pos: "0 < nodes t"
  by (cases t) (simp add: nodes_forest)

lemma forest_simps [simp]: "forest [] = 0" "forest (x # xs) = nodes (snd x) + forest xs" "forest (xs @ ys) = forest xs + forest ys"
  by (simp_all add: forest_def)

lemma forest_take_Suc: "j < length kids \<Longrightarrow> forest (take (Suc j) kids) = forest (take j kids) + nodes (snd (kids ! j))"
  by (simp add: take_Suc_conv_app_nth)

lemma forest_take_le: "forest (take j kids) \<le> forest kids"
proof -
  have "forest kids = forest (take j kids) + forest (drop j kids)"
    using forest_simps(3)[of "take j kids" "drop j kids"] by simp
  then show ?thesis by simp
qed

lemma length_le_forest: "length kids \<le> forest kids"
proof (induction kids)
  case (Cons x xs)
  then show ?case using nodes_pos[of "snd x"] by simp
qed simp

lemma nodes_kid: "wk \<in> set kids \<Longrightarrow> nodes (snd wk) < nodes (Node ty i kids)"
  using member_le_sum_list[of "nodes (snd wk)" "map (\<lambda>wk. nodes (snd wk)) kids"] by (auto simp: nodes.simps less_Suc_eq_le)

inductive tree_at :: "graph_t \<Rightarrow> nat \<Rightarrow> nat option \<Rightarrow> topo_tree \<Rightarrow> nat \<Rightarrow> bool" for g hi where
  node: "u < hi \<Longrightarrow> hi \<le> length (vertices g) \<Longrightarrow> v_type (vertices g ! u) = ty \<Longrightarrow> v_id (vertices g ! u) = i \<Longrightarrow>
    arity (vertices g ! u) = length kids + (if par = None then 0 else 1) \<Longrightarrow>
    arity (vertices g ! u) \<le> length (linked (vertices g ! u)) \<Longrightarrow>
    \<forall>j < length kids. \<exists>e c. linked (vertices g ! u) ! j = Some (e, c) \<and> e < used_edges g \<and> e < length (edges g) \<and>
      e_weight (edges g ! e) = fst (kids ! j) \<and> u < c \<and> tree_at g hi (Some u) (snd (kids ! j)) c \<Longrightarrow>
    \<forall>p. par = Some p \<longrightarrow> p < u \<and> (\<exists>e. linked (vertices g ! u) ! length kids = Some (e, p) \<and> e < used_edges g) \<Longrightarrow>
    tree_at g hi par (Node ty i kids) u"

inductive_cases tree_atE: "tree_at g hi par (Node ty i kids) u"

inductive_simps tree_at_simps: "tree_at g hi par (Node ty i kids) u"

text \<open>Only the vertices of the tree and the edges in use matter.\<close>

lemma tree_at_cong:
  assumes "tree_at g hi par t u" "same_below g g'" "length (edges g) = length (edges g')" "hi \<le> hi'" "hi' \<le> length (vertices g)"
    and "\<forall>v. u \<le> v \<and> v < hi \<longrightarrow> vertices g' ! v = vertices g ! v"
  shows "tree_at g' hi' par t u"
  using assms(1,6)
proof (induction rule: tree_at.induct)
  case (node u ty i kids par)
  have same: "vertices g' ! u = vertices g ! u" using node.prems node.hyps(1) by simp
  have used: "used_edges g \<le> used_edges g'" "\<And>e. e < used_edges g \<Longrightarrow> edges g' ! e = edges g ! e" "length (vertices g') = length (vertices g)"
    using assms(2) by (auto simp: same_below_def)
  have "\<forall>j < length kids. \<exists>e c. linked (vertices g' ! u) ! j = Some (e, c) \<and> e < used_edges g' \<and> e < length (edges g') \<and>
      e_weight (edges g' ! e) = fst (kids ! j) \<and> u < c \<and> tree_at g' hi' (Some u) (snd (kids ! j)) c"
  proof (intro allI impI)
    fix j assume "j < length kids"
    with node.IH obtain e c where "linked (vertices g ! u) ! j = Some (e, c)" "e < used_edges g" "e < length (edges g)"
      "e_weight (edges g ! e) = fst (kids ! j)" "u < c"
      "(\<forall>v. c \<le> v \<and> v < hi \<longrightarrow> vertices g' ! v = vertices g ! v) \<longrightarrow> tree_at g' hi' (Some u) (snd (kids ! j)) c" by blast
    with node.prems show "\<exists>e c. linked (vertices g' ! u) ! j = Some (e, c) \<and> e < used_edges g' \<and> e < length (edges g') \<and>
      e_weight (edges g' ! e) = fst (kids ! j) \<and> u < c \<and> tree_at g' hi' (Some u) (snd (kids ! j)) c"
      using used same assms(3) by (intro exI[of _ e] exI[of _ c]) auto
  qed
  moreover have "\<forall>p. par = Some p \<longrightarrow> p < u \<and> (\<exists>e. linked (vertices g' ! u) ! length kids = Some (e, p) \<and> e < used_edges g')"
    using node.hyps(7) used(1) same by fastforce
  ultimately show ?case
    using node.hyps(1-6) assms(4,5) used(3) by (intro tree_at.node) (simp_all add: same)
qed

text \<open>A root becomes a child: it gets a slot for its parent after those for its children.\<close>

lemma tree_at_link:
  assumes t: "tree_at g hi None t c" and same: "same_below g g'" "length (edges g) = length (edges g')" "hi \<le> hi'" "hi' \<le> length (vertices g)"
    and slot: "vertices g' ! c = add_slot (e, p) (vertices g ! c)" "arity (vertices g ! c) < length (linked (vertices g ! c))"
    and rest: "\<forall>v. c < v \<and> v < hi \<longrightarrow> vertices g' ! v = vertices g ! v" and e: "e < used_edges g'" "p < c"
  shows "tree_at g' hi' (Some p) t c"
proof (cases t)
  case (Node ty i kids)
  from t have n: "c < hi" "v_type (vertices g ! c) = ty" "v_id (vertices g ! c) = i" "arity (vertices g ! c) = length kids"
    and kids: "\<forall>j < length kids. \<exists>e c'. linked (vertices g ! c) ! j = Some (e, c') \<and> e < used_edges g \<and> e < length (edges g) \<and>
      e_weight (edges g ! e) = fst (kids ! j) \<and> c < c' \<and> tree_at g hi (Some c) (snd (kids ! j)) c'"
    unfolding Node tree_at_simps by simp_all
  have used: "used_edges g \<le> used_edges g'" "\<And>e. e < used_edges g \<Longrightarrow> edges g' ! e = edges g ! e" "length (vertices g') = length (vertices g)"
    using same(1) by (auto simp: same_below_def)
  have "\<forall>j < length kids. \<exists>e c'. linked (vertices g' ! c) ! j = Some (e, c') \<and> e < used_edges g' \<and> e < length (edges g') \<and>
      e_weight (edges g' ! e) = fst (kids ! j) \<and> c < c' \<and> tree_at g' hi' (Some c) (snd (kids ! j)) c'"
  proof (intro allI impI)
    fix j assume j: "j < length kids"
    with kids obtain e' c' where k: "linked (vertices g ! c) ! j = Some (e', c')" "e' < used_edges g" "e' < length (edges g)"
      "e_weight (edges g ! e') = fst (kids ! j)" "c < c'" "tree_at g hi (Some c) (snd (kids ! j)) c'" by blast
    have "tree_at g' hi' (Some c) (snd (kids ! j)) c'"
      by (rule tree_at_cong[OF k(6) same]) (use rest k(5) in auto)
    with k used same(2) j n(4) slot show "\<exists>e c'. linked (vertices g' ! c) ! j = Some (e, c') \<and> e < used_edges g' \<and> e < length (edges g') \<and>
      e_weight (edges g' ! e) = fst (kids ! j) \<and> c < c' \<and> tree_at g' hi' (Some c) (snd (kids ! j)) c'"
      by (intro exI[of _ e'] exI[of _ c']) (auto simp: add_slot_def)
  qed
  then show ?thesis
    unfolding Node using n slot e same(3,4) used(3) by (intro tree_at.node) (auto simp: add_slot_def)
qed

lemma tree_at_arity: "tree_at g hi None t c \<Longrightarrow> arity (vertices g ! c) < nodes t"
  using length_le_forest[of "t_kids t"] by (cases t) (simp add: tree_at_simps nodes_forest)

section \<open>Building a tree\<close>

text \<open>The state in the loop over the children of vertex \<open>u\<close>, of which \<open>j\<close> are built.\<close>

definition tree_growing :: "graph_eltype_t \<Rightarrow> u32 \<Rightarrow> (int \<times> topo_tree) list \<Rightarrow> nat \<Rightarrow> nat \<Rightarrow> graph_t \<Rightarrow> graph_t \<Rightarrow> bool" where
  "tree_growing ty i kids u j g g' \<longleftrightarrow> (let n = forest (take j kids); x = vertices g' ! u in
     graph_wf g' \<and> n_vertices g' = n_vertices g \<and> n_edges g' = n_edges g \<and>
     used_vertices g' = Suc u + n \<and> used_edges g' = used_edges g + n \<and> same_below g g' \<and>
     (\<forall>v < u. vertices g' ! v = vertices g ! v) \<and> arity x = j \<and> v_type x = ty \<and> v_id x = i \<and>
     (\<forall>k < j. \<exists>e c. linked x ! k = Some (e, c) \<and> e < used_edges g' \<and> e < length (edges g') \<and>
        e_weight (edges g' ! e) = fst (kids ! k) \<and> u < c \<and> tree_at g' (Suc u + n) (Some u) (snd (kids ! k)) c))"

text \<open>What a call leaves behind.\<close>

definition built :: "topo_tree \<Rightarrow> nat \<Rightarrow> graph_t \<Rightarrow> nat \<times> graph_t \<Rightarrow> bool" where
  "built t u g r \<longleftrightarrow> (let g' = snd r in fst r = u \<and>
     graph_wf g' \<and> n_vertices g' = n_vertices g \<and> n_edges g' = n_edges g \<and>
     used_vertices g' = u + nodes t \<and> Suc (used_edges g') = used_edges g + nodes t \<and> same_below g g' \<and>
     (\<forall>v < u. vertices g' ! v = vertices g ! v) \<and> tree_at g' (u + nodes t) None t u)"

lemma new_vertex_ok:
  assumes "graph_wf g" "u = used_vertices g" "u < n_vertices g"
  shows "wp (new_vertex ty i g) (\<lambda>(v, g'). v = u \<and> tree_growing ty i kids u 0 g g')"
proof -
  let ?x = "(vertices g ! u)\<lparr>arity := 0\<rparr>"
  let ?gx = "g\<lparr>used_vertices := u + 1, next_vertex := u + 1, vertices := (vertices g)[u := ?x]\<rparr>"
  have free: "libmapping_get_free_vertex g = Some (u, ?gx)"
    using free_vertex_eq[OF assms(1)] assms(2,3) by simp
  have len: "length (vertices g) = n_vertices g" using assms(1) by (simp add: graph_wf_def)
  have "graph_wf ?gx" by (rule free_vertex_wf[OF assms(1) free])
  then have "graph_wf (?gx\<lparr>vertices := (vertices g)[u := ?x\<lparr>v_type := ty, v_weight := 0, v_id := i\<rparr>]\<rparr>)"
    using assms(1,3) len by (auto simp: graph_wf_def dest!: set_update_subset_insert[THEN subsetD])
  then show ?thesis
    using assms(3) len unfolding new_vertex_def free
    by (simp add: set_gvertex_def tree_growing_def Let_def same_below_def)
qed

text \<open>Connecting a vertex with a tree that was built after it.\<close>

lemma link_child_grows:
  assumes grow: "tree_growing ty i kids u j g g1" and j: "j < length kids"
    and made: "built (snd (kids ! j)) (used_vertices g1) g1 (c, g2)"
    and room: "u + nodes (Node ty i kids) \<le> n_vertices g" "used_edges g + nodes (Node ty i kids) \<le> Suc (n_edges g)"
  shows "wp (link_child u c (fst (kids ! j)) g2) (tree_growing ty i kids u (Suc j) g)"
proof -
  let ?t = "snd (kids ! j)" and ?w = "fst (kids ! j)" and ?k = "used_edges g2" and ?n = "forest (take j kids)"
  let ?hi = "Suc u + forest (take (Suc j) kids)"
  note T = nodes_pos[of ?t] and next_n = forest_take_Suc[OF j]
  from grow have g1: "graph_wf g1" "n_vertices g1 = n_vertices g" "n_edges g1 = n_edges g" "used_vertices g1 = Suc u + ?n"
      "used_edges g1 = used_edges g + ?n" "same_below g g1" "\<And>v. v < u \<Longrightarrow> vertices g1 ! v = vertices g ! v"
      "arity (vertices g1 ! u) = j" "v_type (vertices g1 ! u) = ty" "v_id (vertices g1 ! u) = i"
    by (simp_all add: tree_growing_def Let_def)
  from grow have slots: "\<And>k. k < j \<Longrightarrow> \<exists>e c. linked (vertices g1 ! u) ! k = Some (e, c) \<and> e < used_edges g1 \<and> e < length (edges g1) \<and>
        e_weight (edges g1 ! e) = fst (kids ! k) \<and> u < c \<and> tree_at g1 (Suc u + ?n) (Some u) (snd (kids ! k)) c"
    unfolding tree_growing_def Let_def by blast
  from made have g2: "c = Suc u + ?n" "graph_wf g2" "n_vertices g2 = n_vertices g" "n_edges g2 = n_edges g"
      "used_vertices g2 = ?hi" "Suc ?k = used_edges g1 + nodes ?t" "same_below g1 g2"
      "\<And>v. v < c \<Longrightarrow> vertices g2 ! v = vertices g1 ! v" "tree_at g2 ?hi None ?t c"
    using g1(2-4) by (simp_all add: built_def Let_def next_n add.assoc)
  have fits: "Suc u + forest (take (Suc j) kids) \<le> n_vertices g" "used_edges g + forest (take (Suc j) kids) \<le> n_edges g"
    using room forest_take_le[of "Suc j" kids] by (simp_all add: nodes_forest)
  have bounds: "?k < n_edges g2" "u < n_vertices g2" "c < n_vertices g2" "u \<noteq> c"
    using fits g1(5) g2(1,3,4,6) T next_n by auto
  have len: "length (vertices g2) = n_vertices g2" "length (edges g2) = n_edges g2"
    "length (linked (vertices g2 ! u)) = n_vertices g2" "length (linked (vertices g2 ! c)) = n_vertices g2"
    using g2(2) bounds by (auto simp: graph_wf_def)
  have len1: "length (vertices g1) = n_vertices g" "length (edges g1) = n_edges g"
    using g1(1-3) by (simp_all add: graph_wf_def)
  have u2: "vertices g2 ! u = vertices g1 ! u" using g2(8)[of u] g2(1) by simp
  have "j \<le> ?n" using length_le_forest[of "take j kids"] j by simp
  then have ar: "arity (vertices g2 ! u) < n_vertices g2" "arity (vertices g2 ! c) < n_vertices g2"
    using fits(1) tree_at_arity[OF g2(9)] u2 g1(8) g2(3) next_n by auto
  note conn = connect_eq[OF g2(2) bounds ar]
  note conn_wf = connect_wf[OF g2(2) bounds ar conn]
  define vs where "vs = (vertices g2)[u := add_slot (?k, c) (vertices g2 ! u), c := add_slot (?k, u) (vertices g2 ! c)]"
  define es where "es = (edges g2)[?k := (edges g2 ! ?k)\<lparr>e_src := u, e_dest := c, e_weight := ?w, e_type := GRAPH_ELTYPE_UNDEFINED\<rparr>]"
  define g4 where "g4 = g2\<lparr>used_edges := ?k + 1, next_edge := ?k + 1, vertices := vs, edges := es\<rparr>"
  have run: "link_child u c ?w g2 = Some g4"
    using bounds(1) len(2) unfolding link_child_def conn by (simp add: g4_def vs_def es_def)
  have wf4: "graph_wf g4" using conn_wf by (simp add: graph_wf_def g4_def vs_def es_def)
  have low: "same_below g2 g4" using len by (auto simp: same_below_def g4_def vs_def es_def add_slot_def)
  have below: "same_below g1 g4" by (rule same_below_trans[OF g2(7) low])
  have k4: "?k < used_edges g4" "?k < length (edges g4)" "e_weight (edges g4 ! ?k) = ?w"
    using bounds(1) len by (simp_all add: g4_def es_def)
  have elen: "length (edges g2) = length (edges g4)" "length (edges g1) = length (edges g4)"
    using len len1 g2(4) by (simp_all add: g4_def es_def)
  have v4: "vertices g4 ! v = vertices g2 ! v" if "v \<noteq> u" "v \<noteq> c" for v
    using that by (simp add: g4_def vs_def)
  have u4: "vertices g4 ! u = add_slot (?k, c) (vertices g1 ! u)"
    using bounds len u2 by (simp add: g4_def vs_def)
  have c4: "vertices g4 ! c = add_slot (?k, u) (vertices g2 ! c)"
    using bounds len by (simp add: g4_def vs_def)
  have new: "tree_at g4 ?hi (Some u) ?t c"
    by (rule tree_at_link[OF g2(9) low elen(1) _ _ c4]) (use ar len v4 k4 bounds g2(1,3) fits in auto)
  have old: "tree_at g4 ?hi (Some u) t c'" if "tree_at g1 (Suc u + ?n) (Some u) t c'" "u < c'" for t c'
    by (rule tree_at_cong[OF that(1) below elen(2)]) (use that(2) v4 g2(1,8) next_n fits len1 in auto)
  have slots4: "\<exists>e c'. linked (vertices g4 ! u) ! k = Some (e, c') \<and> e < used_edges g4 \<and> e < length (edges g4) \<and>
        e_weight (edges g4 ! e) = fst (kids ! k) \<and> u < c' \<and> tree_at g4 ?hi (Some u) (snd (kids ! k)) c'" if "k < Suc j" for k
  proof (cases "k = j")
    case True
    have "j < length (linked (vertices g1 ! u))" using ar(1) len(3) u2 g1(8) by simp
    then have "linked (vertices g4 ! u) ! k = Some (?k, c)" using True by (simp add: u4 add_slot_def g1(8))
    then show ?thesis using True k4 new g2(1) by (intro exI[of _ ?k] exI[of _ c]) simp
  next
    case False
    with that have k: "k < j" by simp
    from slots[OF k] obtain e c' where e: "linked (vertices g1 ! u) ! k = Some (e, c')" "e < used_edges g1" "e < length (edges g1)"
      "e_weight (edges g1 ! e) = fst (kids ! k)" "u < c'" "tree_at g1 (Suc u + ?n) (Some u) (snd (kids ! k)) c'" by blast
    moreover have "edges g4 ! e = edges g1 ! e" "e < used_edges g4" using below e(2) by (auto simp: same_below_def)
    moreover have "linked (vertices g4 ! u) ! k = linked (vertices g1 ! u) ! k"
      using k by (simp add: u4 add_slot_def g1(8))
    ultimately show ?thesis using old elen(2) by (intro exI[of _ e] exI[of _ c']) simp
  qed
  have "tree_growing ty i kids u (Suc j) g g4"
    unfolding tree_growing_def Let_def
  proof (intro conjI)
    show "same_below g g4" by (rule same_below_trans[OF g1(6) below])
    show "\<forall>v < u. vertices g4 ! v = vertices g ! v" using v4 g1(7) g2(1,8) by simp
    show "\<forall>k < Suc j. \<exists>e c. linked (vertices g4 ! u) ! k = Some (e, c) \<and> e < used_edges g4 \<and> e < length (edges g4) \<and>
        e_weight (edges g4 ! e) = fst (kids ! k) \<and> u < c \<and> tree_at g4 ?hi (Some u) (snd (kids ! k)) c"
      using slots4 by blast
  qed (use wf4 g1 g2 u4 next_n in \<open>simp_all add: g4_def add_slot_def\<close>)
  with run show ?thesis by simp
qed

lemma tree_built:
  assumes "tree_growing ty i kids u (length kids) g g'" "u < n_vertices g" "u + nodes (Node ty i kids) \<le> n_vertices g"
  shows "built (Node ty i kids) u g (u, g')"
proof -
  from assms(1) have g': "graph_wf g'" "n_vertices g' = n_vertices g" "arity (vertices g' ! u) = length kids"
    by (simp_all add: tree_growing_def Let_def)
  then have rows: "length (linked (vertices g' ! u)) = n_vertices g" "length (vertices g') = n_vertices g"
    using assms(2) by (auto simp: graph_wf_def)
  have "length kids \<le> n_vertices g" using length_le_forest[of kids] assms(3) by (simp add: nodes_forest)
  then have "tree_at g' (u + nodes (Node ty i kids)) None (Node ty i kids) u"
    using assms rows g' by (intro tree_at.node) (auto simp: tree_growing_def Let_def nodes_forest)
  then show ?thesis
    using assms(1) by (simp add: built_def tree_growing_def Let_def nodes_forest)
qed

lemma tree_growing_room:
  assumes "tree_growing ty i kids u j g g1" "j < length kids"
    and "u + nodes (Node ty i kids) \<le> n_vertices g" "used_edges g + nodes (Node ty i kids) \<le> Suc (n_edges g)"
  shows "graph_wf g1" "used_vertices g1 + nodes (snd (kids ! j)) \<le> n_vertices g1"
    "used_edges g1 + nodes (snd (kids ! j)) \<le> Suc (n_edges g1)"
  using assms forest_take_le[of "Suc j" kids] by (simp_all add: tree_growing_def Let_def nodes_forest forest_take_Suc)

section \<open>The contract of building operations\<close>

text \<open>
  \<open>load x\<close> adds the tree \<open>shape x\<close> to a graph with room for it. In a new graph it is then the whole tree, from the
  first vertex on.
\<close>

locale tree_builder =
  fixes load :: "'x \<Rightarrow> graph_t \<Rightarrow> (nat \<times> graph_t) option"
    and shape :: "'x \<Rightarrow> topo_tree"
    and ready :: "'x \<Rightarrow> bool"
  assumes builds: "ready x \<Longrightarrow> graph_wf g \<Longrightarrow> u = used_vertices g \<Longrightarrow> u + nodes (shape x) \<le> n_vertices g \<Longrightarrow>
    used_edges g + nodes (shape x) \<le> Suc (n_edges g) \<Longrightarrow> wp (load x g) (built (shape x) u g)"
begin

lemma in_new_graph:
  assumes "ready x" "nodes (shape x) \<le> nv"
  shows "wp (do { g \<leftarrow> libmapping_graph_init True jv je nv (nv - 1); load x g }) (\<lambda>(root, g). root = 0 \<and> graph_wf g \<and>
    n_vertices g = nv \<and> n_edges g = nv - 1 \<and> used_vertices g = nodes (shape x) \<and> Suc (used_edges g) = nodes (shape x) \<and>
    tree_at g (nodes (shape x)) None (shape x) 0)"
proof -
  obtain g where init: "libmapping_graph_init True jv je nv (nv - 1) = Some g" and g: "graph_wf g" "n_vertices g = nv"
      "n_edges g = nv - 1" "used_vertices g = 0" "used_edges g = 0"
    using graph_init_wf[of nv jv je "nv - 1"] assms(2) nodes_pos[of "shape x"] by (auto simp: less_le_trans)
  have "wp (load x g) (built (shape x) 0 g)" by (rule builds[OF assms(1)]) (use g assms(2) in simp_all)
  then show ?thesis using init g by (auto simp: wp_iff built_def Let_def)
qed

end

end
