(* ===== verification/Cdsm_Hwloc.thy ===== *)
theory Cdsm_Hwloc
  imports Cdsm_Tree
begin

text \<open>
  Loading the topology that hwloc detects, \<open>lm_hwloc_get_n_vertices\<close> and \<open>lm_hwloc_load_topology\<close> in
  \<open>src/libmapping/topology.c\<close>, which the library compiles when hwloc is there (the module does not). hwloc's objects
  are its own: \<open>hwloc_obj\<close> has the fields that the code reads, the type, the index and the children. An object type
  that the code does not name is \<open>HWLOC_OBJ_OTHER\<close>.
\<close>

section \<open>The code\<close>

datatype hwloc_obj_type = HWLOC_OBJ_MACHINE | HWLOC_OBJ_NODE | HWLOC_OBJ_SOCKET | HWLOC_OBJ_CACHE | HWLOC_OBJ_CORE
  | HWLOC_OBJ_PU | HWLOC_OBJ_OTHER

datatype hwloc_obj = Obj (o_type: hwloc_obj_type) (os_index: u32) (o_children: "hwloc_obj list")

fun lm_hwloc_get_n_vertices :: "hwloc_obj \<Rightarrow> nat" where
  "lm_hwloc_get_n_vertices (Obj ty idx cs) = fold (\<lambda>c n. n + lm_hwloc_get_n_vertices c) cs 1"

text \<open>The type of the vertex and the weight of the edges to its children.\<close>

fun hwloc_vertex :: "hwloc_obj_type \<Rightarrow> graph_eltype_t \<times> int" where
  "hwloc_vertex HWLOC_OBJ_MACHINE = (GRAPH_ELTYPE_ROOT, 1)"
| "hwloc_vertex HWLOC_OBJ_NODE = (GRAPH_ELTYPE_NUMA_NODE, 100)"
| "hwloc_vertex HWLOC_OBJ_SOCKET = (GRAPH_ELTYPE_SOCKET, 1)"
| "hwloc_vertex HWLOC_OBJ_CACHE = (GRAPH_ELTYPE_CACHE, 1)"
| "hwloc_vertex HWLOC_OBJ_CORE = (GRAPH_ELTYPE_CORE, 0)"
| "hwloc_vertex HWLOC_OBJ_PU = (GRAPH_ELTYPE_PU, 1)"
| "hwloc_vertex HWLOC_OBJ_OTHER = (GRAPH_ELTYPE_UNDEFINED, 1)"

fun lm_hwloc_load_topology :: "hwloc_obj \<Rightarrow> graph_t \<Rightarrow> (nat \<times> graph_t) option" where
  "lm_hwloc_load_topology (Obj ty idx cs) g = do {
     let (vtype, eweight) = hwloc_vertex ty;
     (v, g) \<leftarrow> new_vertex vtype idx g;
     g \<leftarrow> foldM (\<lambda>c g. do {
       (link, g) \<leftarrow> lm_hwloc_load_topology c g;
       link_child v link eweight g
     }) cs g;
     Some (v, g)
   }"

text \<open>The part of \<open>libmapping_topology_init\<close> that uses hwloc: the graph has room for the objects.\<close>

definition hwloc_topology :: "bool \<Rightarrow> vertex_t \<Rightarrow> edge_t \<Rightarrow> hwloc_obj \<Rightarrow> (nat \<times> graph_t) option" where
  "hwloc_topology allocated junk_v junk_e obj = do {
     let n = lm_hwloc_get_n_vertices obj;
     g \<leftarrow> libmapping_graph_init allocated junk_v junk_e n (n - 1);
     lm_hwloc_load_topology obj g
   }"

section \<open>What it builds\<close>

fun hwloc_tree :: "hwloc_obj \<Rightarrow> topo_tree" where
  "hwloc_tree (Obj ty idx cs) = Node (fst (hwloc_vertex ty)) idx (map (\<lambda>c. (snd (hwloc_vertex ty), hwloc_tree c)) cs)"

lemma fold_plus: "fold (\<lambda>c n. n + f c) cs n = n + sum_list (map f cs)" for n :: nat
  by (induction cs arbitrary: n) (simp_all add: add.assoc)

lemma hwloc_n_vertices: "lm_hwloc_get_n_vertices obj = nodes (hwloc_tree obj)"
proof (induction obj rule: hwloc_tree.induct)
  case (1 ty idx cs)
  show ?case by (simp add: fold_plus nodes.simps comp_def 1 cong: map_cong)
qed

lemma wp_foldM_nth:
  assumes "I 0 s" and "\<And>j s. j < length xs \<Longrightarrow> I j s \<Longrightarrow> wp (f (xs ! j) s) (I (Suc j))"
  shows "wp (foldM f xs s) (I (length xs))"
proof -
  have "foldM f (map ((!) xs) [0..<length xs]) s = foldM f xs s" by (simp only: map_nth)
  moreover have "wp (foldM (\<lambda>j. f (xs ! j)) [0..<length xs] s) (I (length xs))"
    by (rule wp_for0[where I = I]) (use assms in auto)
  ultimately show ?thesis by (simp add: foldM_map)
qed

lemma hwloc_load_ok:
  assumes "graph_wf g" "u = used_vertices g" "u + nodes (hwloc_tree obj) \<le> n_vertices g"
    and "used_edges g + nodes (hwloc_tree obj) \<le> Suc (n_edges g)"
  shows "wp (lm_hwloc_load_topology obj g) (built (hwloc_tree obj) u g)"
  using assms
proof (induction obj arbitrary: u g rule: hwloc_tree.induct)
  case (1 ty idx cs)
  obtain vt w where vw: "hwloc_vertex ty = (vt, w)" by (cases "hwloc_vertex ty")
  let ?kids = "map (\<lambda>c. (w, hwloc_tree c)) cs"
  have room: "u + nodes (Node vt idx ?kids) \<le> n_vertices g" "used_edges g + nodes (Node vt idx ?kids) \<le> Suc (n_edges g)"
    using 1(4,5) vw by simp_all
  have u: "u < n_vertices g" using room(1) nodes_pos[of "Node vt idx ?kids"] by simp
  obtain g1 where new: "new_vertex vt idx g = Some (u, g1)" and start: "tree_growing vt idx ?kids u 0 g g1"
    using new_vertex_ok[OF 1(2,3) u, of vt idx ?kids] by (auto elim!: wpE)
  let ?f = "\<lambda>c g. do { (link, g) \<leftarrow> lm_hwloc_load_topology c g; link_child u link w g }"
  have "wp (foldM ?f cs g1) (tree_growing vt idx ?kids u (length cs) g)"
  proof (rule wp_foldM_nth[where I = "\<lambda>j. tree_growing vt idx ?kids u j g", OF start])
    fix j g2 assume j: "j < length cs" and grow: "tree_growing vt idx ?kids u j g g2"
    then have jk: "j < length ?kids" and kid: "?kids ! j = (w, hwloc_tree (cs ! j))" by simp_all
    note room2 = tree_growing_room[OF grow jk room, unfolded kid snd_conv]
    have "wp (lm_hwloc_load_topology (cs ! j) g2) (built (hwloc_tree (cs ! j)) (used_vertices g2) g2)"
      by (rule 1(1)) (use j room2 in simp_all)
    then obtain l g3 where "lm_hwloc_load_topology (cs ! j) g2 = Some (l, g3)"
      and made: "built (hwloc_tree (cs ! j)) (used_vertices g2) g2 (l, g3)" by (auto simp: wp_iff)
    with link_child_grows[OF grow jk _ room, of l g3] kid
    show "wp (?f (cs ! j) g2) (tree_growing vt idx ?kids u (Suc j) g)" by simp
  qed
  then obtain g' where loop: "foldM ?f cs g1 = Some g'" and grown: "tree_growing vt idx ?kids u (length ?kids) g g'"
    by (auto elim!: wpE)
  show ?case using new loop tree_built[OF grown u room(1)] by (simp add: vw)
qed

interpretation hwloc: tree_builder lm_hwloc_load_topology hwloc_tree "\<lambda>_. True"
  by unfold_locales (rule hwloc_load_ok)

lemma hwloc_topology_ok:
  "wp (hwloc_topology True jv je obj) (\<lambda>(root, g). root = 0 \<and> graph_wf g \<and> n_vertices g = nodes (hwloc_tree obj) \<and>
     used_vertices g = n_vertices g \<and> used_edges g = n_edges g \<and> tree_at g (n_vertices g) None (hwloc_tree obj) 0)"
  using hwloc.in_new_graph[of obj "nodes (hwloc_tree obj)" jv je] nodes_pos[of "hwloc_tree obj"]
  unfolding hwloc_topology_def hwloc_n_vertices Let_def by (auto elim!: wp_mono)

section \<open>Properties\<close>


end
