(* ===== verification/Cdsm_Floyd.thy ===== *)
theory Cdsm_Floyd
  imports Cdsm_Topology
begin

text \<open>
  The distances between processing units, \<open>floyd_warshall\<close> in \<open>src/libmapping/topology.c\<close>. The matrices of
  distances are flat arrays of 32-bit words whose index is computed on 32 bits; \<open>alloc\<close> is what
  \<open>lm_calloc\<close> (a \<open>kmalloc\<close> in the module) returns for a number of words.

  The main result is that the matrix holds the weights of the shortest paths of the graph, although the
  code updates it in place.
\<close>

section \<open>The code\<close>

definition dist_index :: "nat \<Rightarrow> nat \<Rightarrow> nat \<Rightarrow> nat" where
  "dist_index lg i j = unat (push_bit lg (of_nat i) + of_nat j :: u32)"

definition dget :: "nat \<Rightarrow> nat \<Rightarrow> nat \<Rightarrow> u32 list \<Rightarrow> u32 option" where
  "dget lg i j d = aget d (dist_index lg i j)"

definition dput :: "nat \<Rightarrow> nat \<Rightarrow> nat \<Rightarrow> u32 \<Rightarrow> u32 list \<Rightarrow> u32 list option" where
  "dput lg i j v d = aput d (dist_index lg i j) v"

definition USHRT_MAX :: u32 where
  "USHRT_MAX = 65535"

definition fw_init :: "nat \<Rightarrow> nat \<Rightarrow> u32 list \<Rightarrow> u32 list option" where
  "fw_init lg n d = foldM (\<lambda>i d. do {
       d \<leftarrow> dput lg i i 0 d;
       foldM (\<lambda>j d. do { d \<leftarrow> dput lg j i USHRT_MAX d; dput lg i j USHRT_MAX d }) [i + 1..<n] d
     }) [0..<n] d"

definition fw_edges :: "nat \<Rightarrow> graph_t \<Rightarrow> u32 list \<Rightarrow> u32 list option" where
  "fw_edges lg g d = foldM (\<lambda>i d. do {
       x \<leftarrow> aget (vertices g) i;
       foldM (\<lambda>j d. do {
         slot \<leftarrow> aget (linked x) j;
         (e, w) \<leftarrow> slot;
         y \<leftarrow> aget (vertices g) w;
         ed \<leftarrow> aget (edges g) e;
         dput lg i (v_pos y) (word_of_int (e_weight ed)) d
       }) [0..<arity x] d
     }) [0..<n_vertices g] d"

definition fw_relax :: "nat \<Rightarrow> nat \<Rightarrow> nat \<Rightarrow> nat \<Rightarrow> u32 list \<Rightarrow> u32 list option" where
  "fw_relax lg k i j d = do {
     a \<leftarrow> dget lg i k d;
     b \<leftarrow> dget lg k j d;
     c \<leftarrow> dget lg i j d;
     if c > a + b then dput lg i j (a + b) d else Some d
   }"

definition fw_stage :: "nat \<Rightarrow> nat \<Rightarrow> nat \<Rightarrow> u32 list \<Rightarrow> u32 list option" where
  "fw_stage lg n k d = foldM (\<lambda>i. foldM (fw_relax lg k i) [0..<n]) [0..<n] d"

definition fw_pus :: "nat \<Rightarrow> nat \<Rightarrow> graph_t \<Rightarrow> u32 list \<Rightarrow> u32 list \<Rightarrow> u32 list option" where
  "fw_pus lg lgp g d dp = foldM (\<lambda>i. foldM (\<lambda>j dp. do {
       x \<leftarrow> aget (vertices g) i;
       y \<leftarrow> aget (vertices g) j;
       if v_type x = GRAPH_ELTYPE_PU \<and> v_type y = GRAPH_ELTYPE_PU
       then do { v \<leftarrow> dget lg i j d; dput lgp (unat (v_id x)) (unat (v_id y)) v dp }
       else Some dp
     }) [0..<n_vertices g]) [0..<n_vertices g] dp"

text \<open>The dimension of a matrix and its logarithm, for \<open>n\<close> rows.\<close>

definition dist_dim :: "nat \<Rightarrow> (u32 \<times> nat) option" where
  "dist_dim n = do {
     p \<leftarrow> libmapping_get_next_power_of_two (of_nat n);
     let dim = ucast p;
     lg \<leftarrow> libmapping_get_log2 (ucast (dim :: u32));
     Some (dim, unat lg)
   }"

text \<open>The result is \<open>dist_pus_dim\<close>, \<open>dist_pus_dim_log\<close> and \<open>dist_pus_\<close>.\<close>

definition floyd_warshall :: "(nat \<Rightarrow> u32 list option) \<Rightarrow> graph_t \<Rightarrow> nat \<Rightarrow> (u32 \<times> nat \<times> u32 list) option" where
  "floyd_warshall alloc g pu_number = do {
     (dim, lg) \<leftarrow> dist_dim (n_vertices g);
     (dimp, lgp) \<leftarrow> dist_dim pu_number;
     d \<leftarrow> alloc (unat (dim * dim));
     dp \<leftarrow> alloc (unat (dimp * dimp));
     d \<leftarrow> fw_init lg (n_vertices g) d;
     d \<leftarrow> fw_edges lg g d;
     d \<leftarrow> foldM (fw_stage lg (n_vertices g)) [0..<n_vertices g] d;
     dp \<leftarrow> foldM (\<lambda>i. foldM (\<lambda>j. dput lgp i j 0) [0..<pu_number]) [0..<pu_number] dp;
     dp \<leftarrow> fw_pus lg lgp g d dp;
     Some (dimp, lgp, dp)
   }"

text \<open>\<open>libmapping_topology_dist_pus\<close>.\<close>

definition libmapping_topology_dist_pus :: "nat \<Rightarrow> u32 list \<Rightarrow> nat \<Rightarrow> nat \<Rightarrow> u32 option" where
  "libmapping_topology_dist_pus lgp dp pu1 pu2 = dget lgp pu1 pu2 dp"

section \<open>Shortest paths\<close>

type_synonym weights = "nat \<Rightarrow> nat \<Rightarrow> nat"

fun path_weight :: "weights \<Rightarrow> nat list \<Rightarrow> nat" where
  "path_weight W [] = 0"
| "path_weight W [v] = 0"
| "path_weight W (u # v # p) = W u v + path_weight W (v # p)"

definition is_path :: "nat \<Rightarrow> nat \<Rightarrow> nat \<Rightarrow> nat list \<Rightarrow> bool" where
  "is_path n i j p \<longleftrightarrow> p \<noteq> [] \<and> hd p = i \<and> last p = j \<and> set p \<subseteq> {..<n}"

definition shortest :: "nat \<Rightarrow> weights \<Rightarrow> nat \<Rightarrow> nat \<Rightarrow> nat \<Rightarrow> bool" where
  "shortest n W i j x \<longleftrightarrow> (\<exists>p. is_path n i j p \<and> path_weight W p = x) \<and> (\<forall>p. is_path n i j p \<longrightarrow> x \<le> path_weight W p)"

lemma shortest_cong:
  "(\<And>q. is_path n i j q \<Longrightarrow> path_weight W q = path_weight V q) \<Longrightarrow> shortest n W i j x \<Longrightarrow> shortest n V i j x"
  unfolding shortest_def by metis

definition relax :: "nat \<Rightarrow> weights \<Rightarrow> weights" where
  "relax k M = (\<lambda>i j. min (M i j) (M i k + M k j))"

lemma path_weight_join: "path_weight W (xs @ k # ys) = path_weight W (xs @ [k]) + path_weight W (k # ys)"
  by (induction W xs rule: path_weight.induct) simp_all

lemma relax_row: "relax k M i k = M i k" "relax k M k j = M k j"
  by (simp_all add: relax_def)

lemma stages_achieved:
  assumes "k \<le> n"
  shows "i < n \<Longrightarrow> j < n \<Longrightarrow> \<exists>p. is_path n i j p \<and> path_weight W p = fold relax [0..<k] W i j"
  using assms
proof (induction k arbitrary: i j)
  case 0
  then show ?case by (intro exI[of _ "[i, j]"]) (simp add: is_path_def)
next
  case (Suc k)
  let ?D = "fold relax [0..<k] W"
  have eq: "fold relax [0..<Suc k] W i j = min (?D i j) (?D i k + ?D k j)" by (simp add: relax_def)
  show ?case
  proof (cases "?D i j \<le> ?D i k + ?D k j")
    case True
    with Suc eq show ?thesis by auto
  next
    case False
    obtain p q where p: "is_path n i k p" "path_weight W p = ?D i k" and q: "is_path n k j q" "path_weight W q = ?D k j"
      using Suc.IH[of i k] Suc.IH[of k j] Suc.prems by auto
    obtain xs where xs: "p = xs @ [k]" using p(1) by (auto simp: is_path_def) (metis append_butlast_last_id)
    obtain ys where ys: "q = k # ys" using q(1) by (auto simp: is_path_def) (metis hd_Cons_tl)
    have "is_path n i j (xs @ k # ys)"
      using p(1) q(1) unfolding xs ys is_path_def by (cases xs) auto
    moreover have "path_weight W (xs @ k # ys) = ?D i k + ?D k j"
      using p(2) q(2) path_weight_join[of W xs k ys] unfolding xs ys by simp
    ultimately show ?thesis using eq False by auto
  qed
qed

lemma stages_least:
  assumes "\<And>v. W v v = (0 :: nat)"
  shows "set xs \<subseteq> {..<k} \<Longrightarrow> fold relax [0..<k] W i j \<le> path_weight W (i # xs @ [j])"
proof (induction k arbitrary: i j xs)
  case 0
  then show ?case by simp
next
  case (Suc k)
  let ?D = "fold relax [0..<k] W" and ?E = "fold relax [0..<Suc k] W"
  have eq: "?E = relax k ?D" by simp
  show ?case
    using Suc.prems
  proof (induction "length xs" arbitrary: i xs rule: less_induct)
    case less
    show ?case
    proof (cases "k \<in> set xs")
      case False
      with less.prems have "set xs \<subseteq> {..<k}" by (auto simp: less_Suc_eq)
      from Suc.IH[OF this, of i j] show ?thesis unfolding eq relax_def by linarith
    next
      case True
      then obtain ys zs where xs: "xs = ys @ k # zs" "k \<notin> set ys" by (meson split_list_first)
      have "set ys \<subseteq> {..<k}" using less.prems xs by (auto simp: less_Suc_eq)
      from Suc.IH[OF this, of i k] have ik: "?D i k \<le> path_weight W (i # ys @ [k])" .
      have "?E k j \<le> path_weight W (k # zs @ [j])" using less.hyps[of zs k] less.prems xs(1) by simp
      then have "?D k j \<le> path_weight W (k # zs @ [j])" unfolding eq relax_row(2) .
      moreover have "path_weight W (i # xs @ [j]) = path_weight W (i # ys @ [k]) + path_weight W (k # zs @ [j])"
        using path_weight_join[of W "i # ys" k "zs @ [j]"] xs(1) by simp
      ultimately show ?thesis using ik unfolding eq relax_def by linarith
    qed
  qed
qed

lemma stages_shortest:
  assumes diag: "\<And>v. W v v = (0 :: nat)" and ij: "i < n" "j < n"
  shows "shortest n W i j (fold relax [0..<n] W i j)"
  unfolding shortest_def
proof (intro conjI allI impI)
  show "\<exists>p. is_path n i j p \<and> path_weight W p = fold relax [0..<n] W i j" by (rule stages_achieved) (use ij in auto)
  fix p assume p: "is_path n i j p"
  show "fold relax [0..<n] W i j \<le> path_weight W p"
  proof (cases "tl p = []")
    case True
    then have "p = [i]" "i = j" using p by (cases p; auto simp: is_path_def)+
    then show ?thesis using stages_least[where W = W and xs = "[]" and k = n and i = i and j = j, OF diag] diag by simp
  next
    case False
    then have "p = i # butlast (tl p) @ [j]" using p by (cases p) (auto simp: is_path_def)
    moreover have "set (butlast (tl p)) \<subseteq> {..<n}"
      using p by (cases p) (auto simp: is_path_def dest: in_set_butlastD)
    ultimately show ?thesis using stages_least[where W = W and xs = "butlast (tl p)" and k = n and i = i and j = j, OF diag] by metis
  qed
qed

section \<open>The matrices\<close>

text \<open>A square of \<open>2 ^ lg\<close> rows; \<open>dval\<close> is the number in a cell.\<close>

definition grid :: "nat \<Rightarrow> u32 list \<Rightarrow> bool" where
  "grid lg d \<longleftrightarrow> lg \<le> 15 \<and> length d = 2 ^ lg * 2 ^ lg"

definition dval :: "nat \<Rightarrow> u32 list \<Rightarrow> nat \<Rightarrow> nat \<Rightarrow> nat" where
  "dval lg d i j = unat (d ! (i * 2 ^ lg + j))"

lemma grid_cell:
  assumes "i < 2 ^ lg" "j < (2 :: nat) ^ lg"
  shows "i * 2 ^ lg + j < 2 ^ lg * 2 ^ lg"
proof -
  have "Suc i * 2 ^ lg \<le> 2 ^ lg * 2 ^ lg" using assms(1) by (intro mult_le_mono1) simp
  with assms(2) show ?thesis by simp
qed

lemma grid_inj:
  assumes "j < 2 ^ lg" "l < (2 :: nat) ^ lg" "i * 2 ^ lg + j = k * 2 ^ lg + l"
  shows "i = k \<and> j = l"
proof -
  have "(i * 2 ^ lg + j) div 2 ^ lg = i" "(k * 2 ^ lg + l) div 2 ^ lg = k"
    "(i * 2 ^ lg + j) mod 2 ^ lg = j" "(k * 2 ^ lg + l) mod 2 ^ lg = l" using assms(1,2) by simp_all
  with assms(3) show ?thesis by metis
qed

lemma dist_index_eq:
  assumes "lg \<le> 15" "i < 2 ^ lg" "j < 2 ^ lg"
  shows "dist_index lg i j = i * 2 ^ lg + j"
proof -
  have "(2 :: nat) ^ lg * 2 ^ lg \<le> 2 ^ 15 * 2 ^ 15" using assms(1) by (intro mult_le_mono power_increasing) auto
  with grid_cell[OF assms(2,3)] have lt: "i * 2 ^ lg + j < 2 ^ 32" by simp
  have "push_bit lg (of_nat i) + of_nat j = (of_nat (i * 2 ^ lg + j) :: u32)" by (simp add: push_bit_eq_mult)
  then show ?thesis using lt by (simp only: dist_index_def unat_of_nat) (simp add: mod_less)
qed

lemma dget_eq: "grid lg d \<Longrightarrow> i < 2 ^ lg \<Longrightarrow> j < 2 ^ lg \<Longrightarrow> dget lg i j d = Some (d ! (i * 2 ^ lg + j))"
  using grid_cell by (simp add: dget_def grid_def dist_index_eq)

lemma dput_ok:
  assumes "grid lg d" "i < 2 ^ lg" "j < 2 ^ lg"
  shows "wp (dput lg i j v d) (\<lambda>d'. grid lg d' \<and>
    (\<forall>k < 2 ^ lg. \<forall>l < 2 ^ lg. dval lg d' k l = (if k = i \<and> l = j then unat v else dval lg d k l)))"
proof -
  have "i * 2 ^ lg + j < length d" using grid_cell[OF assms(2,3)] assms(1) by (simp add: grid_def)
  then show ?thesis
    using assms grid_inj[of _ lg j _ i]
    by (auto simp: dput_def grid_def dist_index_eq dval_def nth_list_update dest: grid_inj)
qed

text \<open>What \<open>d\<close> says about the vertices below \<open>n\<close>.\<close>

definition shows_weights :: "nat \<Rightarrow> nat \<Rightarrow> u32 list \<Rightarrow> weights \<Rightarrow> bool" where
  "shows_weights lg n d M \<longleftrightarrow> grid lg d \<and> n \<le> 2 ^ lg \<and> (\<forall>i < n. \<forall>j < n. dval lg d i j = M i j)"

lemma shows_put:
  assumes "shows_weights lg n d M" "i < n" "j < n"
    and "\<And>a b. a < n \<Longrightarrow> b < n \<Longrightarrow> M' a b = (if a = i \<and> b = j then unat v else M a b)"
  shows "wp (dput lg i j v d) (\<lambda>d'. shows_weights lg n d' M')"
proof -
  have d: "grid lg d" "n \<le> 2 ^ lg" "i < 2 ^ lg" "j < 2 ^ lg" using assms(1-3) by (simp_all add: shows_weights_def)
  show ?thesis
    by (rule wp_mono[OF dput_ok[OF d(1,3,4)]]) (use assms(1,4) d(2) in \<open>auto simp: shows_weights_def\<close>)
qed

lemma shows_cong:
  "shows_weights lg n d M \<Longrightarrow> (\<And>a b. a < n \<Longrightarrow> b < n \<Longrightarrow> M' a b = M a b) \<Longrightarrow> shows_weights lg n d M'"
  by (simp add: shows_weights_def)

section \<open>The phases\<close>

definition fw_graph :: "graph_t \<Rightarrow> bool" where
  "fw_graph g \<longleftrightarrow> length (vertices g) = n_vertices g \<and> 0 < n_vertices g \<and> n_vertices g \<le> 2 ^ 15 \<and>
     (\<forall>i < n_vertices g. v_pos (vertices g ! i) = i \<and> arity (vertices g ! i) \<le> length (linked (vertices g ! i)) \<and>
       (\<forall>j < arity (vertices g ! i). \<exists>e w. linked (vertices g ! i) ! j = Some (e, w) \<and> e < length (edges g) \<and>
          w < n_vertices g \<and> w \<noteq> i \<and> 0 \<le> e_weight (edges g ! e) \<and> e_weight (edges g ! e) < 2 ^ 31))"

text \<open>The weight from a vertex to another by its first \<open>c\<close> slots: that of the last one that leads there.\<close>

definition slot_weight :: "graph_t \<Rightarrow> nat \<Rightarrow> nat \<Rightarrow> nat \<Rightarrow> nat" where
  "slot_weight g i c j = fold (\<lambda>s w. case s of
       Some (e, v) \<Rightarrow> if v = j then nat (e_weight (edges g ! e)) else w
     | None \<Rightarrow> w) (take c (linked (vertices g ! i))) (if i = j then 0 else 65535)"

definition link_weight :: "graph_t \<Rightarrow> weights" where
  "link_weight g i j = slot_weight g i (arity (vertices g ! i)) j"

lemma slot_weight_Suc:
  "c < length (linked (vertices g ! i)) \<Longrightarrow> linked (vertices g ! i) ! c = Some (e, v) \<Longrightarrow>
    slot_weight g i (Suc c) j = (if v = j then nat (e_weight (edges g ! e)) else slot_weight g i c j)"
  by (simp add: slot_weight_def take_Suc_conv_app_nth)

lemma slot_weight_bounds:
  assumes "fw_graph g" "i < n_vertices g" "c \<le> arity (vertices g ! i)"
  shows "slot_weight g i c j < 2 ^ 31" "i = j \<Longrightarrow> slot_weight g i c j = 0"
proof -
  have "slot_weight g i c j < 2 ^ 31 \<and> (i = j \<longrightarrow> slot_weight g i c j = 0)"
    using assms(3)
  proof (induction c)
    case 0
    then show ?case by (simp add: slot_weight_def)
  next
    case (Suc c)
    then have c: "c < arity (vertices g ! i)" by simp
    with assms(1,2) obtain e w where s: "linked (vertices g ! i) ! c = Some (e, w)" "w \<noteq> i"
      "0 \<le> e_weight (edges g ! e)" "e_weight (edges g ! e) < 2 ^ 31" unfolding fw_graph_def by blast
    have "c < length (linked (vertices g ! i))" using assms(1,2) c by (auto simp: fw_graph_def)
    with slot_weight_Suc[OF this s(1), of j] Suc c s show ?case by auto
  qed
  then show "slot_weight g i c j < 2 ^ 31" "i = j \<Longrightarrow> slot_weight g i c j = 0" by simp_all
qed

lemma unat_weight: "0 \<le> x \<Longrightarrow> x < 2 ^ 31 \<Longrightarrow> unat (word_of_int x :: u32) = nat x"
  by (simp add: unat_eq_nat_uint uint_word_of_int)

lemma unat_ushrt: "unat USHRT_MAX = 65535"
  by (simp add: USHRT_MAX_def)

lemma if_join: "(if p then c else if q then c else x) = (if p \<or> q then c else x)"
  by simp

lemma fw_init_ok:
  assumes "grid lg d" "n \<le> 2 ^ lg"
  shows "wp (fw_init lg n d) (\<lambda>d. shows_weights lg n d (\<lambda>a b. if a = b then 0 else 65535))"
proof -
  define F where "F = (\<lambda>a (b :: nat). if a = b then 0 else (65535 :: nat))"
  define row where "row i c = (\<lambda>d'. grid lg d' \<and>
    (\<forall>a < n. \<forall>b < n. min a b < i \<or> (min a b = i \<and> max a b < c) \<longrightarrow> dval lg d' a b = F a b))" for i c
  have put: "wp (dput lg a b v d') (\<lambda>d''. \<forall>k < n. \<forall>l < n. grid lg d'' \<and> dval lg d'' k l = (if k = a \<and> l = b then unat v else dval lg d' k l))"
    if "a < n" "b < n" "grid lg d'" for a b v d'
    using that assms(2) by (intro wp_mono[OF dput_ok]) auto
  have "wp (fw_init lg n d) (row n 0)"
    unfolding fw_init_def
  proof (rule wp_for0[where I = "\<lambda>i. row i 0"])
    show "row 0 0 d" using assms by (simp add: row_def)
    fix i d1 assume i: "i < n" and d1: "row i 0 d1"
    have g1: "grid lg d1" using d1 by (simp add: row_def)
    obtain d2 where d2: "dput lg i i 0 d1 = Some d2" "\<forall>k < n. \<forall>l < n. grid lg d2 \<and> dval lg d2 k l = (if k = i \<and> l = i then 0 else dval lg d1 k l)"
      using put[OF i i g1, of 0] by (auto elim!: wpE)
    have start: "row i (i + 1) d2"
      unfolding row_def
    proof (intro conjI allI impI)
      fix a b assume ab: "a < n" "b < n" "min a b < i \<or> (min a b = i \<and> max a b < i + 1)"
      show "dval lg d2 a b = F a b"
      proof (cases "a = i \<and> b = i")
        case False
        with ab have "min a b < i" by auto
        then have "dval lg d1 a b = F a b" using d1 ab unfolding row_def by blast
        moreover have "dval lg d2 a b = (if a = i \<and> b = i then 0 else dval lg d1 a b)" using d2(2) ab(1,2) by blast
        ultimately show ?thesis using False by (simp only: if_False)
      qed (use d2(2) ab in \<open>simp add: F_def\<close>)
    qed (use d2(2) i in blast)
    have "wp (foldM (\<lambda>j d. do { d \<leftarrow> dput lg j i USHRT_MAX d; dput lg i j USHRT_MAX d }) [i + 1..<n] d2) (row i n)"
    proof (rule wp_for[where I = "row i"])
      fix j d3 assume j: "i + 1 \<le> j" "j < n" and d3: "row i j d3"
      have g3: "grid lg d3" using d3 by (simp add: row_def)
      obtain d4 where d4: "dput lg j i USHRT_MAX d3 = Some d4"
        "\<forall>k < n. \<forall>l < n. grid lg d4 \<and> dval lg d4 k l = (if k = j \<and> l = i then unat USHRT_MAX else dval lg d3 k l)"
        using put[OF j(2) i g3, of USHRT_MAX] by (auto elim!: wpE)
      have g4: "grid lg d4" using d4(2) i by blast
      obtain d5 where d5: "dput lg i j USHRT_MAX d4 = Some d5"
        "\<forall>k < n. \<forall>l < n. grid lg d5 \<and> dval lg d5 k l = (if k = i \<and> l = j then unat USHRT_MAX else dval lg d4 k l)"
        using put[OF i j(2) g4, of USHRT_MAX] by (auto elim!: wpE)
      have "row i (Suc j) d5"
        unfolding row_def
      proof (intro conjI allI impI)
        fix k l assume kl: "k < n" "l < n" "min k l < i \<or> (min k l = i \<and> max k l < Suc j)"
        have v: "dval lg d5 k l = (if k = i \<and> l = j \<or> k = j \<and> l = i then 65535 else dval lg d3 k l)"
        proof -
          have "dval lg d4 k l = (if k = j \<and> l = i then unat USHRT_MAX else dval lg d3 k l)" using d4(2) kl(1,2) by blast
          moreover have "dval lg d5 k l = (if k = i \<and> l = j then unat USHRT_MAX else dval lg d4 k l)" using d5(2) kl(1,2) by blast
          ultimately show ?thesis by (simp only: unat_ushrt if_join)
        qed
        show "dval lg d5 k l = F k l"
        proof (cases "k = i \<and> l = j \<or> k = j \<and> l = i")
          case True
          then show ?thesis using v j(1) by (auto simp: F_def)
        next
          case False
          with kl(3) have "min k l < i \<or> (min k l = i \<and> max k l < j)" by (auto simp: min_def max_def split: if_splits)
          then have "dval lg d3 k l = F k l" using d3 kl(1,2) unfolding row_def by blast
          with v show ?thesis unfolding if_not_P[OF False] by (rule trans)
        qed
      qed (use d5(2) i in blast)
      with d4(1) d5(1) show "wp (do { d \<leftarrow> dput lg j i USHRT_MAX d3; dput lg i j USHRT_MAX d }) (row i (Suc j))" by simp
    qed (use i start in auto)
    then show "wp (do {
       d \<leftarrow> dput lg i i 0 d1;
       foldM (\<lambda>j d. do { d \<leftarrow> dput lg j i USHRT_MAX d; dput lg i j USHRT_MAX d }) [i + 1..<n] d
     }) (row (Suc i) 0)"
      unfolding d2(1) Option.bind.bind_lunit
    proof (rule wp_mono)
      fix d' assume d': "row i n d'"
      have "min a b < i \<or> (min a b = i \<and> max a b < n)" if "a < n" "b < n" "min a b < Suc i \<or> (min a b = Suc i \<and> max a b < 0)" for a b
        using that by (simp only: less_Suc_eq max_less_iff_conj not_less0 simp_thms)
      with d' show "row (Suc i) 0 d'" unfolding row_def by blast
    qed
  qed
  then show ?thesis by (rule wp_mono) (use assms(2) in \<open>simp add: row_def shows_weights_def F_def min_less_iff_disj\<close>)
qed

lemma fw_edges_ok:
  assumes g: "fw_graph g" and d: "shows_weights lg (n_vertices g) d (\<lambda>a b. if a = b then 0 else 65535)"
  shows "wp (fw_edges lg g d) (\<lambda>d. shows_weights lg (n_vertices g) d (link_weight g))"
proof -
  let ?n = "n_vertices g"
  define M where "M i c = (\<lambda>a b. if a < i then link_weight g a b else if a = i then slot_weight g i c b
      else if a = b then 0 else 65535)" for i c
  have "wp (fw_edges lg g d) (\<lambda>d. shows_weights lg ?n d (M ?n 0))"
    unfolding fw_edges_def
  proof (rule wp_for0[where I = "\<lambda>i d. shows_weights lg ?n d (M i 0)"])
    show "shows_weights lg ?n d (M 0 0)" by (rule shows_cong[OF d]) (simp add: M_def slot_weight_def)
    fix i d1 assume i: "i < ?n" and d1: "shows_weights lg ?n d1 (M i 0)"
    let ?x = "vertices g ! i"
    define body where "body = (\<lambda>j d. do {
         slot \<leftarrow> aget (linked ?x) j;
         (e, w) \<leftarrow> slot;
         y \<leftarrow> aget (vertices g) w;
         ed \<leftarrow> aget (edges g) e;
         dput lg i (v_pos y) (word_of_int (e_weight ed)) d
       })"
    have x: "arity ?x \<le> length (linked ?x)" "aget (vertices g) i = Some ?x" using g i by (auto simp: fw_graph_def)
    have "wp (foldM body [0..<arity ?x] d1) (\<lambda>d. shows_weights lg ?n d (M i (arity ?x)))"
    proof (rule wp_for0[where I = "\<lambda>j d. shows_weights lg ?n d (M i j)", OF d1])
      fix j d2 assume j: "j < arity ?x" and d2: "shows_weights lg ?n d2 (M i j)"
      from g i j obtain e w where s: "linked ?x ! j = Some (e, w)" "e < length (edges g)" "w < ?n" "w \<noteq> i"
        "0 \<le> e_weight (edges g ! e)" "e_weight (edges g ! e) < 2 ^ 31" unfolding fw_graph_def by blast
      have w: "aget (vertices g) w = Some (vertices g ! w)" "v_pos (vertices g ! w) = w"
        using g s(3) by (auto simp: fw_graph_def)
      have jl: "j < length (linked ?x)" using j x(1) by simp
      have "wp (dput lg i w (word_of_int (e_weight (edges g ! e))) d2) (\<lambda>d. shows_weights lg ?n d (M i (Suc j)))"
        by (rule shows_put[OF d2 i s(3)])
          (use slot_weight_Suc[OF jl s(1)] s(4) in \<open>simp add: M_def unat_weight[OF s(5,6)]\<close>)
      with w s(1,2) jl show "wp (body j d2) (\<lambda>d. shows_weights lg ?n d (M i (Suc j)))" by (simp add: body_def)
    qed
    then have "wp (foldM body [0..<arity ?x] d1) (\<lambda>d. shows_weights lg ?n d (M (Suc i) 0))"
      by (rule wp_mono) (erule shows_cong, simp add: M_def link_weight_def slot_weight_def less_Suc_eq)
    with x(2) show "wp (do {
       x \<leftarrow> aget (vertices g) i;
       foldM (\<lambda>j d. do {
         slot \<leftarrow> aget (linked x) j;
         (e, w) \<leftarrow> slot;
         y \<leftarrow> aget (vertices g) w;
         ed \<leftarrow> aget (edges g) e;
         dput lg i (v_pos y) (word_of_int (e_weight ed)) d
       }) [0..<arity x] d1
     }) (\<lambda>d. shows_weights lg ?n d (M (Suc i) 0))"
      by (simp add: body_def)
  qed
  then show ?thesis by (rule wp_mono) (erule shows_cong, simp add: M_def)
qed

text \<open>One stage, in place: the row and the column of \<open>k\<close> do not change while it runs.\<close>

lemma fw_stage_ok:
  assumes d: "shows_weights lg n d M" and k: "k < n" and M: "\<forall>i < n. \<forall>j < n. M i j < 2 ^ 31"
  shows "wp (fw_stage lg n k d) (\<lambda>d. shows_weights lg n d (relax k M))"
proof -
  define N where "N i c = (\<lambda>a b. if a < i \<or> (a = i \<and> b < c) then relax k M a b else M a b)" for i c
  have row: "N i c a k = M a k" "N i c k b = M k b" for i c a b by (simp_all add: N_def relax_row)
  have "wp (fw_stage lg n k d) (\<lambda>d. shows_weights lg n d (N n 0))"
    unfolding fw_stage_def
  proof (rule wp_for0[where I = "\<lambda>i d. shows_weights lg n d (N i 0)"])
    show "shows_weights lg n d (N 0 0)" by (rule shows_cong[OF d]) (simp add: N_def)
    fix i d1 assume i: "i < n" and d1: "shows_weights lg n d1 (N i 0)"
    have "wp (foldM (fw_relax lg k i) [0..<n] d1) (\<lambda>d. shows_weights lg n d (N i n))"
    proof (rule wp_for0[where I = "\<lambda>j d. shows_weights lg n d (N i j)", OF d1])
      fix j d2 assume j: "j < n" and d2: "shows_weights lg n d2 (N i j)"
      have b: "grid lg d2" "i < 2 ^ lg" "j < 2 ^ lg" "k < 2 ^ lg" using d2 i j k by (auto simp: shows_weights_def)
      define a where "a = d2 ! (i * 2 ^ lg + k)"
      define b' where "b' = d2 ! (k * 2 ^ lg + j)"
      define c where "c = d2 ! (i * 2 ^ lg + j)"
      have gets: "dget lg i k d2 = Some a" "dget lg k j d2 = Some b'" "dget lg i j d2 = Some c"
        using b by (simp_all add: dget_eq a_def b'_def c_def)
      have vals: "unat a = M i k" "unat b' = M k j" "unat c = M i j"
        using d2 i j k row(1)[of i j i] row(2)[of i j j] unfolding shows_weights_def dval_def a_def b'_def c_def
        by (simp_all add: N_def)
      have "M i k < 2 ^ 31" "M k j < 2 ^ 31" using M i j k by simp_all
      then have sum: "unat (a + b') = M i k + M k j" using vals by (simp add: unat_plus_if')
      have next_val: "N i (Suc j) x y = (if x = i \<and> y = j then min (M i j) (M i k + M k j) else N i j x y)" for x y
        by (auto simp: N_def relax_def less_Suc_eq)
      have "wp (if c > a + b' then dput lg i j (a + b') d2 else Some d2) (\<lambda>d. shows_weights lg n d (N i (Suc j)))"
      proof (cases "c > a + b'")
        case True
        then have "M i k + M k j < M i j" using vals(3) sum by (simp add: word_less_nat_alt)
        then have "wp (dput lg i j (a + b') d2) (\<lambda>d. shows_weights lg n d (N i (Suc j)))"
          by (intro shows_put[OF d2 i j]) (simp add: next_val sum)
        with True show ?thesis by simp
      next
        case False
        then have "M i j \<le> M i k + M k j" using vals(3) sum by (simp add: word_less_nat_alt)
        then have "shows_weights lg n d2 (N i (Suc j))"
          by (intro shows_cong[OF d2]) (simp add: next_val, simp add: N_def)
        with False show ?thesis by simp
      qed
      then show "wp (fw_relax lg k i j d2) (\<lambda>d. shows_weights lg n d (N i (Suc j)))"
        unfolding fw_relax_def gets Option.bind.bind_lunit .
    qed
    then show "wp (foldM (fw_relax lg k i) [0..<n] d1) (\<lambda>d. shows_weights lg n d (N (Suc i) 0))"
      by (rule wp_mono) (erule shows_cong, simp add: N_def less_Suc_eq)
  qed
  then show ?thesis by (rule wp_mono) (erule shows_cong, simp add: N_def)
qed

lemma relax_below: "(\<forall>i < n. \<forall>j < n. M i j < c) \<Longrightarrow> \<forall>i < n. \<forall>j < n. relax k M i j < c"
  by (auto simp: relax_def intro: le_less_trans[OF min.cobounded1])

lemma fw_stages_ok:
  assumes d: "shows_weights lg n d W" and W: "\<forall>i < n. \<forall>j < n. W i j < 2 ^ 31"
  shows "wp (foldM (fw_stage lg n) [0..<n] d) (\<lambda>d. shows_weights lg n d (fold relax [0..<n] W))"
proof -
  have "wp (foldM (fw_stage lg n) [0..<n] d) (\<lambda>d. shows_weights lg n d (fold relax [0..<n] W) \<and>
      (\<forall>i < n. \<forall>j < n. fold relax [0..<n] W i j < 2 ^ 31))"
  proof (rule wp_for0[where I = "\<lambda>k d. shows_weights lg n d (fold relax [0..<k] W) \<and> (\<forall>i < n. \<forall>j < n. fold relax [0..<k] W i j < 2 ^ 31)"])
    fix k d1 assume k: "k < n" and d1: "shows_weights lg n d1 (fold relax [0..<k] W) \<and> (\<forall>i < n. \<forall>j < n. fold relax [0..<k] W i j < 2 ^ 31)"
    then have "wp (fw_stage lg n k d1) (\<lambda>d. shows_weights lg n d (relax k (fold relax [0..<k] W)))"
      by (intro fw_stage_ok) auto
    moreover have "\<forall>i < n. \<forall>j < n. relax k (fold relax [0..<k] W) i j < 2 ^ 31" using d1 by (intro relax_below) blast
    ultimately show "wp (fw_stage lg n k d1) (\<lambda>d. shows_weights lg n d (fold relax [0..<Suc k] W) \<and>
        (\<forall>i < n. \<forall>j < n. fold relax [0..<Suc k] W i j < 2 ^ 31))"
      by (auto elim: wp_mono)
  qed (use d W in simp)
  then show ?thesis by (rule wp_mono) simp
qed

section \<open>The distances of the processing units\<close>

definition is_pu :: "graph_t \<Rightarrow> nat \<Rightarrow> bool" where
  "is_pu g u \<longleftrightarrow> u < n_vertices g \<and> v_type (vertices g ! u) = GRAPH_ELTYPE_PU"

definition pu_id :: "graph_t \<Rightarrow> nat \<Rightarrow> nat" where
  "pu_id g u = unat (v_id (vertices g ! u))"

text \<open>Different processing units have different ids, below their number.\<close>

definition pu_ids_ok :: "graph_t \<Rightarrow> nat \<Rightarrow> bool" where
  "pu_ids_ok g p \<longleftrightarrow> (\<forall>u v. is_pu g u \<and> is_pu g v \<longrightarrow> pu_id g u < p \<and> (pu_id g u = pu_id g v \<longrightarrow> u = v))"

lemma fw_pus_ok:
  assumes n: "length (vertices g) = n_vertices g" and d: "shows_weights lg (n_vertices g) d D"
    and dp: "grid lgp dp" "p \<le> 2 ^ lgp" and ids: "pu_ids_ok g p"
  shows "wp (fw_pus lg lgp g d dp) (\<lambda>dp. grid lgp dp \<and>
    (\<forall>u v. is_pu g u \<and> is_pu g v \<longrightarrow> dval lgp dp (pu_id g u) (pu_id g v) = D u v))"
proof -
  let ?n = "n_vertices g"
  define I where "I i j = (\<lambda>dp. grid lgp dp \<and> (\<forall>u v. is_pu g u \<and> is_pu g v \<and> (u < i \<or> (u = i \<and> v < j)) \<longrightarrow>
    dval lgp dp (pu_id g u) (pu_id g v) = D u v))" for i j
  define body where "body = (\<lambda>i j dp. do {
       x \<leftarrow> aget (vertices g) i;
       y \<leftarrow> aget (vertices g) j;
       if v_type x = GRAPH_ELTYPE_PU \<and> v_type y = GRAPH_ELTYPE_PU
       then do { v \<leftarrow> dget lg i j d; dput lgp (unat (v_id x)) (unat (v_id y)) v dp }
       else Some dp
     })"
  have step: "wp (body i j dp) (I i (Suc j))" if ij: "i < ?n" "j < ?n" and I: "I i j dp" for i j dp
  proof -
    have xy: "aget (vertices g) i = Some (vertices g ! i)" "aget (vertices g) j = Some (vertices g ! j)"
      using n ij by simp_all
    show ?thesis
    proof (cases "is_pu g i \<and> is_pu g j")
      case False
      then have "I i (Suc j) dp" using I unfolding I_def less_Suc_eq by blast
      with False ij xy show ?thesis by (auto simp: body_def is_pu_def)
    next
      case True
      have small: "i < 2 ^ lg" "j < 2 ^ lg" "grid lg d" "dval lg d i j = D i j"
        using d ij by (auto simp: shows_weights_def)
      have id_small: "pu_id g u < 2 ^ lgp" if "is_pu g u" for u using ids dp(2) that by (auto simp: pu_ids_ok_def intro: less_le_trans)
      have "grid lgp dp" using I by (simp add: I_def)
      from dput_ok[OF this id_small id_small, of i j "d ! (i * 2 ^ lg + j)"] True obtain dp' where
        put: "dput lgp (pu_id g i) (pu_id g j) (d ! (i * 2 ^ lg + j)) dp = Some dp'" "grid lgp dp'"
        and vals: "\<forall>k < 2 ^ lgp. \<forall>l < 2 ^ lgp. dval lgp dp' k l =
          (if k = pu_id g i \<and> l = pu_id g j then unat (d ! (i * 2 ^ lg + j)) else dval lgp dp k l)"
        by (auto elim!: wpE)
      have "I i (Suc j) dp'"
        unfolding I_def
      proof (intro conjI allI impI put(2))
        fix u v assume uv: "is_pu g u \<and> is_pu g v \<and> (u < i \<or> (u = i \<and> v < Suc j))"
        have val: "dval lgp dp' (pu_id g u) (pu_id g v) = (if pu_id g u = pu_id g i \<and> pu_id g v = pu_id g j
            then unat (d ! (i * 2 ^ lg + j)) else dval lgp dp (pu_id g u) (pu_id g v))"
          using vals id_small uv by blast
        show "dval lgp dp' (pu_id g u) (pu_id g v) = D u v"
        proof (cases "pu_id g u = pu_id g i \<and> pu_id g v = pu_id g j")
          case same: True
          then have "u = i" "v = j" using ids uv True unfolding pu_ids_ok_def by blast+
          then show ?thesis using val small(4) by (simp add: dval_def)
        next
          case other: False
          then have "u < i \<or> (u = i \<and> v < j)" using uv by (auto simp: less_Suc_eq)
          then have "dval lgp dp (pu_id g u) (pu_id g v) = D u v" using I uv unfolding I_def by blast
          with val show ?thesis unfolding if_not_P[OF other] by (rule trans)
        qed
      qed
      with True xy put(1) show ?thesis
        by (simp add: body_def is_pu_def pu_id_def dget_eq[OF small(3,1,2)])
    qed
  qed
  have fw_eq: "fw_pus lg lgp g d dp = foldM (\<lambda>i. foldM (body i) [0..<?n]) [0..<?n] dp"
    by (simp add: fw_pus_def body_def)
  have "wp (fw_pus lg lgp g d dp) (I ?n 0)"
    unfolding fw_eq
  proof (rule wp_for0[where I = "\<lambda>i. I i 0"])
    show "I 0 0 dp" using dp(1) by (simp add: I_def)
    fix i dp1 assume i: "i < ?n" and I0: "I i 0 dp1"
    have "wp (foldM (body i) [0..<?n] dp1) (I i ?n)"
      by (rule wp_for0[where I = "I i", OF I0]) (use step[OF i] in blast)
    then show "wp (foldM (body i) [0..<?n] dp1) (I (Suc i) 0)"
      by (rule wp_mono) (auto simp: I_def is_pu_def less_Suc_eq)
  qed
  then show ?thesis by (rule wp_mono) (auto simp: I_def is_pu_def)
qed

lemma dist_dim_ok:
  assumes "0 < n" "n \<le> 2 ^ 15"
  shows "\<exists>lg \<le> 15. dist_dim n = Some (2 ^ lg, lg) \<and> n \<le> 2 ^ lg \<and> unat (2 ^ lg * 2 ^ lg :: u32) = 2 ^ lg * 2 ^ lg"
proof -
  have v: "unat (of_nat n :: u64) = n" using assms(2) by (simp add: unat_of_nat)
  have "unat (of_nat n :: u64) \<le> 2 ^ 30" unfolding v using assms(2) by simp
  from log2_next_power[OF this] obtain k where k: "k \<le> 30" "libmapping_get_next_power_of_two (of_nat n) = Some (2 ^ k)"
    "libmapping_get_log2 (2 ^ k) = Some (of_nat k)" "n \<le> 2 ^ k" "\<forall>i < k. 2 ^ i < n" unfolding v by blast
  have k15: "k \<le> 15"
  proof (rule ccontr)
    assume "\<not> k \<le> 15"
    then have "2 ^ 15 < n" using spec[OF k(5), of 15] by simp
    with assms(2) show False by simp
  qed
  have pow: "unat (2 ^ k :: u32) = 2 ^ k" "unat (2 ^ k :: u64) = 2 ^ k" "unat (2 ^ k * 2 ^ k :: u32) = 2 ^ k * 2 ^ k"
  proof -
    have "(2 :: nat) ^ k < 2 ^ 32" "(2 :: nat) ^ (k + k) < 2 ^ 32" by (rule power_strict_increasing; use k15 in simp)+
    then have "unat (word_of_nat (2 ^ k) :: u32) = 2 ^ k" "unat (word_of_nat (2 ^ (k + k)) :: u32) = 2 ^ (k + k)"
      by (simp_all only: unat_of_nat) (simp_all add: mod_less)
    then show "unat (2 ^ k :: u32) = 2 ^ k" "unat (2 ^ k * 2 ^ k :: u32) = 2 ^ k * 2 ^ k" by (simp_all add: power_add)
    show "unat (2 ^ k :: u64) = 2 ^ k" using k15 by (simp add: unat_exp)
  qed
  have "ucast (2 ^ k :: u64) = (2 ^ k :: u32)" "ucast (2 ^ k :: u32) = (2 ^ k :: u64)"
    using k15 by (auto intro!: bit_word_eqI simp: bit_simps)
  moreover have "unat (of_nat k :: u8) = k" using k15 by (simp add: unat_of_nat)
  ultimately have "dist_dim n = Some (2 ^ k, k)" using k(2,3) by (simp add: dist_dim_def Let_def)
  with k15 k(4) pow(3) show ?thesis by blast
qed

definition allocates :: "(nat \<Rightarrow> u32 list option) \<Rightarrow> bool" where
  "allocates alloc \<longleftrightarrow> (\<forall>k. \<exists>xs. alloc k = Some xs \<and> length xs = k)"

lemma zero_pus:
  assumes "grid lgp dp" "p \<le> 2 ^ lgp"
  shows "wp (foldM (\<lambda>i. foldM (\<lambda>j. dput lgp i j 0) [0..<p]) [0..<p] dp) (grid lgp)"
proof (rule wp_foldM_all[where I = "grid lgp", OF assms(1)])
  fix i dp1 assume i: "i \<in> set [0..<p]" and g: "grid lgp dp1"
  show "wp (foldM (\<lambda>j. dput lgp i j 0) [0..<p] dp1) (grid lgp)"
  proof (rule wp_foldM_all[where I = "grid lgp", OF g])
    fix j dp2 assume "j \<in> set [0..<p]" "grid lgp dp2"
    then show "wp (dput lgp i j 0 dp2) (grid lgp)"
      using i assms(2) by (intro wp_mono[OF dput_ok]) auto
  qed
qed

lemma link_weight_bounds: "fw_graph g \<Longrightarrow> i < n_vertices g \<Longrightarrow> link_weight g i j < 2 ^ 31"
  unfolding link_weight_def by (rule slot_weight_bounds(1)) auto

lemma floyd_warshall_ok:
  assumes g: "fw_graph g" and p: "0 < p" "p \<le> 2 ^ 15" and alloc: "allocates alloc" and ids: "pu_ids_ok g p"
  shows "wp (floyd_warshall alloc g p) (\<lambda>(dim, lgp, dp). p \<le> 2 ^ lgp \<and> grid lgp dp \<and> dim = 2 ^ lgp \<and>
    (\<forall>u v. is_pu g u \<and> is_pu g v \<longrightarrow> shortest (n_vertices g) (link_weight g) u v (dval lgp dp (pu_id g u) (pu_id g v))))"
proof -
  let ?n = "n_vertices g" and ?W = "\<lambda>i j. if i = j then 0 else link_weight g i j"
  have n: "0 < ?n" "?n \<le> 2 ^ 15" "length (vertices g) = ?n" using g by (simp_all add: fw_graph_def)
  obtain lg where lg: "lg \<le> 15" "dist_dim ?n = Some (2 ^ lg, lg)" "?n \<le> 2 ^ lg"
    "unat (2 ^ lg * 2 ^ lg :: u32) = 2 ^ lg * 2 ^ lg" using dist_dim_ok[OF n(1,2)] by blast
  obtain lgp where lgp: "lgp \<le> 15" "dist_dim p = Some (2 ^ lgp, lgp)" "p \<le> 2 ^ lgp"
    "unat (2 ^ lgp * 2 ^ lgp :: u32) = 2 ^ lgp * 2 ^ lgp" using dist_dim_ok[OF p] by blast
  obtain d0 where d0: "alloc (2 ^ lg * 2 ^ lg) = Some d0" "length d0 = 2 ^ lg * 2 ^ lg" using alloc unfolding allocates_def by blast
  obtain dp0 where dp0: "alloc (2 ^ lgp * 2 ^ lgp) = Some dp0" "length dp0 = 2 ^ lgp * 2 ^ lgp" using alloc unfolding allocates_def by blast
  have grids: "grid lg d0" "grid lgp dp0" using lg(1) lgp(1) d0(2) dp0(2) by (simp_all add: grid_def)
  obtain d1 where d1: "fw_init lg ?n d0 = Some d1" "shows_weights lg ?n d1 (\<lambda>a b. if a = b then 0 else 65535)"
    using fw_init_ok[OF grids(1) lg(3)] by (auto elim!: wpE)
  obtain d2 where d2: "fw_edges lg g d1 = Some d2" "shows_weights lg ?n d2 (link_weight g)"
    using fw_edges_ok[OF g d1(2)] by (auto elim!: wpE)
  have diag: "link_weight g i i = 0" if "i < ?n" for i
    using slot_weight_bounds(2)[OF g that, of "arity (vertices g ! i)" i] by (simp add: link_weight_def)
  have d2': "shows_weights lg ?n d2 ?W" by (rule shows_cong[OF d2(2)]) (simp add: diag)
  have W: "\<forall>i < ?n. \<forall>j < ?n. ?W i j < 2 ^ 31" using link_weight_bounds[OF g] by simp
  obtain d3 where d3: "foldM (fw_stage lg ?n) [0..<?n] d2 = Some d3" "shows_weights lg ?n d3 (fold relax [0..<?n] ?W)"
    using fw_stages_ok[OF d2' W] by (auto elim!: wpE)
  obtain dp1 where dp1: "foldM (\<lambda>i. foldM (\<lambda>j. dput lgp i j 0) [0..<p]) [0..<p] dp0 = Some dp1" "grid lgp dp1"
    using zero_pus[OF grids(2) lgp(3)] by (auto elim!: wpE)
  obtain dp2 where dp2: "fw_pus lg lgp g d3 dp1 = Some dp2" "grid lgp dp2"
    and vals: "\<forall>u v. is_pu g u \<and> is_pu g v \<longrightarrow> dval lgp dp2 (pu_id g u) (pu_id g v) = fold relax [0..<?n] ?W u v"
    using fw_pus_ok[OF n(3) d3(2) dp1(2) lgp(3) ids] by (auto elim!: wpE)
  have run: "floyd_warshall alloc g p = Some (2 ^ lgp, lgp, dp2)"
    unfolding floyd_warshall_def lg(2,4) lgp(2,4) Option.bind.bind_lunit prod.case d0(1) dp0(1) d1(1) d2(1) d3(1) dp1(1) dp2(1) ..
  have same: "path_weight ?W q = path_weight (link_weight g) q" if "set q \<subseteq> {..<?n}" for q
    using that diag by (induction q rule: induct_list012) auto
  have "shortest ?n (link_weight g) u v (fold relax [0..<?n] ?W u v)" if "is_pu g u" "is_pu g v" for u v
  proof -
    have uv: "u < ?n" "v < ?n" using that by (simp_all add: is_pu_def)
    have "shortest ?n ?W u v (fold relax [0..<?n] ?W u v)" by (rule stages_shortest[OF _ uv]) simp
    then show ?thesis by (rule shortest_cong[rotated]) (rule same, simp add: is_path_def)
  qed
  with run dp2(2) lgp(3) vals show ?thesis by auto
qed

section \<open>Properties\<close>

text \<open>
  C10: the distances. For a graph of at most \<open>2 ^ 15\<close> vertices with weights that fit, when memory is available
  and the processing units have different ids below their number, \<open>floyd_warshall\<close> returns, and for any two
  processing units \<open>libmapping_topology_dist_pus\<close> reads the weight of a shortest path between them: the least
  weight of all sequences of vertices from one to the other, where vertices without a link count 65535.
\<close>
theorem floyd_warshall_spec:
  assumes "fw_graph g" "0 < p" "p \<le> 2 ^ 15" "allocates alloc" "pu_ids_ok g p"
  shows "\<exists>dim lgp dp. floyd_warshall alloc g p = Some (dim, lgp, dp) \<and>
    (\<forall>u v. is_pu g u \<and> is_pu g v \<longrightarrow> (\<exists>x. libmapping_topology_dist_pus lgp dp (pu_id g u) (pu_id g v) = Some x \<and>
       shortest (n_vertices g) (link_weight g) u v (unat x)))"
proof -
  obtain dim lgp dp where run: "floyd_warshall alloc g p = Some (dim, lgp, dp)" "p \<le> 2 ^ lgp" "grid lgp dp"
    and ok: "\<forall>u v. is_pu g u \<and> is_pu g v \<longrightarrow> shortest (n_vertices g) (link_weight g) u v (dval lgp dp (pu_id g u) (pu_id g v))"
    using floyd_warshall_ok[OF assms] unfolding wp_iff split_paired_Ex prod.case by blast
  have small: "pu_id g u < 2 ^ lgp" if "is_pu g u" for u
    using assms(5) that run(2) by (auto simp: pu_ids_ok_def intro: less_le_trans)
  have "libmapping_topology_dist_pus lgp dp (pu_id g u) (pu_id g v) = Some (dp ! (pu_id g u * 2 ^ lgp + pu_id g v))"
    if "is_pu g u" "is_pu g v" for u v
    using that small run(3) by (simp add: libmapping_topology_dist_pus_def dget_eq)
  with run(1) ok show ?thesis unfolding dval_def by blast
qed

text \<open>A root with two processing units.\<close>

definition demo_star :: graph_t where
  "demo_star = \<lparr>vertices =
       [\<lparr>v_type = GRAPH_ELTYPE_ROOT, v_weight = 0, v_id = 0, v_pos = 0, linked = [Some (0, 1), Some (1, 2)], arity = 2\<rparr>,
        \<lparr>v_type = GRAPH_ELTYPE_PU, v_weight = 0, v_id = 1, v_pos = 1, linked = [Some (0, 0)], arity = 1\<rparr>,
        \<lparr>v_type = GRAPH_ELTYPE_PU, v_weight = 0, v_id = 0, v_pos = 2, linked = [Some (1, 0)], arity = 1\<rparr>],
     edges = [\<lparr>e_type = GRAPH_ELTYPE_UNDEFINED, e_weight = 2, e_id = 0, e_src = 0, e_dest = 1\<rparr>,
              \<lparr>e_type = GRAPH_ELTYPE_UNDEFINED, e_weight = 2, e_id = 0, e_src = 0, e_dest = 2\<rparr>],
     n_vertices = 3, n_edges = 2, next_vertex = 3, next_edge = 2, used_vertices = 3, used_edges = 2\<rparr>"

theorem floyd_warshall_spec_witness:
  "\<exists>dim lgp dp x. floyd_warshall (\<lambda>k. Some (replicate k 7)) demo_star 2 = Some (dim, lgp, dp) \<and>
    libmapping_topology_dist_pus lgp dp 1 0 = Some x \<and> shortest 3 (link_weight demo_star) 1 2 (unat x)"
proof -
  have g: "fw_graph demo_star" by (simp add: fw_graph_def demo_star_def) (auto simp: less_Suc_eq numeral_3_eq_3 numeral_2_eq_2)
  have alloc: "allocates (\<lambda>k. Some (replicate k 7))" by (simp add: allocates_def)
  have pu: "is_pu demo_star u \<longleftrightarrow> u = 1 \<or> u = 2" for u
    by (auto simp: is_pu_def demo_star_def less_Suc_eq numeral_3_eq_3 numeral_2_eq_2)
  have ids: "pu_id demo_star 1 = 1" "pu_id demo_star 2 = 0" by (simp_all add: pu_id_def demo_star_def)
  have "pu_ids_ok demo_star 2" using ids by (auto simp: pu_ids_ok_def pu)
  moreover have "n_vertices demo_star = 3" by (simp add: demo_star_def)
  moreover have "is_pu demo_star 1 \<and> is_pu demo_star 2" by (simp add: pu)
  ultimately show ?thesis using floyd_warshall_spec[OF g _ _ alloc, of 2] ids by fastforce
qed

end
