(* ===== verification/Cdsm_Greedy.thy ===== *)
theory Cdsm_Greedy
  imports Cdsm_Topology Cdsm_Config "HOL-Library.Multiset"
begin

text \<open>
  The mapping algorithm, \<open>src/libmapping/mapping-greedy.c\<close>. Threads are grouped by how much they
  communicate: groups of threads that share a processing unit (level 1), groups of those groups that share
  the next shared level of the hardware, and so on; then the groups are laid over the topology tree.

  A pointer into the arrays of groups is a pair of a level and an index. \<open>libmapping_matrix_malloc\<close> lays the arrays of
  all levels one behind the other in one block, so an index past the end of a level is one of the next levels, and
  only one past the end of the block is outside. The sums of communication are of
  type \<open>int64_t\<close>: at most \<open>MAX_THREADS\<close> squared summands of 32 bits, so they are written as unbounded
  integers. \<open>MAX_THREADS\<close> is 128, from \<open>make.config.spcd\<close>.
\<close>

section \<open>Groups\<close>

datatype group_type_t = GROUP_TYPE_THREAD | GROUP_TYPE_GROUP

type_synonym group_ptr = "nat \<times> nat"

record thread_group_t =
  g_type :: group_type_t
  g_id :: nat
  g_nelements :: nat
  g_elements :: "group_ptr option list"

text \<open>The static variables of the file that the two phases share.\<close>

record greedy_t =
  arities :: "nat list"
  exec_el_in_level :: "nat list"
  levels_n :: nat
  groups :: "thread_group_t list list"
  matrix_0 :: spcd_comm_matrix
  matrix_1 :: spcd_comm_matrix
  winners :: "nat list"
  chosen :: "nat list"

fun read_rows :: "'a list list \<Rightarrow> nat \<Rightarrow> 'a option" where
  "read_rows [] i = None"
| "read_rows (row # rows) i = (if i < length row then Some (row ! i) else read_rows rows (i - length row))"

fun write_rows :: "'a list list \<Rightarrow> nat \<Rightarrow> 'a \<Rightarrow> 'a list list option" where
  "write_rows [] i x = None"
| "write_rows (row # rows) i x = (if i < length row then Some (row[i := x] # rows)
     else map_option (\<lambda>rows. row # rows) (write_rows rows (i - length row) x))"

definition group_at :: "thread_group_t list list \<Rightarrow> group_ptr \<Rightarrow> thread_group_t option" where
  "group_at gs p = read_rows (drop (fst p) gs) (snd p)"

definition put_group :: "thread_group_t list list \<Rightarrow> group_ptr \<Rightarrow> thread_group_t \<Rightarrow> thread_group_t list list option" where
  "put_group gs p x = map_option (\<lambda>rows. take (fst p) gs @ rows) (write_rows (drop (fst p) gs) (snd p) x)"

text \<open>\<open>comm_matrix_ptr_el\<close>, which takes the indices as \<open>int\<close>.\<close>

definition matrix_el :: "int \<Rightarrow> spcd_comm_matrix \<Rightarrow> nat \<Rightarrow> nat \<Rightarrow> int option" where
  "matrix_el bits m i j = map_option (\<lambda>c. int (unat c)) (get_matrix bits m (int i) (int j))"

text \<open>The loop over \<open>j\<close> in \<open>generate_group\<close>, with \<open>wmax\<close> and \<open>winner\<close>.\<close>

definition affinity :: "int \<Rightarrow> spcd_comm_matrix \<Rightarrow> nat list \<Rightarrow> nat \<Rightarrow> nat \<Rightarrow> int option" where
  "affinity bits m ws i j = foldM (\<lambda>k w. do {
     wk \<leftarrow> aget ws k;
     el \<leftarrow> matrix_el bits m j wk;
     Some (w + el)
   }) [0..<i] 0"

definition pick_winner ::
  "int \<Rightarrow> spcd_comm_matrix \<Rightarrow> nat \<Rightarrow> nat list \<Rightarrow> nat list \<Rightarrow> nat \<Rightarrow> nat \<Rightarrow> (int \<times> nat) option" where
  "pick_winner bits m nel ws ch i winner = foldM (\<lambda>j (wmax, winner). do {
     c \<leftarrow> aget ch j;
     if c = 0 then do {
       w \<leftarrow> affinity bits m ws i j;
       Some (if w > wmax then (w, j) else (wmax, winner))
     } else Some (wmax, winner)
   }) [0..<nel] (-1, winner)"

text \<open>The state of the loop: \<open>winners\<close>, \<open>chosen\<close>, the elements of the group, \<open>winner\<close>.\<close>

type_synonym pick_state = "nat list \<times> nat list \<times> group_ptr option list \<times> nat"

definition pick_one :: "int \<Rightarrow> spcd_comm_matrix \<Rightarrow> nat \<Rightarrow> nat \<Rightarrow> nat \<Rightarrow> pick_state \<Rightarrow> pick_state option" where
  "pick_one bits m nel level i s = (case s of (ws, ch, els, winner) \<Rightarrow> do {
     (wmax, winner) \<leftarrow> pick_winner bits m nel ws ch i winner;
     ch \<leftarrow> aput ch winner 1;
     ws \<leftarrow> aput ws i winner;
     els \<leftarrow> aput els i (Some (level - 1, winner));
     Some (ws, ch, els, winner)
   })"

definition generate_group ::
  "int \<Rightarrow> spcd_comm_matrix \<Rightarrow> nat \<Rightarrow> nat \<Rightarrow> nat \<Rightarrow> nat list \<times> nat list \<times> group_ptr option list \<Rightarrow>
   (nat list \<times> nat list \<times> group_ptr option list) option" where
  "generate_group bits m total_elements group_elements level s = (case s of (ws, ch, els) \<Rightarrow>
     map_option (\<lambda>(ws, ch, els, winner). (ws, ch, els))
       (foldM (pick_one bits m total_elements level) [0..<group_elements] (ws, ch, els, 0)))"

text \<open>The loop of \<open>generate_groups\<close>; a run that never reaches \<open>nelements\<close> is \<open>None\<close>.\<close>

type_synonym gen_state = "nat list \<times> nat list \<times> thread_group_t list list"

partial_function (option) groups_loop ::
  "int \<Rightarrow> spcd_comm_matrix \<Rightarrow> nat \<Rightarrow> nat \<Rightarrow> nat \<Rightarrow> nat \<Rightarrow> nat \<Rightarrow> nat \<Rightarrow> gen_state \<Rightarrow> gen_state option" where
  "groups_loop bits m nelements level el_per_group leftover group_i finished s =
     (if finished < nelements then (case s of (ws, ch, gs) \<Rightarrow>
        let in_group = (if leftover \<noteq> 0 then el_per_group + 1 else el_per_group);
            leftover = (if leftover \<noteq> 0 then leftover - 1 else leftover)
        in Option.bind (group_at gs (level, group_i)) (\<lambda>grp.
           Option.bind (generate_group bits m nelements in_group level (ws, ch, g_elements grp)) (\<lambda>(ws, ch, els).
           Option.bind (put_group gs (level, group_i)
             (grp\<lparr>g_type := GROUP_TYPE_GROUP, g_nelements := in_group, g_id := group_i, g_elements := els\<rparr>)) (\<lambda>gs.
           groups_loop bits m nelements level el_per_group leftover (group_i + 1) (finished + in_group) (ws, ch, gs)))))
      else Some s)"

declare groups_loop.simps [code]

definition generate_groups :: "int \<Rightarrow> spcd_comm_matrix \<Rightarrow> nat \<Rightarrow> nat \<Rightarrow> greedy_t \<Rightarrow> (nat \<times> greedy_t) option" where
  "generate_groups bits m nelements level st = do {
     avl_groups \<leftarrow> aget (exec_el_in_level st) level;
     let ngroups = (if nelements > avl_groups then avl_groups else nelements);
     if ngroups = 0 then None
     else do {
       ch \<leftarrow> foldM (\<lambda>i ch. aput ch i 0) [0..<nelements] (chosen st);
       (ws, ch, gs) \<leftarrow> groups_loop bits m nelements level (nelements div ngroups) (nelements mod ngroups) 0 0
         (winners st, ch, groups st);
       Some (ngroups, st\<lparr>winners := ws, chosen := ch, groups := gs\<rparr>)
     }
   }"

section \<open>The matrix of the groups\<close>

definition group_weight ::
  "int \<Rightarrow> spcd_comm_matrix \<Rightarrow> thread_group_t list list \<Rightarrow> thread_group_t \<Rightarrow> thread_group_t \<Rightarrow> int option" where
  "group_weight bits old gs gi gj = foldM (\<lambda>k w. foldM (\<lambda>z w. do {
       pk \<leftarrow> aget (g_elements gi) k; pk \<leftarrow> pk; ek \<leftarrow> group_at gs pk;
       pz \<leftarrow> aget (g_elements gj) z; pz \<leftarrow> pz; ez \<leftarrow> group_at gs pz;
       el \<leftarrow> matrix_el bits old (g_id ek) (g_id ez);
       Some (w + el)
     }) [0..<g_nelements gj] w) [0..<g_nelements gi] 0"

definition recreate_matrix ::
  "int \<Rightarrow> spcd_comm_matrix \<Rightarrow> thread_group_t list list \<Rightarrow> nat \<Rightarrow> nat \<Rightarrow> spcd_comm_matrix \<Rightarrow> spcd_comm_matrix option" where
  "recreate_matrix bits old gs level ngroups m =
     foldM (\<lambda>i m. foldM (\<lambda>j m. do {
         gi \<leftarrow> group_at gs (level, i);
         gj \<leftarrow> group_at gs (level, j);
         w \<leftarrow> group_weight bits old gs gi gj;
         set_matrix bits m (int i) (int j) (word_of_int w)
       }) [i + 1..<ngroups] m) [0..<ngroups - 1] (m\<lparr>nthreads := ngroups\<rparr>)"

section \<open>Laying the groups over the topology\<close>

definition is_shared_level :: "vertex_t \<Rightarrow> bool" where
  "is_shared_level x \<longleftrightarrow> v_type x = GRAPH_ELTYPE_ROOT \<and> 2 \<le> arity x \<or> 2 < arity x"

text \<open>The pointer in a slot that the code reads: the edge and the vertex.\<close>

definition read_slot :: "vertex_t \<Rightarrow> nat \<Rightarrow> (nat \<times> nat) option" where
  "read_slot x i = Option.bind (aget (linked x) i) (\<lambda>s. s)"

definition read_element :: "thread_group_t list list \<Rightarrow> thread_group_t \<Rightarrow> nat \<Rightarrow> thread_group_t option" where
  "read_element gs grp i = do { p \<leftarrow> aget (g_elements grp) i; p \<leftarrow> p; group_at gs p }"

text \<open>The branch for a processing unit; the assertion reads the first element.\<close>

definition map_to_pu :: "thread_group_t list list \<Rightarrow> vertex_t \<Rightarrow> thread_group_t \<Rightarrow> u32 list \<Rightarrow> u32 list option" where
  "map_to_pu gs x grp mp = do {
     el0 \<leftarrow> read_element gs grp 0;
     foldM (\<lambda>i mp. do { el \<leftarrow> read_element gs grp i; aput mp (g_id el) (v_id x) }) [0..<g_nelements grp] mp
   }"

text \<open>\<open>fuel\<close> bounds the depth of the recursion; the number of levels of the tree is enough.\<close>

primrec map_groups_to_topology_rec ::
  "nat \<Rightarrow> graph_t \<Rightarrow> thread_group_t list list \<Rightarrow> nat \<Rightarrow> nat option \<Rightarrow> thread_group_t \<Rightarrow> u32 list \<Rightarrow> u32 list option" where
  "map_groups_to_topology_rec 0 g gs v from grp mp = None"
| "map_groups_to_topology_rec (Suc fuel) g gs v from grp mp = do {
     x \<leftarrow> aget (vertices g) v;
     if v_type x = GRAPH_ELTYPE_PU then map_to_pu gs x grp mp
     else if is_shared_level x then
       foldM (\<lambda>i mp. do {
         (e, w) \<leftarrow> read_slot x i;
         if Some w \<noteq> from then do {
           el \<leftarrow> read_element gs grp i;
           map_groups_to_topology_rec fuel g gs w (Some v) el mp
         } else Some mp
       }) [0..<g_nelements grp] mp
     else if v_type x = GRAPH_ELTYPE_ROOT then do {
       (e, w) \<leftarrow> read_slot x 0;
       map_groups_to_topology_rec fuel g gs w (Some v) grp mp
     } else do {
       (e0, w0) \<leftarrow> read_slot x 0;
       if Some w0 \<noteq> from then map_groups_to_topology_rec fuel g gs w0 (Some v) grp mp
       else do {
         (e1, w1) \<leftarrow> read_slot x 1;
         map_groups_to_topology_rec fuel g gs w1 (Some v) grp mp
       }
     }
   }"

definition map_groups_to_topology ::
  "nat \<Rightarrow> graph_t \<Rightarrow> nat \<Rightarrow> thread_group_t list list \<Rightarrow> thread_group_t \<Rightarrow> u32 list \<Rightarrow> u32 list option" where
  "map_groups_to_topology fuel g root gs grp mp = map_groups_to_topology_rec fuel g gs root None grp mp"

section \<open>Levels\<close>

definition detect_levels_with_sharers :: "graph_t \<Rightarrow> nat routine" where
  "detect_levels_with_sharers g v previous_vertex edge level n = do {
     x \<leftarrow> aget (vertices g) v;
     Some (v_type x \<noteq> GRAPH_ELTYPE_PU, if is_shared_level x then n + 1 else n)
   }"

text \<open>The array and the position, which the code lowers after each shared level.\<close>

definition detect_arity_of_levels_with_sharers :: "graph_t \<Rightarrow> (nat list \<times> nat) routine" where
  "detect_arity_of_levels_with_sharers g v previous_vertex edge level s = (case s of (ars, pos) \<Rightarrow> do {
     x \<leftarrow> aget (vertices g) v;
     (ars, pos) \<leftarrow>
       (if v_type x = GRAPH_ELTYPE_ROOT \<and> 2 \<le> arity x then do { ars \<leftarrow> aput ars pos (arity x); Some (ars, pos - 1) }
        else if 2 < arity x then do { ars \<leftarrow> aput ars pos (arity x - 1); Some (ars, pos - 1) }
        else Some (ars, pos));
     Some (v_type x \<noteq> GRAPH_ELTYPE_PU, (ars, pos))
   })"

text \<open>Lowering \<open>levels_n\<close> to the first level with a single element, from the top down to level 1.\<close>

definition truncate_levels :: "nat list \<Rightarrow> nat \<Rightarrow> nat option" where
  "truncate_levels ex n = foldM (\<lambda>i l. do { e \<leftarrow> aget ex i; Some (if e = 1 then i else l) }) (rev [1..<n]) n"

text \<open>
  \<open>junk\<close> is the contents of fresh groups and words, \<open>alloc_0\<close> and \<open>alloc_1\<close> the memory of the two
  matrices. \<open>pu_number\<close> is that of the topology.
\<close>

definition libmapping_mapping_algorithm_greedy_init ::
  "nat \<Rightarrow> thread_group_t \<times> nat \<Rightarrow> u32 list option \<Rightarrow> u32 list option \<Rightarrow> config \<Rightarrow> graph_t \<Rightarrow> nat \<Rightarrow> nat \<Rightarrow>
   greedy_t option" where
  "libmapping_mapping_algorithm_greedy_init fuel junk alloc_0 alloc_1 cfg g root pu_number = do {
     (go, levels) \<leftarrow> topology_walk_pre_order fuel g (detect_levels_with_sharers g) root None None 0 2;
     (go, ars, pos) \<leftarrow> topology_walk_pre_order fuel g (detect_arity_of_levels_with_sharers g) root None None 0
       ((replicate levels (snd junk))[0 := 1, 1 := 1], levels - 1);
     ex \<leftarrow> foldM (\<lambda>i ex. do {
         above \<leftarrow> aget ex (i - 1);
         a \<leftarrow> aget ars i;
         if a = 0 then None else aput ex i (above div a)
       }) [1..<levels] ((replicate levels (snd junk))[0 := pu_number]);
     n \<leftarrow> truncate_levels ex levels;
     Some \<lparr>arities = ars, exec_el_in_level = ex, levels_n = n,
          groups = replicate n (replicate MAX_THREADS (fst junk)),
          matrix_0 = libmapping_comm_matrix_init alloc_0 (word_of_int (max_threads cfg)),
          matrix_1 = libmapping_comm_matrix_init alloc_1 (word_of_int (max_threads cfg)),
          winners = replicate MAX_THREADS 0, chosen = replicate MAX_THREADS 0\<rparr>
   }"

section \<open>The mapping\<close>

text \<open>
  One level of \<open>libmapping_mapping_algorithm_greedy_map\<close>. The matrix of the current elements is the
  detected one or one of the two buffers; the buffers are used in turn.
\<close>

datatype matrix_ref = M_init | M_0 | M_1

definition read_matrix :: "spcd_comm_matrix \<Rightarrow> greedy_t \<Rightarrow> matrix_ref \<Rightarrow> spcd_comm_matrix" where
  "read_matrix m_init st r = (case r of M_init \<Rightarrow> m_init | M_0 \<Rightarrow> matrix_0 st | M_1 \<Rightarrow> matrix_1 st)"

definition write_matrix :: "greedy_t \<Rightarrow> nat \<Rightarrow> spcd_comm_matrix \<Rightarrow> greedy_t" where
  "write_matrix st i m = (if i = 0 then st\<lparr>matrix_0 := m\<rparr> else st\<lparr>matrix_1 := m\<rparr>)"

definition greedy_level ::
  "int \<Rightarrow> spcd_comm_matrix \<Rightarrow> nat \<Rightarrow> greedy_t \<times> nat \<times> matrix_ref \<times> nat \<Rightarrow> (greedy_t \<times> nat \<times> matrix_ref \<times> nat) option" where
  "greedy_level bits m_init i s = (case s of (st, nelements, m, matrix_i) \<Rightarrow> do {
     (ngroups, st) \<leftarrow> generate_groups bits (read_matrix m_init st m) nelements i st;
     let m' = (if matrix_i = 0 then M_0 else M_1);
     st \<leftarrow> (if i < levels_n st - 1 then do {
         new \<leftarrow> recreate_matrix bits (read_matrix m_init st m) (groups st) i ngroups (read_matrix m_init st m');
         Some (write_matrix st matrix_i new)
       } else Some st);
     Some (st, ngroups, m', 1 - matrix_i)
   })"

definition init_threads :: "nat \<Rightarrow> greedy_t \<Rightarrow> greedy_t option" where
  "init_threads nt st = do {
     gs \<leftarrow> foldM (\<lambda>i gs. do {
       grp \<leftarrow> group_at gs (0, i);
       put_group gs (0, i) (grp\<lparr>g_type := GROUP_TYPE_THREAD, g_id := i, g_nelements := 0\<rparr>)
     }) [0..<nt] (groups st);
     Some (st\<lparr>groups := gs\<rparr>)
   }"

text \<open>\<open>root_group\<close> is static; only its first elements are read, and they are written here.\<close>

definition libmapping_mapping_algorithm_greedy_map ::
  "nat \<Rightarrow> config \<Rightarrow> graph_t \<Rightarrow> nat \<Rightarrow> spcd_comm_matrix \<Rightarrow> greedy_t \<Rightarrow> u32 list \<Rightarrow> (greedy_t \<times> u32 list) option" where
  "libmapping_mapping_algorithm_greedy_map fuel cfg g root m_init st mp = do {
     let nt = nthreads m_init;
     st \<leftarrow> init_threads nt st;
     (st, nelements, m, matrix_i) \<leftarrow>
       foldM (greedy_level (max_threads_bits cfg) m_init) [1..<levels_n st] (st, nt, M_init, 0);
     els \<leftarrow> foldM (\<lambda>i els. aput els i (Some (levels_n st - 1, i))) [0..<nelements] (replicate MAX_THREADS None);
     mp \<leftarrow> map_groups_to_topology fuel g root (groups st)
       \<lparr>g_type = GROUP_TYPE_GROUP, g_id = 0, g_nelements = nelements, g_elements = els\<rparr> mp;
     Some (st, mp)
   }"

section \<open>Choosing the members of a group\<close>

definition mval :: "int \<Rightarrow> spcd_comm_matrix \<Rightarrow> nat \<Rightarrow> nat \<Rightarrow> int" where
  "mval bits m i j = the (matrix_el bits m i j)"

lemma matrix_el_mval:
  assumes "matrix_wf bits m" "int i < dim_int bits" "int j < dim_int bits"
  shows "matrix_el bits m i j = Some (mval bits m i j)" "0 \<le> mval bits m i j"
  using assms get_matrix_get_comm[of bits m "int i" "int j"]
  by (auto simp: mval_def matrix_el_def get_comm_eq)

text \<open>The communication of \<open>j\<close> with a list of elements, and the first of the best candidates.\<close>

definition comm_with :: "int \<Rightarrow> spcd_comm_matrix \<Rightarrow> nat list \<Rightarrow> nat \<Rightarrow> int" where
  "comm_with bits m ps j = (\<Sum>q\<leftarrow>ps. mval bits m j q)"

definition best :: "nat list \<Rightarrow> (nat \<Rightarrow> int) \<Rightarrow> nat \<Rightarrow> nat \<Rightarrow> bool" where
  "best ch aff n w \<longleftrightarrow> w < n \<and> ch ! w = 0 \<and> (\<forall>j < n. ch ! j = 0 \<longrightarrow> aff j \<le> aff w \<and> (j < w \<longrightarrow> aff j < aff w))"

lemma affinity_eq:
  assumes "matrix_wf bits m" "int n \<le> dim_int bits" "j < n" "i \<le> length ws" "\<forall>k < i. ws ! k < n"
  shows "affinity bits m ws i j = Some (comm_with bits m (take i ws) j)"
  using assms(4,5)
proof (induction i)
  case 0
  then show ?case by (simp add: affinity_def comm_with_def)
next
  case (Suc i)
  then have "affinity bits m ws i j = Some (comm_with bits m (take i ws) j)" by simp
  moreover have "matrix_el bits m j (ws ! i) = Some (mval bits m j (ws ! i))"
    using Suc.prems assms(1-3) by (intro matrix_el_mval) auto
  ultimately show ?case
    using Suc.prems by (simp add: affinity_def foldM_snoc comm_with_def take_Suc_conv_app_nth)
qed

lemma comm_with_nonneg:
  assumes "matrix_wf bits m" "int n \<le> dim_int bits" "j < n" "\<forall>q \<in> set ps. q < n"
  shows "0 \<le> comm_with bits m ps j"
  unfolding comm_with_def using assms by (intro sum_list_nonneg) (auto intro!: matrix_el_mval(2))

lemma pick_winner_best:
  assumes m: "matrix_wf bits m" "int n \<le> dim_int bits" and i: "i \<le> length ws" "\<forall>k < i. ws ! k < n"
    and ch: "n \<le> length ch" and free: "\<exists>j < n. ch ! j = 0"
  shows "wp (pick_winner bits m n ws ch i w0) (\<lambda>(wmax, w). best ch (comm_with bits m (take i ws)) n w)"
proof -
  let ?aff = "comm_with bits m (take i ws)"
  have members: "\<forall>q \<in> set (take i ws). q < n" using i by (auto simp: in_set_conv_nth)
  define I where "I = (\<lambda>j (wmax, w). (\<forall>k < j. ch ! k \<noteq> 0) \<and> wmax = -1 \<or> wmax = ?aff w \<and> best ch ?aff j w)"
  have "wp (pick_winner bits m n ws ch i w0) (I n)"
    unfolding pick_winner_def
  proof (rule wp_for0 [where I = I])
    show "I 0 (-1, w0)" by (simp add: I_def)
    fix j s assume j: "j < n" and I: "I j s"
    obtain wmax w where s: "s = (wmax, w)" by (cases s)
    have aff: "affinity bits m ws i j = Some (?aff j)" by (rule affinity_eq[OF m j i])
    have nonneg: "0 \<le> ?aff j" by (rule comm_with_nonneg[OF m j members])
    show "wp (case s of (wmax, winner) \<Rightarrow> do {
        c \<leftarrow> aget ch j;
        if c = 0 then do { w \<leftarrow> affinity bits m ws i j; Some (if w > wmax then (w, j) else (wmax, winner)) }
        else Some (wmax, winner) }) (I (Suc j))"
    proof (cases "ch ! j = 0")
      case True
      show ?thesis
      proof (cases "(\<forall>k < j. ch ! k \<noteq> 0) \<and> wmax = -1")
        case first: True
        then have "best ch ?aff (Suc j) j" using True by (auto simp: best_def less_Suc_eq)
        then show ?thesis using s aff nonneg first True j ch by (simp add: I_def)
      next
        case False
        then have w: "wmax = ?aff w" "best ch ?aff j w" using I s by (auto simp: I_def)
        have "best ch ?aff (Suc j) (if ?aff j > ?aff w then j else w)"
          using w(2) True unfolding best_def less_Suc_eq by (auto intro: le_less_trans less_imp_le)
        then show ?thesis using s aff w True j ch by (cases "?aff w < ?aff j") (simp_all add: I_def)
      qed
    next
      case False
      then have "best ch ?aff (Suc j) w" if "best ch ?aff j w" using that by (auto simp: best_def less_Suc_eq)
      then show ?thesis using False I s j ch by (auto simp: I_def less_Suc_eq)
    qed
  qed
  then show ?thesis
    by (rule wp_mono) (use free in \<open>auto simp: I_def\<close>)
qed

text \<open>The elements after some were marked.\<close>

definition marked :: "nat list \<Rightarrow> nat list \<Rightarrow> nat list" where
  "marked ch ps = fold (\<lambda>p ch. ch[p := 1]) ps ch"

lemma marked_length [simp]: "length (marked ch ps) = length ch"
  unfolding marked_def by (induction ps arbitrary: ch) auto

lemma marked_nth: "j < length ch \<Longrightarrow> marked ch ps ! j = (if j \<in> set ps then 1 else ch ! j)"
  unfolding marked_def by (induction ps arbitrary: ch) (auto simp: nth_list_update)

lemma marked_snoc: "marked ch (ps @ [p]) = (marked ch ps)[p := 1]"
  by (simp add: marked_def)

lemma marked_append: "marked (marked ch ps) qs = marked ch (ps @ qs)"
  by (simp add: marked_def)

text \<open>Every pick is the best candidate, given those before it.\<close>

definition greedy_picks :: "int \<Rightarrow> spcd_comm_matrix \<Rightarrow> nat \<Rightarrow> nat list \<Rightarrow> nat list \<Rightarrow> bool" where
  "greedy_picks bits m n ch ps \<longleftrightarrow>
     (\<forall>k < length ps. best (marked ch (take k ps)) (comm_with bits m (take k ps)) n (ps ! k))"

lemma greedy_picks_snoc:
  "greedy_picks bits m n ch (ps @ [p]) \<longleftrightarrow>
     greedy_picks bits m n ch ps \<and> best (marked ch ps) (comm_with bits m ps) n p"
  by (auto simp: greedy_picks_def nth_append less_Suc_eq)

lemma greedy_picks_new:
  assumes "greedy_picks bits m n ch ps" "n \<le> length ch"
  shows "distinct ps \<and> (\<forall>p \<in> set ps. p < n \<and> ch ! p = 0)"
  using assms(1)
proof (induction ps rule: rev_induct)
  case (snoc p ps)
  then show ?case
    using assms(2) by (auto simp: greedy_picks_snoc best_def marked_nth split: if_splits)
qed simp

text \<open>How many are left to choose from.\<close>

definition free_count :: "nat list \<Rightarrow> nat \<Rightarrow> nat" where
  "free_count ch n = card {j. j < n \<and> ch ! j = 0}"

lemma free_count_marked:
  assumes "greedy_picks bits m n ch ps" "n \<le> length ch"
  shows "free_count (marked ch ps) n = free_count ch n - length ps"
proof -
  note new = greedy_picks_new[OF assms]
  have "{j. j < n \<and> marked ch ps ! j = 0} = {j. j < n \<and> ch ! j = 0} - set ps"
    using assms(2) by (auto simp: marked_nth split: if_splits)
  moreover have "set ps \<subseteq> {j. j < n \<and> ch ! j = 0}" using new by auto
  ultimately show ?thesis using new
    by (simp add: free_count_def card_Diff_subset distinct_card)
qed

lemma free_count_pos: "0 < free_count ch n \<Longrightarrow> \<exists>j < n. ch ! j = 0"
  unfolding free_count_def by (auto simp: card_gt_0_iff)

definition holds_elements :: "nat \<Rightarrow> nat list \<Rightarrow> group_ptr option list \<Rightarrow> bool" where
  "holds_elements level ps els \<longleftrightarrow> length ps \<le> length els \<and> (\<forall>k < length ps. els ! k = Some (level - 1, ps ! k))"

lemma generate_group_ok:
  assumes m: "matrix_wf bits m" "int n \<le> dim_int bits" and ch: "n \<le> length ch"
    and room: "c \<le> free_count ch n" "c \<le> length ws" "c \<le> length els"
  shows "wp (generate_group bits m n c level (ws, ch, els)) (\<lambda>(ws', ch', els'). \<exists>ps. length ps = c \<and>
    greedy_picks bits m n ch ps \<and> ch' = marked ch ps \<and> length ws' = length ws \<and>
    length els' = length els \<and> holds_elements level ps els')"
proof -
  define I where "I = (\<lambda>i (ws', ch', els', w::nat). \<exists>ps. length ps = i \<and> greedy_picks bits m n ch ps \<and> ch' = marked ch ps \<and>
     length ws' = length ws \<and> (\<forall>k < i. ws' ! k = ps ! k) \<and> length els' = length els \<and> holds_elements level ps els')"
  have "wp (foldM (pick_one bits m n level) [0..<c] (ws, ch, els, 0)) (I c)"
  proof (rule wp_for0 [where I = I])
    show "I 0 (ws, ch, els, 0)" by (simp add: I_def greedy_picks_def marked_def holds_elements_def)
    fix i s assume i: "i < c" and I: "I i s"
    obtain ws' ch' els' w where s: "s = (ws', ch', els', w)" by (cases s)
    from I s obtain ps where ps: "length ps = i" "greedy_picks bits m n ch ps" "ch' = marked ch ps"
      "length ws' = length ws" "\<forall>k < i. ws' ! k = ps ! k" "length els' = length els" "holds_elements level ps els'"
      by (auto simp: I_def)
    have new: "\<forall>k < i. ws' ! k < n" using greedy_picks_new[OF ps(2) ch] ps(1,5) by (metis nth_mem)
    have "take i ws' = ps" using ps(1,4,5) i room(2) by (intro nth_equalityI) auto
    moreover have "\<exists>j < n. ch' ! j = 0"
      using free_count_marked[OF ps(2) ch] i room(1) ps(1,3) by (intro free_count_pos) simp
    ultimately have "wp (pick_winner bits m n ws' ch' i w) (\<lambda>(wmax, w). best ch' (comm_with bits m ps) n w)"
      using pick_winner_best[OF m _ new, of ch' w] i room(2) ps(3,4) ch by simp
    then obtain wmax v where pick: "pick_winner bits m n ws' ch' i w = Some (wmax, v)"
      and v: "best ch' (comm_with bits m ps) n v" by (auto elim!: wpE)
    have vn: "v < n" using v by (simp add: best_def)
    have "wp (pick_one bits m n level i s) (I (Suc i))"
      using pick vn ch i room(2,3) ps
      unfolding s pick_one_def prod.case
      by (auto simp: I_def greedy_picks_snoc marked_snoc v[unfolded ps(3)] holds_elements_def nth_append
          nth_list_update less_Suc_eq intro!: exI[of _ "ps @ [v]"])
    then show "wp (pick_one bits m n level i s) (I (Suc i))" .
  qed
  then show ?thesis by (auto simp: generate_group_def I_def elim!: wpE)
qed

section \<open>The groups of a level\<close>

definition picks_chain :: "int \<Rightarrow> spcd_comm_matrix \<Rightarrow> nat \<Rightarrow> nat list \<Rightarrow> nat list list \<Rightarrow> bool" where
  "picks_chain bits m n ch pss \<longleftrightarrow>
     (\<forall>i < length pss. greedy_picks bits m n (marked ch (concat (take i pss))) (pss ! i))"

lemma picks_chain_Cons:
  "picks_chain bits m n ch (ps # pss) \<longleftrightarrow> greedy_picks bits m n ch ps \<and> picks_chain bits m n (marked ch ps) pss"
  unfolding picks_chain_def
  by (auto simp: less_Suc_eq_0_disj marked_append) (simp add: marked_def)+

lemma picks_chain_new:
  assumes "picks_chain bits m n ch pss" "n \<le> length ch"
  shows "distinct (concat pss) \<and> (\<forall>p \<in> set (concat pss). p < n \<and> ch ! p = 0)"
  using assms
proof (induction pss arbitrary: ch)
  case (Cons ps pss)
  from Cons.prems have ps: "greedy_picks bits m n ch ps" and rest: "picks_chain bits m n (marked ch ps) pss"
    by (simp_all add: picks_chain_Cons)
  from Cons.IH[OF rest] Cons.prems(2)
  have rest: "distinct (concat pss)" "\<forall>p \<in> set (concat pss). p < n \<and> marked ch ps ! p = 0" by simp_all
  have "p < n \<and> p \<notin> set ps \<and> ch ! p = 0" if "p \<in> set (concat pss)" for p
  proof -
    from rest(2) that have "p < n" "marked ch ps ! p = 0" by blast+
    then show ?thesis using Cons.prems(2) marked_nth[of p ch ps] by (auto split: if_splits)
  qed
  with greedy_picks_new[OF ps Cons.prems(2)] rest(1) show ?case by fastforce
qed simp

definition groups_wf :: "thread_group_t list list \<Rightarrow> bool" where
  "groups_wf gs \<longleftrightarrow> (\<forall>row \<in> set gs. length row = MAX_THREADS \<and> (\<forall>grp \<in> set row. length (g_elements grp) = MAX_THREADS))"

text \<open>The groups within the array of a level.\<close>

definition get_group :: "thread_group_t list list \<Rightarrow> group_ptr \<Rightarrow> thread_group_t option" where
  "get_group gs p = do { row \<leftarrow> aget gs (fst p); aget row (snd p) }"

lemma group_at_get: "get_group gs p = Some x \<Longrightarrow> group_at gs p = Some x"
  by (cases "fst p < length gs")
    (auto simp: get_group_def group_at_def aget_def Cons_nth_drop_Suc[symmetric] bind_eq_Some_conv split: if_splits)

definition group_is :: "nat \<Rightarrow> nat \<Rightarrow> nat list \<Rightarrow> thread_group_t \<Rightarrow> bool" where
  "group_is level i ps grp \<longleftrightarrow> g_type grp = GROUP_TYPE_GROUP \<and> g_id grp = i \<and> g_nelements grp = length ps \<and>
     holds_elements level ps (g_elements grp)"

definition grouped :: "thread_group_t list list \<Rightarrow> nat \<Rightarrow> nat list list \<Rightarrow> bool" where
  "grouped gs level pss \<longleftrightarrow>
     (\<forall>i < length pss. \<exists>grp. get_group gs (level, i) = Some grp \<and> group_is level i (pss ! i) grp)"

lemma get_group_some:
  assumes "groups_wf gs" "lv < length gs" "i < MAX_THREADS"
  obtains grp where "get_group gs (lv, i) = Some grp" "length (g_elements grp) = MAX_THREADS"
proof -
  have "gs ! lv \<in> set gs" using assms(2) by simp
  then have row: "length (gs ! lv) = MAX_THREADS" "\<forall>grp \<in> set (gs ! lv). length (g_elements grp) = MAX_THREADS"
    using assms(1) by (auto simp: groups_wf_def)
  then have "get_group gs (lv, i) = Some (gs ! lv ! i)" "gs ! lv ! i \<in> set (gs ! lv)"
    using assms by (simp_all add: get_group_def)
  with row(2) that show thesis by blast
qed

lemma put_group_ok:
  assumes "groups_wf gs" "lv < length gs" "i < MAX_THREADS" "length (g_elements x) = MAX_THREADS"
  shows "\<exists>gs'. put_group gs (lv, i) x = Some gs' \<and> groups_wf gs' \<and> length gs' = length gs \<and>
    (\<forall>q. get_group gs' q = (if q = (lv, i) then Some x else get_group gs q))"
proof -
  have "gs ! lv \<in> set gs" using assms(2) by simp
  then have row: "length (gs ! lv) = MAX_THREADS" "\<forall>grp \<in> set (gs ! lv). length (g_elements grp) = MAX_THREADS"
    using assms(1) by (auto simp: groups_wf_def)
  let ?row = "(gs ! lv)[i := x]"
  have "groups_wf (gs[lv := ?row])"
    using assms(1,4) row unfolding groups_wf_def
    by (auto dest!: set_update_subset_insert[THEN subsetD])
  moreover have "get_group (gs[lv := ?row]) q = (if q = (lv, i) then Some x else get_group gs q)" for q
    using assms(2,3) row(1) by (cases q) (auto simp: get_group_def aget_def nth_list_update)
  moreover have "put_group gs (lv, i) x = Some (gs[lv := ?row])"
    using assms(2,3) row(1) by (simp add: put_group_def Cons_nth_drop_Suc[symmetric] upd_conv_take_nth_drop)
  ultimately show ?thesis using assms(2) by simp
qed

lemma groups_loop_ok:
  assumes m: "matrix_wf bits m" "int n \<le> dim_int bits" and n: "n \<le> MAX_THREADS" and el: "0 < el"
  shows "groups_wf gs \<Longrightarrow> level < length gs \<Longrightarrow> length ws = MAX_THREADS \<Longrightarrow> length ch = MAX_THREADS \<Longrightarrow>
    lo \<le> r \<Longrightarrow> g + r \<le> MAX_THREADS \<Longrightarrow> finished + r * el + lo = n \<Longrightarrow> free_count ch n = r * el + lo \<Longrightarrow>
    wp (groups_loop bits m n level el lo g finished (ws, ch, gs)) (\<lambda>(ws', ch', gs').
      groups_wf gs' \<and> length gs' = length gs \<and> length ws' = MAX_THREADS \<and> length ch' = MAX_THREADS \<and>
      (\<exists>pss. length pss = r \<and> picks_chain bits m n ch pss \<and>
        (\<forall>i < r. length (pss ! i) = (if i < lo then el + 1 else el)) \<and>
        (\<forall>i < r. \<exists>grp. get_group gs' (level, g + i) = Some grp \<and> group_is level (g + i) (pss ! i) grp) \<and>
        (\<forall>q. fst q \<noteq> level \<or> snd q < g \<longrightarrow> get_group gs' q = get_group gs q)))"
proof (induction r arbitrary: gs ws ch lo g finished)
  case 0
  then show ?case by (subst groups_loop.simps) (simp add: picks_chain_def)
next
  case (Suc r)
  define c where "c = (if lo \<noteq> 0 then el + 1 else el)"
  define lo' where "lo' = (if lo \<noteq> 0 then lo - 1 else lo)"
  have sums: "c + r * el + lo' = Suc r * el + lo" using Suc.prems(5) by (auto simp: c_def lo'_def)
  have lt: "finished < n" using Suc.prems(7) el by (cases el) auto
  obtain grp where grp: "get_group gs (level, g) = Some grp" "length (g_elements grp) = MAX_THREADS"
    using get_group_some[OF Suc.prems(1,2), of g] Suc.prems(6) by auto
  have room: "c \<le> free_count ch n" "c \<le> length ws" "c \<le> length (g_elements grp)"
    using sums Suc.prems(3,7,8) n grp(2) by auto
  have chn: "n \<le> length ch" using Suc.prems(4) n by simp
  obtain ws1 ch1 els ps where gen: "generate_group bits m n c level (ws, ch, g_elements grp) = Some (ws1, ch1, els)"
    and ps: "length ps = c" "greedy_picks bits m n ch ps" "ch1 = marked ch ps" "length ws1 = length ws"
      "length els = length (g_elements grp)" "holds_elements level ps els"
    using generate_group_ok[OF m chn room, of level] by (auto elim!: wpE)
  let ?grp = "grp\<lparr>g_type := GROUP_TYPE_GROUP, g_nelements := c, g_id := g, g_elements := els\<rparr>"
  have "length (g_elements ?grp) = MAX_THREADS" using ps(5) grp(2) by simp
  from put_group_ok[OF Suc.prems(1,2) _ this, of g] Suc.prems(6)
  obtain gs1 where put: "put_group gs (level, g) ?grp = Some gs1" and gs1: "groups_wf gs1" "length gs1 = length gs"
    and get1: "\<And>q. get_group gs1 q = (if q = (level, g) then Some ?grp else get_group gs q)" by auto
  have step: "groups_loop bits m n level el lo g finished (ws, ch, gs) =
      groups_loop bits m n level el lo' (g + 1) (finished + c) (ws1, ch1, gs1)"
    using lt group_at_get[OF grp(1)] gen put unfolding c_def lo'_def
    by (subst groups_loop.simps) (simp add: Let_def)
  have "wp (groups_loop bits m n level el lo' (g + 1) (finished + c) (ws1, ch1, gs1)) (\<lambda>(ws', ch', gs').
      groups_wf gs' \<and> length gs' = length gs1 \<and> length ws' = MAX_THREADS \<and> length ch' = MAX_THREADS \<and>
      (\<exists>pss. length pss = r \<and> picks_chain bits m n ch1 pss \<and>
        (\<forall>i < r. length (pss ! i) = (if i < lo' then el + 1 else el)) \<and>
        (\<forall>i < r. \<exists>grp. get_group gs' (level, g + 1 + i) = Some grp \<and> group_is level (g + 1 + i) (pss ! i) grp) \<and>
        (\<forall>q. fst q \<noteq> level \<or> snd q < g + 1 \<longrightarrow> get_group gs' q = get_group gs1 q)))"
  proof (rule Suc.IH)
    show "lo' \<le> r" using Suc.prems(5) by (auto simp: lo'_def)
    show "finished + c + r * el + lo' = n" using sums Suc.prems(7) by simp
    show "free_count ch1 n = r * el + lo'"
      using free_count_marked[OF ps(2) chn] ps(1,3) sums Suc.prems(8) by simp
  qed (use gs1 ps Suc.prems in auto)
  then obtain ws' ch' gs' pss where rec: "groups_loop bits m n level el lo' (g + 1) (finished + c) (ws1, ch1, gs1) = Some (ws', ch', gs')"
    and out: "groups_wf gs'" "length gs' = length gs1" "length ws' = MAX_THREADS" "length ch' = MAX_THREADS"
    and pss: "length pss = r" "picks_chain bits m n ch1 pss" "\<forall>i < r. length (pss ! i) = (if i < lo' then el + 1 else el)"
      "\<forall>i < r. \<exists>grp. get_group gs' (level, g + 1 + i) = Some grp \<and> group_is level (g + 1 + i) (pss ! i) grp"
      "\<forall>q. fst q \<noteq> level \<or> snd q < g + 1 \<longrightarrow> get_group gs' q = get_group gs1 q"
    by (auto elim!: wpE)
  have this_group: "get_group gs' (level, g) = Some ?grp" "group_is level g ps ?grp"
    using pss(5) get1 ps(1,6) by (simp_all add: group_is_def)
  have "\<exists>grp. get_group gs' (level, g + i) = Some grp \<and> group_is level (g + i) ((ps # pss) ! i) grp" if "i < Suc r" for i
    using that this_group pss(4)[rule_format, of "i - 1"] by (cases i) auto
  moreover have "length ((ps # pss) ! i) = (if i < lo then el + 1 else el)" if "i < Suc r" for i
    using that ps(1) pss(3)[rule_format, of "i - 1"] by (cases i) (auto simp: c_def lo'_def)
  moreover have "picks_chain bits m n ch (ps # pss)" using ps(2,3) pss(2) by (simp add: picks_chain_Cons)
  moreover have "get_group gs' q = get_group gs q" if "fst q \<noteq> level \<or> snd q < g" for q
    using that pss(5) get1 by (cases q) auto
  ultimately show ?case
    using step rec out gs1(2) pss(1) by (simp, intro exI[of _ "ps # pss"]) simp
qed

definition ceil_div :: "nat \<Rightarrow> nat \<Rightarrow> nat" where
  "ceil_div n k = n div k + (if n mod k = 0 then 0 else 1)"

text \<open>A division of \<open>0, ..., n - 1\<close> into \<open>k\<close> nonempty groups of balanced size.\<close>

definition balanced_partition :: "nat \<Rightarrow> nat \<Rightarrow> nat list list \<Rightarrow> bool" where
  "balanced_partition n k pss \<longleftrightarrow> length pss = k \<and> mset (concat pss) = mset [0..<n] \<and>
     (\<forall>ps \<in> set pss. ps \<noteq> [] \<and> n div k \<le> length ps \<and> length ps \<le> ceil_div n k)"

definition greedy_wf :: "greedy_t \<Rightarrow> bool" where
  "greedy_wf st \<longleftrightarrow> groups_wf (groups st) \<and> length (winners st) = MAX_THREADS \<and> length (chosen st) = MAX_THREADS"

lemma sum_sizes: "lo \<le> r \<Longrightarrow> (\<Sum>i < r. if i < lo then el + 1 else el) = r * el + (lo :: nat)"
proof (induction r)
  case (Suc r)
  then show ?case by (cases "lo = Suc r") auto
qed simp

lemma zero_loop:
  "n \<le> length ch \<Longrightarrow> \<exists>ch'. foldM (\<lambda>i ch. aput ch i 0) [0..<n] ch = Some ch' \<and> length ch' = length ch \<and> (\<forall>j < n. ch' ! j = (0 :: nat))"
proof (induction n)
  case (Suc n)
  then obtain ch' where "foldM (\<lambda>i ch. aput ch i 0) [0..<n] ch = Some ch'" "length ch' = length ch" "\<forall>j < n. ch' ! j = 0"
    by auto
  with Suc.prems show ?case by (auto simp: foldM_snoc nth_list_update less_Suc_eq)
qed simp

lemma picks_partition:
  assumes "picks_chain bits m n ch pss" "n \<le> length ch" "length pss = r"
    and "\<forall>i < r. length (pss ! i) = (if i < n mod r then n div r + 1 else n div r)" "0 < r" "r \<le> n"
  shows "balanced_partition n r pss"
proof -
  have new: "distinct (concat pss)" "set (concat pss) \<subseteq> {0..<n}" using picks_chain_new[OF assms(1,2)] by auto
  have "length (concat pss) = (\<Sum>i < r. length (pss ! i))"
    using assms(3) by (simp add: length_concat sum_list_sum_nth atLeast0LessThan)
  also have "\<dots> = (\<Sum>i < r. if i < n mod r then n div r + 1 else n div r)" using assms(4) by simp
  also have "\<dots> = r * (n div r) + n mod r" using assms(5) by (intro sum_sizes) (simp add: less_imp_le)
  also have "\<dots> = n" by simp
  finally have "card (set (concat pss)) = card {0..<n}" using distinct_card[OF new(1)] by simp
  then have "set (concat pss) = {0..<n}" using new(2) by (intro card_subset_eq) auto
  then have "mset (concat pss) = mset [0..<n]" using new(1)
    by (simp only: set_eq_iff_mset_eq_distinct[symmetric] distinct_upt set_upt)
  moreover have "ps \<noteq> [] \<and> n div r \<le> length ps \<and> length ps \<le> ceil_div n r" if ps: "ps \<in> set pss" for ps
  proof -
    obtain i where i: "i < r" "ps = pss ! i" using ps unfolding in_set_conv_nth assms(3) by blast
    have "0 < n div r" using assms(5,6) by (simp add: div_greater_zero_iff)
    moreover have "length ps = (if i < n mod r then n div r + 1 else n div r)" using assms(4) i by simp
    ultimately show ?thesis by (auto simp: ceil_div_def split: if_splits)
  qed
  ultimately show ?thesis using assms(3) by (simp add: balanced_partition_def)
qed

lemma generate_groups_ok:
  assumes m: "matrix_wf bits m" "int n \<le> dim_int bits" and n: "0 < n" "n \<le> MAX_THREADS"
    and st: "greedy_wf st" "level < length (groups st)" "level < length (exec_el_in_level st)"
      "0 < exec_el_in_level st ! level"
  shows "wp (generate_groups bits m n level st) (\<lambda>(ng, st'). ng = min n (exec_el_in_level st ! level) \<and>
    greedy_wf st' \<and> (\<exists>ws ch gs. st' = st\<lparr>winners := ws, chosen := ch, groups := gs\<rparr> \<and> length gs = length (groups st)) \<and>
    (\<exists>pss. balanced_partition n ng pss \<and> grouped (groups st') level pss \<and>
       (\<exists>ch. (\<forall>j < n. ch ! j = 0) \<and> n \<le> length ch \<and> picks_chain bits m n ch pss)) \<and>
    (\<forall>q. fst q \<noteq> level \<longrightarrow> get_group (groups st') q = get_group (groups st) q))"
proof -
  let ?ng = "min n (exec_el_in_level st ! level)"
  have ng: "(if n > exec_el_in_level st ! level then exec_el_in_level st ! level else n) = ?ng" by auto
  have pos: "0 < ?ng" "?ng \<le> n" using n st(4) by auto
  obtain ch where ch: "foldM (\<lambda>i ch. aput ch i 0) [0..<n] (chosen st) = Some ch" "length ch = MAX_THREADS"
    "\<forall>j < n. ch ! j = 0"
    using zero_loop[of n "chosen st"] st(1) n(2) by (auto simp: greedy_wf_def)
  have "{j. j < n \<and> ch ! j = 0} = {0..<n}" using ch(3) by auto
  then have free: "free_count ch n = ?ng * (n div ?ng) + n mod ?ng" by (simp add: free_count_def)
  have len: "length (winners st) = MAX_THREADS" "groups_wf (groups st)" using st(1) by (simp_all add: greedy_wf_def)
  have el: "0 < n div ?ng" using pos by (simp add: div_greater_zero_iff)
  have lo: "n mod ?ng \<le> ?ng" "0 + ?ng \<le> MAX_THREADS" "0 + ?ng * (n div ?ng) + n mod ?ng = n"
    using pos n(2) mod_less_divisor[OF pos(1), of n] by (simp_all add: less_imp_le)
  from groups_loop_ok[OF m n(2) el len(2) st(2) len(1) ch(2) lo free]
  obtain ws' ch' gs' pss where loop: "groups_loop bits m n level (n div ?ng) (n mod ?ng) 0 0 (winners st, ch, groups st) = Some (ws', ch', gs')"
    and out: "groups_wf gs'" "length gs' = length (groups st)" "length ws' = MAX_THREADS" "length ch' = MAX_THREADS"
    and pss: "length pss = ?ng" "picks_chain bits m n ch pss"
      "\<forall>i < ?ng. length (pss ! i) = (if i < n mod ?ng then n div ?ng + 1 else n div ?ng)"
      "\<forall>i < ?ng. \<exists>grp. get_group gs' (level, 0 + i) = Some grp \<and> group_is level (0 + i) (pss ! i) grp"
      "\<forall>q. fst q \<noteq> level \<or> snd q < 0 \<longrightarrow> get_group gs' q = get_group (groups st) q"
    by (auto elim!: wpE)
  have chn: "n \<le> length ch" using ch(2) n(2) by simp
  have "generate_groups bits m n level st = Some (?ng, st\<lparr>winners := ws', chosen := ch', groups := gs'\<rparr>)"
    using st(3) pos(1) ch(1) loop by (simp add: generate_groups_def Let_def ng)
  moreover have "balanced_partition n ?ng pss" by (rule picks_partition[OF pss(2) chn pss(1,3) pos])
  moreover have "grouped gs' level pss" using pss(1,4) by (simp add: grouped_def)
  ultimately show ?thesis using out pss(2,5) ch(3) chn by (auto simp: greedy_wf_def)
qed

section \<open>The matrix of the groups is exact\<close>

text \<open>What the members of two groups exchange.\<close>

definition group_comm :: "int \<Rightarrow> spcd_comm_matrix \<Rightarrow> nat list \<Rightarrow> nat list \<Rightarrow> int" where
  "group_comm bits m ps qs = (\<Sum>p\<leftarrow>ps. \<Sum>q\<leftarrow>qs. mval bits m p q)"

definition has_ids :: "thread_group_t list list \<Rightarrow> nat \<Rightarrow> nat \<Rightarrow> bool" where
  "has_ids gs level n \<longleftrightarrow> (\<forall>p < n. \<exists>grp. get_group gs (level, p) = Some grp \<and> g_id grp = p)"

lemma foldM_sum:
  assumes "\<And>k w. k < length xs \<Longrightarrow> f k w = Some (w + h (xs ! k))"
  shows "foldM f [0..<length xs] w = Some (w + (\<Sum>x\<leftarrow>xs. h x :: int))"
  using assms
proof (induction xs rule: rev_induct)
  case (snoc x xs)
  have "foldM f [0..<length xs] w = Some (w + (\<Sum>x\<leftarrow>xs. h x))"
    by (rule snoc.IH) (simp add: snoc.prems nth_append)
  with snoc.prems[of "length xs"] show ?case by (simp add: foldM_snoc)
qed simp

lemma group_weight_eq:
  assumes m: "matrix_wf bits m" "int n \<le> dim_int bits" and ids: "has_ids gs (level - 1) n"
    and gi: "holds_elements level ps (g_elements gi)" "g_nelements gi = length ps" "\<forall>p \<in> set ps. p < n"
    and gj: "holds_elements level qs (g_elements gj)" "g_nelements gj = length qs" "\<forall>q \<in> set qs. q < n"
  shows "group_weight bits m gs gi gj = Some (group_comm bits m ps qs)"
proof -
  have el: "aget (g_elements gi) k = Some (Some (level - 1, ps ! k))" "ps ! k < n" if "k < length ps" for k
    using gi that by (auto simp: holds_elements_def)
  have el': "aget (g_elements gj) z = Some (Some (level - 1, qs ! z))" "qs ! z < n" if "z < length qs" for z
    using gj that by (auto simp: holds_elements_def)
  have cell: "(do {
       pk \<leftarrow> aget (g_elements gi) k; pk \<leftarrow> pk; ek \<leftarrow> group_at gs pk;
       pz \<leftarrow> aget (g_elements gj) z; pz \<leftarrow> pz; ez \<leftarrow> group_at gs pz;
       el \<leftarrow> matrix_el bits m (g_id ek) (g_id ez);
       Some (w + el)
     }) = Some (w + mval bits m (ps ! k) (qs ! z))" if kz: "k < length ps" "z < length qs" for k z w
  proof -
    obtain ek ez where g: "get_group gs (level - 1, ps ! k) = Some ek" "g_id ek = ps ! k"
      "get_group gs (level - 1, qs ! z) = Some ez" "g_id ez = qs ! z"
      using ids el(2)[OF kz(1)] el'(2)[OF kz(2)] unfolding has_ids_def by blast
    moreover have "matrix_el bits m (ps ! k) (qs ! z) = Some (mval bits m (ps ! k) (qs ! z))"
      using m el(2)[OF kz(1)] el'(2)[OF kz(2)] by (intro matrix_el_mval) auto
    ultimately show ?thesis using el(1)[OF kz(1)] el'(1)[OF kz(2)] by (simp add: group_at_get)
  qed
  have "group_weight bits m gs gi gj = Some (0 + group_comm bits m ps qs)"
    unfolding group_weight_def group_comm_def gi(2) gj(2)
    by (rule foldM_sum, rule foldM_sum[where h = "mval bits m (ps ! k)" for k]) (rule cell)
  then show ?thesis by simp
qed

lemma recreate_matrix_ok:
  assumes m: "matrix_wf bits m" "int n \<le> dim_int bits" and ids: "has_ids gs (level - 1) n"
    and pss: "grouped gs level pss" "\<forall>p \<in> set (concat pss). p < n"
    and new: "matrix_wf bits m'" "int (length pss) \<le> dim_int bits"
  shows "wp (recreate_matrix bits m gs level (length pss) m') (\<lambda>r. matrix_wf bits r \<and>
    (\<forall>i < length pss. \<forall>j < length pss. i \<noteq> j \<longrightarrow>
       get_matrix bits r (int i) (int j) = Some (word_of_int (group_comm bits m (pss ! min i j) (pss ! max i j)))))"
proof -
  let ?n = "length pss"
  define f where "f = (\<lambda>i j. do {
         gi \<leftarrow> group_at gs (level, i);
         gj \<leftarrow> group_at gs (level, j);
         w \<leftarrow> group_weight bits m gs gi gj;
         Some (word_of_int w :: u32)
       })"
  have f: "f i j = Some (word_of_int (group_comm bits m (pss ! i) (pss ! j)))" if ij: "i < ?n" "j < ?n" for i j
  proof -
    obtain gi gj where g: "get_group gs (level, i) = Some gi" "group_is level i (pss ! i) gi"
      "get_group gs (level, j) = Some gj" "group_is level j (pss ! j) gj"
      using pss(1) ij unfolding grouped_def by blast
    have "group_weight bits m gs gi gj = Some (group_comm bits m (pss ! i) (pss ! j))"
      using g(2,4) pss(2) ij by (intro group_weight_eq[OF m ids]) (auto simp: group_is_def)
    with g show ?thesis by (simp add: f_def group_at_get)
  qed
  have eq: "recreate_matrix bits m gs level ?n m' =
      fill_pairs (\<lambda>m i j v. set_matrix bits m (int i) (int j) v) ?n f (m'\<lparr>nthreads := ?n\<rparr>)"
    by (simp add: recreate_matrix_def fill_pairs_def f_def)
  have dim: "dim_int bits = int (2 ^ nat bits)" by (simp add: dim_int_def)
  have "wp (recreate_matrix bits m gs level ?n m') (\<lambda>r. matrix_wf bits r \<and>
      (\<forall>k < 2 ^ nat bits. \<forall>l < 2 ^ nat bits. get_matrix bits r (int k) (int l) =
        (if k < l \<and> l < ?n then f k l else if l < k \<and> k < ?n then f l k else get_matrix bits (m'\<lparr>nthreads := ?n\<rparr>) (int k) (int l))))"
    unfolding eq
  proof (rule spcd_mat.fill_pairs_law)
    show "matrix_wf bits (m'\<lparr>nthreads := ?n\<rparr>)" using new(1) by (simp add: matrix_wf_def)
    show "?n \<le> 2 ^ nat bits" using new(2) dim by simp
    show "f i j \<noteq> None" if "i < j" "j < ?n" for i j using f[of i j] that by simp
  qed
  then show ?thesis
  proof (rule wp_mono)
    fix r
    assume r: "matrix_wf bits r \<and> (\<forall>k < 2 ^ nat bits. \<forall>l < 2 ^ nat bits. get_matrix bits r (int k) (int l) =
        (if k < l \<and> l < ?n then f k l else if l < k \<and> k < ?n then f l k else get_matrix bits (m'\<lparr>nthreads := ?n\<rparr>) (int k) (int l)))"
    have "get_matrix bits r (int i) (int j) = Some (word_of_int (group_comm bits m (pss ! min i j) (pss ! max i j)))"
      if "i < ?n" "j < ?n" "i \<noteq> j" for i j
    proof -
      have "i < 2 ^ nat bits" "j < 2 ^ nat bits" using that new(2) dim by simp_all
      then show ?thesis using r that f[of i j] f[of j i] by (cases "i < j") (simp_all add: min_def max_def)
    qed
    with r show "matrix_wf bits r \<and> (\<forall>i < ?n. \<forall>j < ?n. i \<noteq> j \<longrightarrow>
       get_matrix bits r (int i) (int j) = Some (word_of_int (group_comm bits m (pss ! min i j) (pss ! max i j))))"
      by blast
  qed
qed

section \<open>Properties\<close>

text \<open>
  C9: building the groups of a level. With as many groups as there are elements, or as the level has
  parts when that is less, \<open>generate_groups\<close> divides the elements into nonempty groups whose sizes differ
  by at most one, each chosen greedily: every pick is the first of the elements left over that communicate
  most with those already in the group. The group records hold that division, and those of the other levels
  are untouched.
\<close>
theorem generate_groups_spec:
  assumes "matrix_wf bits m" "int n \<le> dim_int bits" "0 < n" "n \<le> MAX_THREADS"
    and "greedy_wf st" "level < length (groups st)" "level < length (exec_el_in_level st)" "0 < exec_el_in_level st ! level"
  shows "\<exists>ng st' pss ch. generate_groups bits m n level st = Some (ng, st') \<and> ng = min n (exec_el_in_level st ! level) \<and>
    balanced_partition n ng pss \<and> (\<forall>j < n. ch ! j = 0) \<and> picks_chain bits m n ch pss \<and> grouped (groups st') level pss \<and>
    (\<forall>q. fst q \<noteq> level \<longrightarrow> get_group (groups st') q = get_group (groups st) q)"
  using generate_groups_ok[OF assms] unfolding wp_iff split_paired_Ex prod.case by blast

definition demo_group :: thread_group_t where
  "demo_group = \<lparr>g_type = GROUP_TYPE_GROUP, g_id = 0, g_nelements = 0, g_elements = replicate MAX_THREADS None\<rparr>"

definition demo_greedy :: greedy_t where
  "demo_greedy = \<lparr>arities = [1, 1, 2], exec_el_in_level = [4, 2, 1], levels_n = 2,
     groups = replicate 2 (replicate MAX_THREADS demo_group),
     matrix_0 = \<lparr>matrix = Some (replicate 16 0), nthreads = 4\<rparr>, matrix_1 = \<lparr>matrix = Some (replicate 16 0), nthreads = 4\<rparr>,
     winners = replicate MAX_THREADS 0, chosen = replicate MAX_THREADS 0\<rparr>"

text \<open>Threads 0 and 2 communicate most, then 1 and 2.\<close>

definition demo_matrix :: spcd_comm_matrix where
  "demo_matrix = \<lparr>matrix = Some [0,0,0,0, 1,0,0,0, 9,5,0,0, 0,2,0,0], nthreads = 4\<rparr>"

lemma demo_greedy_wf: "greedy_wf demo_greedy"
  by (simp add: greedy_wf_def groups_wf_def demo_greedy_def demo_group_def)

lemma demo_matrix_wf: "matrix_wf 2 demo_matrix"
  by (simp add: matrix_wf_def demo_matrix_def)

theorem generate_groups_spec_witness:
  "\<exists>ng st' pss. generate_groups 2 demo_matrix 4 1 demo_greedy = Some (ng, st') \<and> ng = 2 \<and> balanced_partition 4 2 pss \<and>
    grouped (groups st') 1 pss"
  using generate_groups_spec[OF demo_matrix_wf, of 4 demo_greedy 1] demo_greedy_wf
  by (simp add: demo_greedy_def dim_int_def MAX_THREADS_def) blast

text \<open>
  C24: the matrix of the next level. When the groups of a level hold \<open>pss\<close>, \<open>recreate_matrix\<close> gives every
  pair of different groups the sum of what their members communicate, modulo the width of the counters, in both
  orders of the pair, and keeps the matrix well-formed.
\<close>
theorem recreate_matrix_spec:
  assumes "matrix_wf bits m" "int n \<le> dim_int bits" "has_ids gs (level - 1) n"
    and "grouped gs level pss" "\<forall>p \<in> set (concat pss). p < n"
    and "matrix_wf bits m'" "int (length pss) \<le> dim_int bits"
  shows "\<exists>r. recreate_matrix bits m gs level (length pss) m' = Some r \<and> matrix_wf bits r \<and>
    (\<forall>i < length pss. \<forall>j < length pss. i \<noteq> j \<longrightarrow>
       get_matrix bits r (int i) (int j) = Some (word_of_int (group_comm bits m (pss ! min i j) (pss ! max i j))))"
  using recreate_matrix_ok[OF assms] unfolding wp_iff .

definition demo_groups :: "thread_group_t list list" where
  "demo_groups = [map (\<lambda>i. demo_group\<lparr>g_id := i\<rparr>) [0..<4],
     [demo_group\<lparr>g_nelements := 2, g_elements := [Some (0, 0), Some (0, 2)]\<rparr>,
      demo_group\<lparr>g_id := 1, g_nelements := 2, g_elements := [Some (0, 1), Some (0, 3)]\<rparr>]]"

theorem recreate_matrix_spec_witness:
  "\<exists>r. recreate_matrix 2 demo_matrix demo_groups 1 2 demo_matrix = Some r \<and> matrix_wf 2 r \<and>
    get_matrix 2 r 0 1 = Some (word_of_int (group_comm 2 demo_matrix [0, 2] [1, 3]))"
proof -
  have "has_ids demo_groups 0 4" by (auto simp: has_ids_def get_group_def demo_groups_def)
  moreover have "grouped demo_groups 1 [[0, 2], [1, 3]]"
    by (auto simp: grouped_def less_Suc_eq numeral_2_eq_2 get_group_def demo_groups_def group_is_def holds_elements_def demo_group_def)
  ultimately obtain r where "recreate_matrix 2 demo_matrix demo_groups 1 (length [[0, 2], [1, 3 :: nat]]) demo_matrix = Some r"
    "matrix_wf 2 r" and vals: "\<forall>i < length [[0, 2], [1, 3]]. \<forall>j < length [[0, 2], [1, 3]]. i \<noteq> j \<longrightarrow>
       get_matrix 2 r (int i) (int j) = Some (word_of_int (group_comm 2 demo_matrix ([[0, 2], [1, 3]] ! min i j) ([[0, 2], [1, 3]] ! max i j)))"
    using recreate_matrix_spec[OF demo_matrix_wf, of 4 demo_groups 1 "[[0, 2], [1, 3]]" demo_matrix] demo_matrix_wf
    by (auto simp: dim_int_def)
  moreover from spec[OF vals, of 0] have "get_matrix 2 r 0 1 = Some (word_of_int (group_comm 2 demo_matrix [0, 2] [1, 3]))"
    by (auto dest: spec[of _ 1])
  ultimately show ?thesis by (auto simp: numeral_2_eq_2)
qed

end
