(* ===== verification/Cdsm_Mapping.thy ===== *)
theory Cdsm_Mapping
  imports Cdsm_Greedy
begin

text \<open>
  That the mapping algorithm of \<open>Cdsm_Greedy\<close> maps every thread: the levels it finds in the hardware tree,
  how the groups of every level fit the parts of the tree, and the recursion that lays them over it.
\<close>

section \<open>The hardware tree and its shared levels\<close>

text \<open>Vertex \<open>u\<close> carries the tree of \<open>as\<close>: the root of the whole tree has a type of its own.\<close>

definition hw_typed :: "graph_t \<Rightarrow> (nat \<Rightarrow> u32) \<Rightarrow> nat option \<Rightarrow> nat list \<Rightarrow> nat \<Rightarrow> nat \<Rightarrow> bool" where
  "hw_typed g ids par as u n \<longleftrightarrow> (case as of
       [] \<Rightarrow> typed g ids [] u n
     | a # as' \<Rightarrow> v_type (vertices g ! u) = (if par = None then GRAPH_ELTYPE_ROOT else GRAPH_ELTYPE_UNDEFINED) \<and>
         (\<forall>j < a. typed g ids as' (Suc u + j * tree_size as') (n + j * prod_list as')))"

definition hardware :: "graph_t \<Rightarrow> (nat \<Rightarrow> u32) \<Rightarrow> nat list \<Rightarrow> nat \<Rightarrow> bool" where
  "hardware g ids as root \<longleftrightarrow> as \<noteq> [] \<and> (\<forall>a \<in> set as. 0 < a) \<and> represents g None as root \<and> hw_typed g ids None as root 0"

definition shared :: "nat list \<Rightarrow> nat list" where
  "shared as = filter (\<lambda>a. 2 \<le> a) as"

lemma shared_simps [simp]:
  "shared [] = []" "shared (a # as) = (if 2 \<le> a then a # shared as else shared as)"
  by (simp_all add: shared_def)

lemma prod_shared: "\<forall>a \<in> set as. 0 < a \<Longrightarrow> prod_list (shared as) = prod_list as"
  by (induction as) (auto simp: not_le)

lemma hw_typed_child:
  assumes "hw_typed g ids par (a # as) u n" "j < a"
  shows "hw_typed g ids (Some u) as (Suc u + j * tree_size as) (n + j * prod_list as)"
proof -
  have "typed g ids as (Suc u + j * tree_size as) (n + j * prod_list as)" using assms by (simp add: hw_typed_def)
  then show ?thesis by (cases as) (auto simp: hw_typed_def)
qed

lemma hw_vertex:
  assumes "represents g par (a # as) u" "hw_typed g ids par (a # as) u n"
  shows "u < length (vertices g)" "v_type (vertices g ! u) \<noteq> GRAPH_ELTYPE_PU"
    "arity (vertices g ! u) = (if par = None then a else a + 1)"
    "is_shared_level (vertices g ! u) \<longleftrightarrow> 2 \<le> a"
    "v_type (vertices g ! u) = GRAPH_ELTYPE_ROOT \<longleftrightarrow> par = None"
    "\<And>j. j < a \<Longrightarrow> \<exists>e. read_slot (vertices g ! u) j = Some (e, Suc u + j * tree_size as)"
proof -
  have node: "node_ok g par u (2 ^ length (a # as)) (children (a # as) u)" using assms(1) by simp
  then show ar: "u < length (vertices g)" "arity (vertices g ! u) = (if par = None then a else a + 1)"
    by (simp_all add: node_ok_def)
  show ty: "v_type (vertices g ! u) \<noteq> GRAPH_ELTYPE_PU" "v_type (vertices g ! u) = GRAPH_ELTYPE_ROOT \<longleftrightarrow> par = None"
    using assms(2) by (simp_all add: hw_typed_def)
  show "is_shared_level (vertices g ! u) \<longleftrightarrow> 2 \<le> a"
    using ar ty by (cases par) (auto simp: is_shared_level_def)
  show "\<exists>e. read_slot (vertices g ! u) j = Some (e, Suc u + j * tree_size as)" if "j < a" for j
    using node that by (auto simp: node_ok_def read_slot_def)
qed

lemma hw_leaf:
  assumes "represents g par [] u" "hw_typed g ids par [] u n"
  shows "u < length (vertices g)" "v_type (vertices g ! u) = GRAPH_ELTYPE_PU" "v_id (vertices g ! u) = ids n"
    "\<not> is_shared_level (vertices g ! u)"
  using assms by (auto simp: hw_typed_def node_ok_def is_shared_level_def)

section \<open>The walk down the first path\<close>

text \<open>A routine that stops at the leaves sees the first vertex of every level, and no more.\<close>

lemma walk_first_path_edges:
  assumes "represents g par as u" "\<And>p. par = Some p \<Longrightarrow> p < u" "\<forall>a \<in> set as. 0 < a" "length as < fuel"
    and "\<And>k from e l s. k \<le> length as \<Longrightarrow> E k e \<Longrightarrow>
      routine (u + k) from e l s = map_option (\<lambda>s. (k < length as, s)) (h k s)"
    and "E 0 e" "\<And>k e'. k < length as \<Longrightarrow> e' < used_edges g \<Longrightarrow> e_weight (edges g ! e') = 2 ^ (length as - k) \<Longrightarrow>
      E (Suc k) (Some e')"
  shows "topology_walk_pre_order fuel g routine u par e l s =
    map_option (\<lambda>s. (False, s)) (foldM h [0..<Suc (length as)] s)"
  using assms
proof (induction as arbitrary: fuel par u e l s h E)
  case Nil
  obtain n where n: "fuel = Suc n" using Nil.prems(4) by (cases fuel) auto
  have "routine u par e l s = map_option (\<lambda>s. (False, s)) (h 0 s)" using Nil.prems(5)[of 0] Nil.prems(6) by simp
  then show ?case unfolding n by (cases "h 0 s") simp_all
next
  case (Cons a as)
  obtain n where n: "fuel = Suc n" using Cons.prems(4) by (cases fuel) auto
  let ?x = "vertices g ! u"
  have node: "node_ok g par u (2 ^ length (a # as)) (children (a # as) u)" using Cons.prems(1) by simp
  have a: "0 < a" using Cons.prems(3) by simp
  then have "children (a # as) u ! 0 = Suc u" "0 < length (children (a # as) u)" by simp_all
  with node have "\<exists>e. e < used_edges g \<and> linked ?x ! 0 = Some (e, Suc u) \<and> e_weight (edges g ! e) = 2 ^ length (a # as)"
    unfolding node_ok_def by metis
  moreover have "0 < length (linked ?x)" "u < length (vertices g)" using node a by (auto simp: node_ok_def)
  ultimately obtain e' where slot: "aget (linked ?x) 0 = Some (Some (e', Suc u))" and u: "u < length (vertices g)"
    and e': "e' < used_edges g" "e_weight (edges g ! e') = 2 ^ length (a # as)"
    by auto
  have "0 < arity ?x" using node a by (simp add: node_ok_def)
  then obtain rest where range: "[0..<arity ?x] = 0 # rest" by (simp add: upt_conv_Cons)
  have first: "routine u par e l s = map_option (\<lambda>s. (True, s)) (h 0 s)" using Cons.prems(5)[of 0] Cons.prems(6) by simp
  have child: "topology_walk_pre_order n g routine (Suc u) (Some u) (Some e') (l + 1) s' =
      map_option (\<lambda>s. (False, s)) (foldM (\<lambda>k. h (Suc k)) [0..<Suc (length as)] s')" for s'
  proof (rule Cons.IH[where E = "\<lambda>k. E (Suc k)"])
    show "represents g (Some u) as (Suc u)" using Cons.prems(1) a by fastforce
    show "routine (Suc u + k) from e l s = map_option (\<lambda>s. (k < length as, s)) (h (Suc k) s)"
      if "k \<le> length as" "E (Suc k) e" for k "from" e l s
      using Cons.prems(5)[of "Suc k"] that by simp
    show "E (Suc 0) (Some e')" using Cons.prems(7)[of 0] e' by simp
    show "E (Suc (Suc k)) (Some d)" if "k < length as" "d < used_edges g" "e_weight (edges g ! d) = 2 ^ (length as - k)" for k d
      using Cons.prems(7)[of "Suc k" d] that by simp
  qed (use Cons.prems n in auto)
  have ne: "Some (Suc u) \<noteq> par" using Cons.prems(2)[of "Suc u"] by auto
  have shift: "foldM (\<lambda>k. h (Suc k)) xs s' = foldM h (map Suc xs) s'" for xs s'
  proof (induction xs arbitrary: s')
    case (Cons x xs)
    then show ?case by (cases "h (Suc x) s'") simp_all
  qed simp
  have all: "[0..<Suc (length (a # as))] = 0 # map Suc [0..<Suc (length as)]"
    by (simp add: upt_conv_Cons map_Suc_upt del: upt_Suc)
  show ?case
  proof (cases "h 0 s")
    case None
    then show ?thesis using first unfolding n all by simp
  next
    case (Some s')
    have "topology_walk_pre_order (Suc n) g routine u par e l s =
        Option.bind (topology_walk_pre_order n g routine (Suc u) (Some u) (Some e') (l + 1) s')
          (\<lambda>(go, t). if go then loopM (\<lambda>i s. do {
         slot \<leftarrow> aget (linked ?x) i;
         (e, w) \<leftarrow> slot;
         if Some w \<noteq> par then topology_walk_pre_order n g routine w (Some u) (Some e) (l + 1) s
         else Some (True, s)
       }) rest t else Some (False, t))"
      using first Some u slot ne range by simp
    then show ?thesis
      unfolding n all child using Some shift
      by (cases "foldM h (map Suc [0..<Suc (length as)]) s'") (simp_all del: upt_Suc)
  qed
qed

lemma walk_first_path:
  assumes "represents g par as u" "\<And>p. par = Some p \<Longrightarrow> p < u" "\<forall>a \<in> set as. 0 < a" "length as < fuel"
    and "\<And>k from e l s. k \<le> length as \<Longrightarrow> routine (u + k) from e l s = map_option (\<lambda>s. (k < length as, s)) (h k s)"
  shows "topology_walk_pre_order fuel g routine u par e l s =
    map_option (\<lambda>s. (False, s)) (foldM h [0..<Suc (length as)] s)"
  by (rule walk_first_path_edges[where E = "\<lambda>_ _. True", OF assms(1-4)]) (use assms(5) in auto)

lemma foldM_nth: "foldM (\<lambda>k. F (xs ! k)) [0..<length xs] s = foldM F xs s"
proof (induction xs arbitrary: s rule: rev_induct)
  case (snoc x xs)
  have "foldM (\<lambda>k. F ((xs @ [x]) ! k)) [0..<length xs] s = foldM (\<lambda>k. F (xs ! k)) [0..<length xs] s" for s
    by (rule foldM_cong) (auto simp: nth_append)
  with snoc show ?case by (simp add: foldM_snoc)
qed simp

text \<open>The vertices of the first path.\<close>

lemma path_vertex:
  assumes "represents g par as u" "hw_typed g ids par as u n" "\<forall>a \<in> set as. 0 < a" "k < length as"
  shows "u + k < length (vertices g) \<and> v_type (vertices g ! (u + k)) \<noteq> GRAPH_ELTYPE_PU \<and>
    (v_type (vertices g ! (u + k)) = GRAPH_ELTYPE_ROOT \<longleftrightarrow> k = 0 \<and> par = None) \<and>
    arity (vertices g ! (u + k)) = (if k = 0 \<and> par = None then as ! k else as ! k + 1)"
  using assms
proof (induction as arbitrary: par u k)
  case (Cons a as)
  show ?case
  proof (cases k)
    case 0
    then show ?thesis using hw_vertex[OF Cons.prems(1,2)] by simp
  next
    case (Suc k')
    have "0 < a" using Cons.prems(3) by simp
    with hw_typed_child[OF Cons.prems(2), of 0] Cons.prems(1)
    have "hw_typed g ids (Some u) as (Suc u) n" "represents g (Some u) as (Suc u)" by fastforce+
    from Cons.IH[OF this(2,1), of k'] Cons.prems(3,4) Suc show ?thesis by simp
  qed
qed simp

lemma path_leaf:
  assumes "represents g par as u" "hw_typed g ids par as u n" "\<forall>a \<in> set as. 0 < a"
  shows "u + length as < length (vertices g) \<and> v_type (vertices g ! (u + length as)) = GRAPH_ELTYPE_PU \<and>
    arity (vertices g ! (u + length as)) \<le> 1 \<and> (as \<noteq> [] \<or> par \<noteq> None \<longrightarrow> arity (vertices g ! (u + length as)) = 1)"
  using assms
proof (induction as arbitrary: par u)
  case Nil
  then show ?case using hw_leaf[OF Nil.prems(1,2)] by (simp add: node_ok_def)
next
  case (Cons a as)
  have "0 < a" using Cons.prems(3) by simp
  with hw_typed_child[OF Cons.prems(2), of 0] Cons.prems(1)
  have "hw_typed g ids (Some u) as (Suc u) n" "represents g (Some u) as (Suc u)" by fastforce+
  from Cons.IH[OF this(2,1)] Cons.prems(3) show ?case by simp
qed

section \<open>The levels of the hardware\<close>

lemma path_shared:
  assumes "hardware g ids as root" "k \<le> length as"
  obtains x where "aget (vertices g) (root + k) = Some x" "v_type x \<noteq> GRAPH_ELTYPE_PU \<longleftrightarrow> k < length as"
    "v_type x = GRAPH_ELTYPE_ROOT \<longleftrightarrow> k = 0" "is_shared_level x \<longleftrightarrow> k < length as \<and> 2 \<le> as ! k"
    "k < length as \<longrightarrow> arity x = (if k = 0 then as ! k else as ! k + 1)" "k = length as \<longrightarrow> arity x \<le> 1"
proof -
  from assms(1) have t: "represents g None as root" "hw_typed g ids None as root 0" "\<forall>a \<in> set as. 0 < a" "0 < length as"
    by (auto simp: hardware_def)
  let ?x = "vertices g ! (root + k)"
  show thesis
  proof (cases "k < length as")
    case True
    note v = path_vertex[OF t(1-3) True]
    then have "is_shared_level ?x \<longleftrightarrow> 2 \<le> as ! k" by (cases "k = 0") (auto simp: is_shared_level_def Suc_le_eq numeral_2_eq_2)
    with v True that[of ?x] show thesis by simp
  next
    case False
    with assms(2) have k: "k = length as" by simp
    note v = path_leaf[OF t(1-3), folded k]
    then have "\<not> is_shared_level ?x" by (auto simp: is_shared_level_def)
    moreover have "k \<noteq> 0" using k t(4) by simp
    ultimately show thesis using v k that[of ?x] by simp
  qed
qed

lemma detect_levels_ok:
  assumes "hardware g ids as root" "length as < fuel"
  shows "topology_walk_pre_order fuel g (detect_levels_with_sharers g) root None None 0 2 =
    Some (False, length (shared as) + 2)"
proof -
  define F where "F = (\<lambda>a n. Some (if 2 \<le> (a::nat) then n + 1 else n :: nat))"
  define h where "h = (\<lambda>k n. if k < length as then F (as ! k) n else Some n)"
  have step: "detect_levels_with_sharers g (root + k) from e l s = map_option (\<lambda>s. (k < length as, s)) (h k s)"
    if k: "k \<le> length as" for k "from" e l s
  proof -
    obtain x where x: "aget (vertices g) (root + k) = Some x" "v_type x \<noteq> GRAPH_ELTYPE_PU \<longleftrightarrow> k < length as"
      "v_type x = GRAPH_ELTYPE_ROOT \<longleftrightarrow> k = 0" "is_shared_level x \<longleftrightarrow> k < length as \<and> 2 \<le> as ! k"
      "k < length as \<longrightarrow> arity x = (if k = 0 then as ! k else as ! k + 1)" "k = length as \<longrightarrow> arity x \<le> 1"
      by (rule path_shared[OF assms(1) k], rule that, assumption+)
    show ?thesis unfolding detect_levels_with_sharers_def x(1) by (simp add: x(2,4) h_def F_def)
  qed
  have all: "foldM F as n = Some (length (shared as) + n)" for n
    by (induction as arbitrary: n) (auto simp: F_def)
  have same: "foldM h [0..<length as] n = foldM F as n" for n
    unfolding foldM_nth[of F as, symmetric] by (rule foldM_cong) (auto simp: h_def)
  have last_step: "h (length as) n = Some n" for n by (simp add: h_def)
  from assms(1) have rep: "represents g None as root" and pos: "\<forall>a \<in> set as. 0 < a" by (auto simp: hardware_def)
  have "topology_walk_pre_order fuel g (detect_levels_with_sharers g) root None None 0 2 =
      map_option (\<lambda>s. (False, s)) (foldM h [0..<Suc (length as)] 2)"
    by (rule walk_first_path[OF rep _ pos assms(2) step]) simp
  then show ?thesis using all same last_step by (simp add: foldM_snoc)
qed

lemma fill_arities:
  assumes "\<And>a ars pos. F a (ars, pos) = (if 2 \<le> a then do { ars \<leftarrow> aput ars pos a; Some (ars, pos - 1) } else Some (ars, pos))"
  shows "length ys = length (shared as) \<Longrightarrow>
    foldM F as (1 # 1 # ys @ zs, length ys + 1) = Some (1 # 1 # rev (shared as) @ zs, 1)"
proof (induction as arbitrary: ys zs)
  case (Cons a as)
  show ?case
  proof (cases "2 \<le> a")
    case True
    with Cons.prems obtain ys' y where ys: "ys = ys' @ [y]" "length ys' = length (shared as)"
      by (cases ys rule: rev_cases) auto
    have "F a (1 # 1 # ys @ zs, length ys + 1) = Some (1 # 1 # ys' @ a # zs, length ys' + 1)"
      using True ys(1) by (simp add: assms nth_append list_update_append)
    with Cons.IH[OF ys(2), of "a # zs"] True show ?thesis by simp
  next
    case False
    with Cons assms show ?thesis by simp
  qed
qed simp

lemma detect_arities_ok:
  assumes "hardware g ids as root" "length as < fuel"
  shows "topology_walk_pre_order fuel g (detect_arity_of_levels_with_sharers g) root None None 0
      ((replicate (length (shared as) + 2) junk)[0 := 1, 1 := 1], length (shared as) + 1) =
    Some (False, 1 # 1 # rev (shared as), 1)"
proof -
  define F where "F = (\<lambda>a s. case s of (ars, pos) \<Rightarrow>
    if 2 \<le> (a::nat) then do { ars \<leftarrow> aput ars pos a; Some (ars, pos - 1) } else Some (ars, pos :: nat))"
  define h where "h = (\<lambda>k s. if k < length as then F (as ! k) s else Some s)"
  have step: "detect_arity_of_levels_with_sharers g (root + k) from e l s = map_option (\<lambda>s. (k < length as, s)) (h k s)"
    if k: "k \<le> length as" for k "from" e l s
  proof -
    obtain ars pos where s: "s = (ars, pos)" by (cases s)
    obtain x where x: "aget (vertices g) (root + k) = Some x" "v_type x \<noteq> GRAPH_ELTYPE_PU \<longleftrightarrow> k < length as"
      "v_type x = GRAPH_ELTYPE_ROOT \<longleftrightarrow> k = 0" "is_shared_level x \<longleftrightarrow> k < length as \<and> 2 \<le> as ! k"
      "k < length as \<longrightarrow> arity x = (if k = 0 then as ! k else as ! k + 1)" "k = length as \<longrightarrow> arity x \<le> 1"
      by (rule path_shared[OF assms(1) k], rule that, assumption+)
    have "0 < length as" using assms(1) by (auto simp: hardware_def)
    then have place: "(if v_type x = GRAPH_ELTYPE_ROOT \<and> 2 \<le> arity x then do { ars \<leftarrow> aput ars pos (arity x); Some (ars, pos - 1) }
        else if 2 < arity x then do { ars \<leftarrow> aput ars pos (arity x - 1); Some (ars, pos - 1) }
        else Some (ars, pos)) = h k (ars, pos)"
    proof (cases "k < length as")
      case True
      with x(3) True x(5) show ?thesis by (cases "k = 0") (simp_all add: h_def F_def, arith?)
    next
      case False
      with k have "k = length as" by simp
      with x(3) x(6) \<open>0 < length as\<close> show ?thesis by (auto simp: h_def)
    qed
    show ?thesis
      unfolding s detect_arity_of_levels_with_sharers_def prod.case x(1) Option.bind.bind_lunit place x(2)
      by (cases "h k (ars, pos)") auto
  qed
  have all: "foldM F as (1 # 1 # replicate (length (shared as)) junk @ [], length (replicate (length (shared as)) junk) + 1) =
      Some (1 # 1 # rev (shared as) @ [], 1)"
    by (rule fill_arities) (simp_all add: F_def)
  have same: "foldM h [0..<length as] s = foldM F as s" for s
    unfolding foldM_nth[of F as, symmetric] by (rule foldM_cong) (auto simp: h_def)
  have last_step: "h (length as) s = Some s" for s by (simp add: h_def)
  from assms(1) have rep: "represents g None as root" and pos: "\<forall>a \<in> set as. 0 < a" by (auto simp: hardware_def)
  have "topology_walk_pre_order fuel g (detect_arity_of_levels_with_sharers g) root None None 0 ((replicate (length (shared as) + 2) junk)[0 := 1, 1 := 1], length (shared as) + 1) =
      map_option (\<lambda>s. (False, s)) (foldM h [0..<Suc (length as)] ((replicate (length (shared as) + 2) junk)[0 := 1, 1 := 1], length (shared as) + 1))"
    by (rule walk_first_path[OF rep _ pos assms(2) step]) simp
  then show ?thesis using all same last_step by (simp add: foldM_snoc)
qed

text \<open>How many groups a level can have: one for each part of the hardware that shares it.\<close>

definition avail :: "nat list \<Rightarrow> nat \<Rightarrow> nat" where
  "avail S l = prod_list (take (Suc (length S) - l) S)"

lemma avail_step:
  assumes "0 < l" "l \<le> length S"
  shows "avail S l = avail S (Suc l) * S ! (length S - l)"
proof -
  have "Suc (length S) - l = Suc (length S - l)" using assms by simp
  then have "take (Suc (length S) - l) S = take (length S - l) S @ [S ! (length S - l)]"
    using assms by (simp add: take_Suc_conv_app_nth)
  then show ?thesis by (simp add: avail_def)
qed

lemma avail_top: "avail S (Suc (length S)) = 1"
  by (simp add: avail_def)

lemma avail_one: "\<forall>a \<in> set S. 2 \<le> a \<Longrightarrow> 0 < l \<Longrightarrow> l \<le> length S \<Longrightarrow> 2 \<le> avail S l"
proof -
  assume S: "\<forall>a \<in> set S. 2 \<le> a" and l: "0 < l" "l \<le> length S"
  have "0 < prod_list (take n S)" for n
    by (rule ccontr) (use S in \<open>fastforce simp: prod_list_zero_iff dest: in_set_takeD\<close>)
  then have "1 * 2 \<le> avail S (Suc l) * S ! (length S - l)"
    using S l by (intro mult_le_mono) (auto simp: avail_def Suc_le_eq)
  then show ?thesis using avail_step[OF l] by simp
qed

lemma exec_loop:
  assumes "\<forall>a \<in> set S. 2 \<le> a"
  shows "wp (foldM (\<lambda>i ex. do {
         above \<leftarrow> aget ex (i - 1);
         a \<leftarrow> aget (1 # 1 # rev S) i;
         if a = 0 then None else aput ex i (above div a)
       }) [1..<length S + 2] ((replicate (length S + 2) junk)[0 := prod_list S]))
     (\<lambda>ex. length ex = length S + 2 \<and> (\<forall>i. 1 \<le> i \<and> i < length S + 2 \<longrightarrow> ex ! i = avail S i))"
proof -
  define I where "I = (\<lambda>c ex. length ex = length S + 2 \<and> ex ! 0 = prod_list S \<and> (\<forall>i. 1 \<le> i \<and> i < c \<longrightarrow> ex ! i = avail S i))"
  have "wp (foldM (\<lambda>i ex. do {
         above \<leftarrow> aget ex (i - 1);
         a \<leftarrow> aget (1 # 1 # rev S) i;
         if a = 0 then None else aput ex i (above div a)
       }) [1..<length S + 2] ((replicate (length S + 2) junk)[0 := prod_list S])) (I (length S + 2))"
  proof (rule wp_for[where I = I])
    fix i ex assume i: "1 \<le> i" "i < length S + 2" and I: "I i ex"
    show "wp (do { above \<leftarrow> aget ex (i - 1); a \<leftarrow> aget (1 # 1 # rev S) i; if a = 0 then None else aput ex i (above div a) }) (I (Suc i))"
    proof (cases "i = 1")
      case True
      have av: "avail S 1 = prod_list S" by (simp add: avail_def)
      have "aget ex (i - 1) = Some (prod_list S)" "aget (1 # 1 # rev S) i = Some 1" "aput ex i (prod_list S) = Some (ex[i := prod_list S])"
        "ex[1 := prod_list S] ! 1 = prod_list S"
        using True I by (simp_all add: I_def)
      with True I av show ?thesis by (auto simp: I_def less_Suc_eq nth_list_update)
    next
      case False
      then obtain l where l: "i = Suc l" "0 < l" "l \<le> length S" using i by (cases i) auto
      have a: "(1 # 1 # rev S) ! i = S ! (length S - l)" using l by (cases l) (auto simp: rev_nth)
      have pos: "2 \<le> S ! (length S - l)" using assms l by simp
      have "ex ! (i - 1) = avail S l" using I l by (simp add: I_def)
      then have "ex ! (i - 1) div (1 # 1 # rev S) ! i = avail S i"
        using pos avail_step[OF l(2,3)] l(1) a by simp
      with a pos I i show ?thesis by (auto simp: I_def less_Suc_eq nth_list_update wp_rules)
    qed
  qed (simp_all add: I_def)
  then show ?thesis by (rule wp_mono) (simp add: I_def)
qed

lemma truncate_ok:
  assumes "\<forall>a \<in> set S. 2 \<le> a" "length ex = length S + 2" "\<forall>i. 1 \<le> i \<and> i < length S + 2 \<longrightarrow> ex ! i = avail S i"
  shows "truncate_levels ex (length S + 2) = Some (length S + 1)"
proof -
  have keep: "foldM (\<lambda>i l. do { e \<leftarrow> aget ex i; Some (if e = 1 then i else l) }) xs n = Some n"
    if "\<forall>i \<in> set xs. 1 \<le> i \<and> i \<le> length S" for xs n
    using that
  proof (induction xs)
    case (Cons i xs)
    then have "1 \<le> i" "i \<le> length S" by simp_all
    moreover then have "2 \<le> ex ! i" using assms avail_one[of S i] by simp
    ultimately show ?case using Cons assms(2) by simp
  qed simp
  have "ex ! Suc (length S) = 1" using assms(3) avail_top[of S] by simp
  then show ?thesis
    using assms(2) keep[of "rev [1..<Suc (length S)]"] by (simp add: truncate_levels_def del: upt_Suc add: upt_Suc_append)
qed

lemma greedy_init_ok:
  assumes "hardware g ids as root" "length as < fuel"
  shows "wp (libmapping_mapping_algorithm_greedy_init fuel junk alloc_0 alloc_1 cfg g root (prod_list as)) (\<lambda>st.
    levels_n st = length (shared as) + 1 \<and> length (exec_el_in_level st) = length (shared as) + 2 \<and>
    (\<forall>i. 1 \<le> i \<and> i < length (shared as) + 2 \<longrightarrow> exec_el_in_level st ! i = avail (shared as) i) \<and>
    arities st = 1 # 1 # rev (shared as) \<and>
    groups st = replicate (length (shared as) + 1) (replicate MAX_THREADS (fst junk)) \<and>
    matrix_0 st = libmapping_comm_matrix_init alloc_0 (word_of_int (max_threads cfg)) \<and>
    matrix_1 st = libmapping_comm_matrix_init alloc_1 (word_of_int (max_threads cfg)) \<and>
    length (winners st) = MAX_THREADS \<and> length (chosen st) = MAX_THREADS)"
proof -
  let ?S = "shared as"
  have S: "\<forall>a \<in> set ?S. 2 \<le> a" by (simp add: shared_def)
  have P: "prod_list as = prod_list ?S" using assms(1) by (simp add: prod_shared hardware_def)
  obtain ex where ex: "foldM (\<lambda>i ex. do {
         above \<leftarrow> aget ex (i - 1);
         a \<leftarrow> aget (1 # 1 # rev ?S) i;
         if a = 0 then None else aput ex i (above div a)
       }) [1..<length ?S + 2] ((replicate (length ?S + 2) (snd junk))[0 := prod_list as]) = Some ex"
    "length ex = length ?S + 2" "\<forall>i. 1 \<le> i \<and> i < length ?S + 2 \<longrightarrow> ex ! i = avail ?S i"
    using exec_loop[OF S, of "snd junk"] unfolding P wp_iff by blast
  have tr: "truncate_levels ex (length ?S + 2) = Some (length ?S + 1)" by (rule truncate_ok[OF S ex(2,3)])
  have pos: "length ?S + 2 - 1 = length ?S + 1" by simp
  show ?thesis
    unfolding libmapping_mapping_algorithm_greedy_init_def detect_levels_ok[OF assms] Option.bind.bind_lunit prod.case
      pos detect_arities_ok[OF assms] ex(1) tr
    using ex(2,3) by simp
qed

section \<open>Laying a group over a tree\<close>

text \<open>
  The threads of \<open>T\<close>, and no others, got one of the \<open>K\<close> processing units whose ids are \<open>ids n\<close>,
  \<open>ids (n + 1)\<close> and so on; no unit got more than \<open>c\<close> of them.
\<close>

definition placed :: "(nat \<Rightarrow> u32) \<Rightarrow> nat \<Rightarrow> nat \<Rightarrow> nat \<Rightarrow> nat set \<Rightarrow> u32 list \<Rightarrow> u32 list \<Rightarrow> bool" where
  "placed ids n K c T mp mp' \<longleftrightarrow> length mp' = length mp \<and> (\<forall>t. t \<notin> T \<longrightarrow> mp' ! t = mp ! t) \<and>
     (\<exists>pl. (\<forall>t \<in> T. pl t < K \<and> mp' ! t = ids (n + pl t)) \<and> (\<forall>k. card {t \<in> T. pl t = k} \<le> c))"

lemma placed_none: "placed ids n 0 c {} mp mp"
  by (simp add: placed_def)

lemma placed_append:
  assumes "placed ids n K c T mp mp1" "placed ids (n + K) L c U mp1 mp2" "T \<inter> U = {}"
  shows "placed ids n (K + L) c (T \<union> U) mp mp2"
proof -
  obtain pl where pl: "\<forall>t \<in> T. pl t < K \<and> mp1 ! t = ids (n + pl t)" "\<forall>k. card {t \<in> T. pl t = k} \<le> c"
    using assms(1) by (auto simp: placed_def)
  obtain ql where ql: "\<forall>t \<in> U. ql t < L \<and> mp2 ! t = ids (n + K + ql t)" "\<forall>k. card {t \<in> U. ql t = k} \<le> c"
    using assms(2) by (auto simp: placed_def)
  define rl where "rl = (\<lambda>t. if t \<in> T then pl t else K + ql t)"
  have other: "mp2 ! t = mp1 ! t" if "t \<notin> U" for t using assms(2) that by (simp add: placed_def)
  have "rl t < K + L \<and> mp2 ! t = ids (n + rl t)" if t: "t \<in> T \<union> U" for t
  proof (cases "t \<in> T")
    case True
    then have "t \<notin> U" using assms(3) by blast
    with True pl(1) other show ?thesis by (simp add: rl_def trans_less_add1)
  next
    case False
    with t ql(1) show ?thesis by (simp add: rl_def add.assoc)
  qed
  moreover have "card {t \<in> T \<union> U. rl t = k} \<le> c" for k
  proof (cases "k < K")
    case True
    then have "{t \<in> T \<union> U. rl t = k} = {t \<in> T. pl t = k}" by (auto simp: rl_def)
    then show ?thesis using pl(2) by simp
  next
    case False
    have "{t \<in> T \<union> U. rl t = k} = {t \<in> U. ql t = k - K}"
      using False pl(1) assms(3) by (auto simp: rl_def split: if_splits)
    then show ?thesis using ql(2) by simp
  qed
  moreover have "length mp2 = length mp" "\<forall>t. t \<notin> T \<union> U \<longrightarrow> mp2 ! t = mp ! t"
    using assms(1,2) by (simp_all add: placed_def)
  ultimately show ?thesis unfolding placed_def by blast
qed

lemma placed_mono: "placed ids n K c T mp mp' \<Longrightarrow> K \<le> L \<Longrightarrow> placed ids n L c T mp mp'"
  unfolding placed_def by (blast intro: less_le_trans)

text \<open>The threads below a list of groups of a level, when \<open>pss l ! i\<close> are the elements of group \<open>i\<close> of level \<open>l\<close>.\<close>

fun threads :: "(nat \<Rightarrow> nat list list) \<Rightarrow> nat \<Rightarrow> nat list \<Rightarrow> nat list" where
  "threads pss 0 ps = ps"
| "threads pss (Suc l) ps = concat (map (\<lambda>p. threads pss l (pss (Suc l) ! p)) ps)"

text \<open>Every group has no more elements than the part of the tree it goes to has children.\<close>

fun fits :: "(nat \<Rightarrow> nat list list) \<Rightarrow> nat \<Rightarrow> nat list \<Rightarrow> nat list \<Rightarrow> bool" where
  "fits pss c [] ps \<longleftrightarrow> ps \<noteq> [] \<and> length ps \<le> c"
| "fits pss c (s # S) ps \<longleftrightarrow> ps \<noteq> [] \<and> length ps \<le> s \<and>
     (\<forall>p \<in> set ps. p < length (pss (Suc (length S))) \<and> fits pss c S (pss (Suc (length S)) ! p))"

lemma read_element_eq:
  "holds_elements level ps (g_elements grp) \<Longrightarrow> i < length ps \<Longrightarrow> get_group gs (level - 1, ps ! i) = Some y \<Longrightarrow>
    read_element gs grp i = Some y"
  by (simp add: read_element_def holds_elements_def group_at_get)

lemma map_to_pu_ok:
  assumes "holds_elements 1 ps (g_elements grp)" "g_nelements grp = length ps" "ps \<noteq> []" "distinct ps" "length ps \<le> c"
    and "\<forall>p \<in> set ps. p < length mp \<and> (\<exists>x. get_group gs (0, p) = Some x \<and> g_id x = p)"
  shows "wp (map_to_pu gs x grp mp) (placed (\<lambda>i. v_id x) n 1 c (set ps) mp)"
proof -
  have el: "\<exists>y. read_element gs grp i = Some y \<and> g_id y = ps ! i" if i: "i < length ps" for i
  proof -
    have "ps ! i \<in> set ps" using i by simp
    then obtain y where "get_group gs (0, ps ! i) = Some y" "g_id y = ps ! i" using assms(6) by blast
    then show ?thesis using read_element_eq[OF assms(1) i, of gs y] by simp
  qed
  define I where "I = (\<lambda>i mp'. length mp' = length mp \<and> (\<forall>t. mp' ! t = (if t \<in> set (take i ps) then v_id x else mp ! t)))"
  have "wp (foldM (\<lambda>i mp. do { el \<leftarrow> read_element gs grp i; aput mp (g_id el) (v_id x) }) [0..<length ps] mp) (I (length ps))"
  proof (rule wp_for0[where I = I])
    fix i mp' assume i: "i < length ps" and I: "I i mp'"
    obtain y where "read_element gs grp i = Some y" "g_id y = ps ! i" using el[OF i] by blast
    moreover have "ps ! i < length mp" using assms(6) i by simp
    ultimately show "wp (do { el \<leftarrow> read_element gs grp i; aput mp' (g_id el) (v_id x) }) (I (Suc i))"
      using I i by (auto simp: I_def nth_list_update take_Suc_conv_app_nth)
  qed (simp add: I_def)
  then obtain mp' where run: "foldM (\<lambda>i mp. do { el \<leftarrow> read_element gs grp i; aput mp (g_id el) (v_id x) }) [0..<length ps] mp = Some mp'"
    and I: "I (length ps) mp'" by (auto elim!: wpE)
  have "card {t \<in> set ps. 0 = k} \<le> c" for k :: nat
    using assms(4,5) distinct_card[OF assms(4)] by (cases k) auto
  then have "placed (\<lambda>i. v_id x) n 1 c (set ps) mp mp'"
    using I unfolding placed_def by (intro conjI exI[of _ "\<lambda>t. 0"]) (auto simp: I_def)
  moreover obtain y where "read_element gs grp 0 = Some y" using el[of 0] assms(3) by auto
  ultimately show ?thesis using run assms(2) by (simp add: map_to_pu_def)
qed

lemma threads_append: "threads pss l (ps @ qs) = threads pss l ps @ threads pss l qs"
  by (cases l) simp_all

lemma map_groups_ok:
  assumes gs: "\<And>l. 1 \<le> l \<Longrightarrow> l \<le> length (shared as) \<Longrightarrow> grouped gs l (pss l)"
      "\<And>t. t < N \<Longrightarrow> \<exists>x. get_group gs (0, t) = Some x \<and> g_id x = t"
    and tree: "represents g par as u" "hw_typed g ids par as u n" "\<And>p. par = Some p \<Longrightarrow> p < u"
      "\<forall>a \<in> set as. 0 < a" "length as < fuel"
    and grp: "holds_elements (Suc (length (shared as))) ps (g_elements grp)" "g_nelements grp = length ps"
      "fits pss c (shared as) ps" "distinct (threads pss (length (shared as)) ps)"
      "\<forall>t \<in> set (threads pss (length (shared as)) ps). t < N"
    and mp: "N \<le> length mp"
  shows "wp (map_groups_to_topology_rec fuel g gs u par grp mp)
    (placed ids n (prod_list as) c (set (threads pss (length (shared as)) ps)) mp)"
  using gs(1) tree grp mp
proof (induction as arbitrary: par u n fuel ps grp mp)
  case Nil
  obtain f where f: "fuel = Suc f" using Nil.prems(6) by (cases fuel) auto
  note leaf = hw_leaf[OF Nil.prems(2,3)]
  have "wp (map_to_pu gs (vertices g ! u) grp mp) (placed (\<lambda>i. v_id (vertices g ! u)) n 1 c (set ps) mp)"
    using Nil.prems(7-12) gs(2) by (intro map_to_pu_ok) (auto intro: less_le_trans)
  then have "wp (map_to_pu gs (vertices g ! u) grp mp) (placed ids n 1 c (set ps) mp)"
    by (rule wp_mono) (simp add: placed_def leaf(3), metis add.right_neutral less_one)
  then show ?case using leaf unfolding f by simp
next
  case (Cons a as)
  obtain f where f: "fuel = Suc f" using Cons.prems(6) by (cases fuel) auto
  note v = hw_vertex[OF Cons.prems(2,3)]
  let ?S = "shared as" and ?Q = "prod_list as"
  have sub: "represents g (Some u) as (Suc u + j * tree_size as)" "hw_typed g ids (Some u) as (Suc u + j * tree_size as) (n + j * ?Q)"
    "Some (Suc u + j * tree_size as) \<noteq> par" if "j < a" for j
    using Cons.prems(2,4) hw_typed_child[OF Cons.prems(3) that] that by (auto simp: not_less)
  have pos: "\<forall>a \<in> set as. 0 < a" "length as < f" using Cons.prems(5,6) f by simp_all
  show ?case
  proof (cases "2 \<le> a")
    case False
    then have a: "a = 1" using Cons.prems(5) by (simp add: not_le)
    obtain e where slot: "read_slot (vertices g ! u) 0 = Some (e, Suc u)" using v(6)[of 0] a by auto
    have "wp (map_groups_to_topology_rec f g gs (Suc u) (Some u) grp mp) (placed ids n ?Q c (set (threads pss (length ?S) ps)) mp)"
    proof (rule Cons.IH)
      show "represents g (Some u) as (Suc u)" "hw_typed g ids (Some u) as (Suc u) n" using sub[of 0] a by simp_all
    qed (use Cons.prems False pos in simp_all)
    moreover have "Some (Suc u) \<noteq> par" using sub(3)[of 0] a by simp
    ultimately show ?thesis using v a slot unfolding f by simp
  next
    case True
    then have S: "shared (a # as) = a # ?S" by simp
    define T where "T i = set (threads pss (Suc (length ?S)) (take i ps))" for i
    let ?kid = "\<lambda>i. threads pss (length ?S) (pss (Suc (length ?S)) ! (ps ! i))"
    have fit: "ps \<noteq> []" "length ps \<le> a" "\<forall>p \<in> set ps. p < length (pss (Suc (length ?S))) \<and> fits pss c ?S (pss (Suc (length ?S)) ! p)"
      using Cons.prems(9) unfolding S by simp_all
    have el: "holds_elements (Suc (Suc (length ?S))) ps (g_elements grp)" "g_nelements grp = length ps"
      and dist: "distinct (threads pss (Suc (length ?S)) ps)" and bound: "\<forall>t \<in> set (threads pss (Suc (length ?S)) ps). t < N"
      using Cons.prems(7,8,10,11) unfolding S by simp_all
    define I where "I = (\<lambda>i mp'. placed ids n (i * ?Q) c (T i) mp mp')"
    define body where "body = (\<lambda>i mp. do {
         (e, w) \<leftarrow> read_slot (vertices g ! u) i;
         if Some w \<noteq> par then do {
           el \<leftarrow> read_element gs grp i;
           map_groups_to_topology_rec f g gs w (Some u) el mp
         } else Some mp
       })"
    have "wp (foldM body [0..<length ps] mp) (I (length ps))"
    proof (rule wp_for0[where I = I])
      show "I 0 mp" by (simp add: I_def T_def placed_none)
      fix i mp' assume i: "i < length ps" and I: "I i mp'"
      then have ia: "i < a" using fit(2) by simp
      obtain e where slot: "read_slot (vertices g ! u) i = Some (e, Suc u + i * tree_size as)" using v(6)[OF ia] by blast
      have p: "ps ! i < length (pss (Suc (length ?S)))" "fits pss c ?S (pss (Suc (length ?S)) ! (ps ! i))" using fit(3) i by simp_all
      have "grouped gs (Suc (length ?S)) (pss (Suc (length ?S)))" using Cons.prems(1)[of "Suc (length ?S)"] S by simp
      then obtain x where x: "get_group gs (Suc (length ?S), ps ! i) = Some x"
        "group_is (Suc (length ?S)) (ps ! i) (pss (Suc (length ?S)) ! (ps ! i)) x"
        using p(1) unfolding grouped_def by blast
      have split: "threads pss (Suc (length ?S)) ps =
          threads pss (Suc (length ?S)) (take i ps) @ ?kid i @ threads pss (Suc (length ?S)) (drop (Suc i) ps)"
        using arg_cong[OF id_take_nth_drop[OF i], of "threads pss (Suc (length ?S))"]
        by (simp only: threads_append) simp
      have "wp (map_groups_to_topology_rec f g gs (Suc u + i * tree_size as) (Some u) x mp')
          (placed ids (n + i * ?Q) ?Q c (set (?kid i)) mp')"
      proof (rule Cons.IH)
        show "grouped gs l (pss l)" if "1 \<le> l" "l \<le> length ?S" for l using Cons.prems(1)[of l] that S by simp
        show "holds_elements (Suc (length ?S)) (pss (Suc (length ?S)) ! (ps ! i)) (g_elements x)"
          "g_nelements x = length (pss (Suc (length ?S)) ! (ps ! i))" using x(2) by (simp_all add: group_is_def)
        show "distinct (?kid i)" "\<forall>t \<in> set (?kid i). t < N" using dist bound unfolding split by simp_all
        show "N \<le> length mp'" using Cons.prems(12) I by (simp add: I_def placed_def)
        show "p < Suc u + i * tree_size as" if "Some u = Some p" for p using that by simp
      qed (use sub[OF ia] pos p in simp_all)
      moreover have "T i \<inter> set (?kid i) = {}" using dist unfolding split T_def by auto
      moreover have "T (Suc i) = T i \<union> set (?kid i)"
        using i unfolding T_def by (simp add: take_Suc_conv_app_nth)
      ultimately have "wp (map_groups_to_topology_rec f g gs (Suc u + i * tree_size as) (Some u) x mp') (I (Suc i))"
        using I unfolding I_def by (auto elim!: wp_mono simp: add.commute[of ?Q] intro: placed_append)
      then show "wp (body i mp') (I (Suc i))"
        using slot sub(3)[OF ia] x(1) read_element_eq[OF el(1) i, of gs x] by (simp add: body_def)
    qed
    then have "wp (foldM body [0..<length ps] mp) (placed ids n (prod_list (a # as)) c (set (threads pss (length (shared (a # as))) ps)) mp)"
    proof (rule wp_mono)
      fix mp' assume "I (length ps) mp'"
      then have "placed ids n (length ps * ?Q) c (set (threads pss (length (shared (a # as))) ps)) mp mp'"
        unfolding S by (simp add: I_def T_def)
      then show "placed ids n (prod_list (a # as)) c (set (threads pss (length (shared (a # as))) ps)) mp mp'"
        by (rule placed_mono) (use fit(2) in simp)
    qed
    then show ?thesis using v True el(2) unfolding f body_def by simp
  qed
qed

section \<open>How many groups there are at each level\<close>

definition size_at :: "nat list \<Rightarrow> nat \<Rightarrow> nat \<Rightarrow> nat" where
  "size_at S nt l = (if l = 0 then nt else min nt (avail S l))"

lemma avail_pos: "\<forall>a \<in> set S. 2 \<le> a \<Longrightarrow> 0 < l \<Longrightarrow> l \<le> Suc (length S) \<Longrightarrow> 0 < avail S l"
  using avail_one[of S l] avail_top[of S] by (cases "l = Suc (length S)") (simp_all add: Suc_le_eq)

lemma size_at_pos: "\<forall>a \<in> set S. 2 \<le> a \<Longrightarrow> 0 < nt \<Longrightarrow> l \<le> Suc (length S) \<Longrightarrow> 0 < size_at S nt l"
  using avail_pos[of S l] by (simp add: size_at_def)

lemma size_at_le: "size_at S nt l \<le> nt"
  by (simp add: size_at_def)

lemma shared_child: "\<forall>a \<in> set S. 2 \<le> a \<Longrightarrow> 0 < l \<Longrightarrow> l \<le> length S \<Longrightarrow> 1 \<le> (S :: nat list) ! (length S - l)"
proof -
  assume "\<forall>a \<in> set S. 2 \<le> a" "0 < l" "l \<le> length S"
  then have "2 \<le> S ! (length S - l)" by simp
  then show ?thesis by simp
qed

lemma size_at_step:
  assumes "\<forall>a \<in> set S. 2 \<le> a" "l \<le> length S"
  shows "min (size_at S nt l) (avail S (Suc l)) = size_at S nt (Suc l)"
proof (cases "l = 0")
  case False
  then have "avail S l = avail S (Suc l) * S ! (length S - l)" "1 \<le> S ! (length S - l)"
    using avail_step[of l S] shared_child[OF assms(1) _ assms(2)] assms(2) by simp_all
  then have "avail S (Suc l) * 1 \<le> avail S l" by (metis mult_le_mono2)
  then show ?thesis using False by (simp add: size_at_def)
qed (simp add: size_at_def)

lemma ceil_div_le:
  assumes "n \<le> k * s" "0 < k"
  shows "ceil_div n k \<le> s"
proof (cases "n mod k = 0")
  case True
  have "n div k \<le> (k * s) div k" using assms(1) by (rule div_le_mono)
  with True assms(2) show ?thesis by (simp add: ceil_div_def)
next
  case False
  have "k * (n div k) + n mod k \<le> k * s" using assms(1) by simp
  then have "k * (n div k) < k * s" using False by linarith
  then have "n div k < s" by simp
  with False show ?thesis by (simp add: ceil_div_def)
qed

lemma le_ceil_div: "0 < k \<Longrightarrow> n \<le> k * ceil_div n k"
proof -
  assume k: "0 < k"
  have "k * (n div k) + n mod k = n" "n mod k < k" using k by simp_all
  then have "n mod k = 0 \<Longrightarrow> n = k * (n div k)" "n \<le> k * (n div k) + k" by linarith+
  then show ?thesis by (auto simp: ceil_div_def algebra_simps)
qed

lemma group_sizes:
  assumes S: "\<forall>a \<in> set S. 2 \<le> a" and nt: "0 < nt" and l: "l \<le> length S" and c: "c = ceil_div nt (prod_list S)"
  shows "ceil_div (size_at S nt l) (size_at S nt (Suc l)) \<le> (if l = 0 then c else S ! (length S - l))"
proof (rule ceil_div_le)
  show pos: "0 < size_at S nt (Suc l)" using size_at_pos[OF S nt] l by simp
  show "size_at S nt l \<le> size_at S nt (Suc l) * (if l = 0 then c else S ! (length S - l))"
  proof (cases "l = 0")
    case True
    have P: "avail S (Suc 0) = prod_list S" by (simp add: avail_def)
    have P0: "0 < prod_list S" using avail_pos[OF S, of 1] P by simp
    from le_ceil_div[OF this, of nt] have le: "nt \<le> prod_list S * c" by (simp add: c)
    then have "0 < c" using nt by (cases c) auto
    then have "nt * 1 \<le> nt * c" by (intro mult_le_mono2) simp
    with le True P show ?thesis by (simp add: size_at_def min_def)
  next
    case False
    have "1 \<le> S ! (length S - l)" using shared_child[OF S _ l] False by simp
    then have "nt * 1 \<le> nt * S ! (length S - l)" by (intro mult_le_mono2)
    then have "min nt (A * S ! (length S - l)) \<le> min nt A * S ! (length S - l)" for A
      by (cases "nt \<le> A") (auto simp only: min_def mult_1_right if_True if_False intro: order_trans split: if_splits)
    with avail_step[of l S] False l show ?thesis by (simp add: size_at_def)
  qed
qed

text \<open>The partitions of the levels.\<close>

definition layered :: "nat list \<Rightarrow> nat \<Rightarrow> nat \<Rightarrow> (nat \<Rightarrow> nat list list) \<Rightarrow> bool" where
  "layered S nt n pss \<longleftrightarrow> (\<forall>l < n. balanced_partition (size_at S nt l) (size_at S nt (Suc l)) (pss (Suc l)))"

lemma balanced_members:
  assumes "balanced_partition n k pss" "p < k"
  shows "pss ! p \<noteq> []" "length (pss ! p) \<le> ceil_div n k" "\<forall>q \<in> set (pss ! p). q < n"
proof -
  have mem: "pss ! p \<in> set pss" using assms by (simp add: balanced_partition_def)
  then show "pss ! p \<noteq> []" "length (pss ! p) \<le> ceil_div n k" using assms(1) by (simp_all add: balanced_partition_def)
  have "set (concat pss) = {0..<n}"
    using assms(1) by (metis balanced_partition_def set_mset_mset set_upt)
  with mem show "\<forall>q \<in> set (pss ! p). q < n" by auto
qed

lemma layered_fits:
  assumes S: "\<forall>a \<in> set S. 2 \<le> a" and nt: "0 < nt" and c: "c = ceil_div nt (prod_list S)"
    and pss: "layered S nt (length S) pss"
  shows "l \<le> length S \<Longrightarrow> ps \<noteq> [] \<Longrightarrow> \<forall>p \<in> set ps. p < size_at S nt l \<Longrightarrow>
    length ps \<le> (if l = 0 then c else S ! (length S - l)) \<Longrightarrow> fits pss c (drop (length S - l) S) ps"
proof (induction l arbitrary: ps)
  case 0
  then show ?case by simp
next
  case (Suc l)
  have "drop (length S - Suc l) S = S ! (length S - Suc l) # drop (Suc (length S - Suc l)) S"
    using Suc.prems(1) by (intro Cons_nth_drop_Suc[symmetric]) simp
  moreover have "Suc (length S - Suc l) = length S - l" using Suc.prems(1) by simp
  ultimately have drop: "drop (length S - Suc l) S = S ! (length S - Suc l) # drop (length S - l) S" by simp
  have len: "length (drop (length S - l) S) = l" using Suc.prems(1) by simp
  have bp: "balanced_partition (size_at S nt l) (size_at S nt (Suc l)) (pss (Suc l))"
    using pss Suc.prems(1) by (simp add: layered_def)
  have "p < length (pss (Suc l)) \<and> fits pss c (drop (length S - l) S) (pss (Suc l) ! p)" if "p \<in> set ps" for p
  proof
    have p: "p < size_at S nt (Suc l)" using Suc.prems(3) that by blast
    then show "p < length (pss (Suc l))" using bp by (simp add: balanced_partition_def)
    note mem = balanced_members[OF bp p]
    show "fits pss c (drop (length S - l) S) (pss (Suc l) ! p)"
    proof (rule Suc.IH[OF _ mem(1,3)])
      show "length (pss (Suc l) ! p) \<le> (if l = 0 then c else S ! (length S - l))"
        using mem(2) group_sizes[OF S nt _ c, of l] Suc.prems(1) by simp
    qed (use Suc.prems(1) in simp)
  qed
  with Suc.prems(2,4) show ?case unfolding drop fits.simps len by simp
qed

lemma threads_mset: "mset (threads pss l ps) = (\<Sum>p \<in># mset ps. mset (threads pss l [p]))"
proof (induction ps)
  case (Cons p ps)
  then show ?case using threads_append[of pss l "[p]" ps] by simp
qed (cases l; simp)

lemma layered_threads:
  assumes "layered S nt n pss"
  shows "l \<le> n \<Longrightarrow> mset (threads pss l [0..<size_at S nt l]) = mset [0..<nt]"
proof (induction l)
  case 0
  then show ?case by (simp add: size_at_def)
next
  case (Suc l)
  have bp: "balanced_partition (size_at S nt l) (size_at S nt (Suc l)) (pss (Suc l))"
    using assms Suc.prems by (simp add: layered_def)
  have cat: "threads pss (Suc l) ps = threads pss l (concat (map (\<lambda>p. pss (Suc l) ! p) ps))" for ps
    by (induction ps) (use threads_append in \<open>auto, cases l, auto\<close>)
  have "map (\<lambda>p. pss (Suc l) ! p) [0..<size_at S nt (Suc l)] = pss (Suc l)"
    using bp map_nth[of "pss (Suc l)"] by (simp add: balanced_partition_def)
  then have "mset (threads pss (Suc l) [0..<size_at S nt (Suc l)]) = mset (threads pss l (concat (pss (Suc l))))"
    by (simp only: cat)
  also have "\<dots> = mset (threads pss l [0..<size_at S nt l])"
    using bp by (subst (1 2) threads_mset) (simp add: balanced_partition_def)
  also have "\<dots> = mset [0..<nt]" using Suc by simp
  finally show ?case .
qed

section \<open>The whole algorithm\<close>

text \<open>What the initialisation sets up and every mapping keeps.\<close>

definition greedy_ready :: "int \<Rightarrow> nat list \<Rightarrow> greedy_t \<Rightarrow> bool" where
  "greedy_ready bits S st \<longleftrightarrow> greedy_wf st \<and> levels_n st = Suc (length S) \<and> length (groups st) = Suc (length S) \<and>
     length (exec_el_in_level st) = length S + 2 \<and>
     (\<forall>i. 1 \<le> i \<and> i < length S + 2 \<longrightarrow> exec_el_in_level st ! i = avail S i) \<and>
     matrix_wf bits (matrix_0 st) \<and> matrix_wf bits (matrix_1 st)"

lemma init_threads_ok:
  assumes "greedy_ready bits S st" "nt \<le> MAX_THREADS"
  shows "wp (init_threads nt st) (\<lambda>st'. greedy_ready bits S st' \<and> has_ids (groups st') 0 nt)"
proof -
  define body where "body = (\<lambda>i gs. do {
       grp \<leftarrow> group_at gs (0, i);
       put_group gs (0, i) (grp\<lparr>g_type := GROUP_TYPE_THREAD, g_id := i, g_nelements := 0\<rparr>)
     })"
  define I where "I = (\<lambda>i gs. groups_wf gs \<and> length gs = Suc (length S) \<and> has_ids gs 0 i)"
  have "wp (foldM body [0..<nt] (groups st)) (I nt)"
  proof (rule wp_for0[where I = I])
    show "I 0 (groups st)" using assms(1) by (simp add: I_def greedy_ready_def greedy_wf_def has_ids_def)
    fix i gs assume i: "i < nt" and I: "I i gs"
    from I have gs: "groups_wf gs" "0 < length gs" "i < MAX_THREADS" using i assms(2) by (simp_all add: I_def)
    obtain grp where grp: "get_group gs (0, i) = Some grp" "length (g_elements grp) = MAX_THREADS"
      using get_group_some[OF gs] by blast
    let ?grp = "grp\<lparr>g_type := GROUP_TYPE_THREAD, g_id := i, g_nelements := 0\<rparr>"
    have "length (g_elements ?grp) = MAX_THREADS" using grp(2) by simp
    from put_group_ok[OF gs this] obtain gs' where put: "put_group gs (0, i) ?grp = Some gs'"
      "groups_wf gs'" "length gs' = length gs" "\<forall>q. get_group gs' q = (if q = (0, i) then Some ?grp else get_group gs q)"
      by blast
    then have "I (Suc i) gs'" using I by (auto simp: I_def has_ids_def less_Suc_eq)
    with group_at_get[OF grp(1)] put(1) show "wp (body i gs) (I (Suc i))" by (simp add: body_def)
  qed
  then show ?thesis
    unfolding init_threads_def body_def[symmetric]
    by (auto elim!: wp_mono simp: I_def) (use assms(1) in \<open>simp add: greedy_ready_def greedy_wf_def\<close>)
qed

lemma grouped_ids: "grouped gs l pss \<Longrightarrow> has_ids gs l (length pss)"
  unfolding grouped_def has_ids_def group_is_def by blast

lemma grouped_other:
  "grouped gs l pss \<Longrightarrow> (\<forall>q. fst q = l \<longrightarrow> get_group gs' q = get_group gs q) \<Longrightarrow> grouped gs' l pss"
  unfolding grouped_def by simp

text \<open>The state between the levels, when those below \<open>i\<close> are done.\<close>

definition levels_done :: "int \<Rightarrow> nat list \<Rightarrow> nat \<Rightarrow> nat \<Rightarrow> greedy_t \<times> nat \<times> matrix_ref \<times> nat \<Rightarrow> bool" where
  "levels_done bits S nt i s \<longleftrightarrow> (case s of (st, ne, m, matrix_i) \<Rightarrow>
     greedy_ready bits S st \<and> ne = size_at S nt (i - 1) \<and> has_ids (groups st) 0 nt \<and>
     (\<exists>pss. layered S nt (i - 1) pss \<and> (\<forall>l. 1 \<le> l \<and> l < i \<longrightarrow> grouped (groups st) l (pss l))))"

lemma greedy_level_ok:
  assumes S: "\<forall>a \<in> set S. 2 \<le> a" and m_init: "matrix_wf bits m_init" "int nt \<le> dim_int bits"
    and nt: "0 < nt" "nt \<le> MAX_THREADS" and i: "1 \<le> i" "i \<le> length S"
    and st: "levels_done bits S nt i s"
  shows "wp (greedy_level bits m_init i s) (levels_done bits S nt (Suc i))"
proof -
  obtain st ne m mi where s: "s = (st, ne, m, mi)" by (cases s)
  obtain l where l: "i = Suc l" "l \<le> length S" using i by (cases i) auto
  from st obtain pss where ready: "greedy_ready bits S st" and ne: "ne = size_at S nt l" and ids: "has_ids (groups st) 0 nt"
    and pss: "layered S nt l pss" "\<forall>k. 1 \<le> k \<and> k < i \<longrightarrow> grouped (groups st) k (pss k)"
    unfolding levels_done_def s l by auto
  let ?m = "read_matrix m_init st m" and ?n = "size_at S nt l" and ?ng = "size_at S nt (Suc l)"
  have m: "matrix_wf bits ?m" using ready m_init(1) by (cases m) (simp_all add: read_matrix_def greedy_ready_def)
  have bounds: "int ?n \<le> dim_int bits" "?n \<le> MAX_THREADS" "0 < ?n" "int ?ng \<le> dim_int bits"
    using m_init(2) nt size_at_le[of S nt] size_at_pos[OF S nt(1), of l] l by (auto intro: order_trans[rotated])
  have ex: "i < length (exec_el_in_level st)" "exec_el_in_level st ! i = avail S i" "i < length (groups st)" "greedy_wf st"
    using ready i by (simp_all add: greedy_ready_def)
  have ex_pos: "0 < exec_el_in_level st ! i" using ex(2) avail_pos[OF S, of i] i by simp
  obtain ng st1 ws ch gs ps where gen: "generate_groups bits ?m ne i st = Some (ng, st1)"
    and ng: "ng = min ?n (exec_el_in_level st ! i)" and wf1: "greedy_wf st1"
    and st1: "st1 = st\<lparr>winners := ws, chosen := ch, groups := gs\<rparr>" "length gs = length (groups st)"
    and ps: "balanced_partition ?n ng ps" "grouped (groups st1) i ps"
    and same: "\<forall>q. fst q \<noteq> i \<longrightarrow> get_group (groups st1) q = get_group (groups st) q"
    using generate_groups_ok[OF m bounds(1,3,2) ex(4,3,1) ex_pos] unfolding ne wp_iff split_paired_Ex prod.case by blast
  have ng': "ng = ?ng" using ng ex(2) size_at_step[OF S l(2)] l(1) by simp
  have len: "length ps = ?ng" using ps(1) ng' by (simp add: balanced_partition_def)
  have ready1: "greedy_ready bits S st1" using ready wf1 st1 by (simp add: greedy_ready_def)
  have ids1: "has_ids (groups st1) 0 nt" using ids same i(1) by (simp add: has_ids_def)
  define pss' where "pss' = pss(i := ps)"
  have lay: "layered S nt i pss'"
    using pss(1) ps(1) ng' unfolding layered_def pss'_def l by (auto simp: less_Suc_eq)
  have grp: "grouped (groups st1) k (pss' k)" if "1 \<le> k" "k < Suc i" for k
  proof (cases "k = i")
    case False
    then have "grouped (groups st) k (pss k)" using pss(2) that by simp
    then have "grouped (groups st1) k (pss k)" by (rule grouped_other) (use same False in auto)
    with False show ?thesis by (simp add: pss'_def)
  qed (use ps(2) in \<open>simp add: pss'_def\<close>)
  have fin: "levels_done bits S nt (Suc i) (st2, ng, m', mi')"
    if "greedy_ready bits S st2" "groups st2 = groups st1" for st2 m' mi'
    using that ids1 lay grp ng' unfolding levels_done_def l by auto
  let ?m' = "if mi = 0 then M_0 else M_1"
  show ?thesis
  proof (cases "i < levels_n st1 - 1")
    case False
    then show ?thesis
      unfolding greedy_level_def s prod.case gen Option.bind.bind_lunit by (simp add: fin[OF ready1])
  next
    case True
    have "has_ids (groups st1) l ?n"
    proof (cases "l = 0")
      case True
      then show ?thesis using ids1 by (simp add: size_at_def)
    next
      case False
      have lm: "l - 1 < l" "Suc (l - 1) = l" using False by simp_all
      then have "length (pss l) = ?n" using pss(1) unfolding layered_def by (metis balanced_partition_def)
      moreover have "pss' l = pss l" using l(1) by (simp add: pss'_def)
      moreover have "grouped (groups st1) l (pss' l)" using grp[of l] False l(1) by simp
      ultimately show ?thesis using grouped_ids by metis
    qed
    then have idl: "has_ids (groups st1) (i - 1) ?n" using l(1) by simp
    have mem: "\<forall>p \<in> set (concat ps). p < ?n" using ps(1) by (metis atLeastLessThan_iff balanced_partition_def set_mset_mset set_upt)
    have new: "matrix_wf bits (read_matrix m_init st1 ?m')" "int (length ps) \<le> dim_int bits"
      using ready1 len bounds(4) by (auto simp: read_matrix_def greedy_ready_def)
    have old: "matrix_wf bits (read_matrix m_init st1 m)" using m st1(1) by (cases m) (simp_all add: read_matrix_def)
    obtain r where r: "recreate_matrix bits (read_matrix m_init st1 m) (groups st1) i ng (read_matrix m_init st1 ?m') = Some r"
      "matrix_wf bits r"
      using recreate_matrix_ok[OF old bounds(1) idl ps(2) mem new] unfolding len ng' wp_iff by blast
    have "greedy_ready bits S (write_matrix st1 mi r)" "groups (write_matrix st1 mi r) = groups st1"
      using ready1 r(2) by (simp_all add: write_matrix_def greedy_ready_def greedy_wf_def)
    then show ?thesis
      unfolding greedy_level_def s prod.case gen Option.bind.bind_lunit Let_def using True r(1) by (simp add: fin)
  qed
qed

lemma greedy_map_ok:
  assumes hw: "hardware g ids as root" "length as < fuel"
    and m: "matrix_wf bits m" "int (nthreads m) \<le> dim_int bits" "0 < nthreads m" "nthreads m \<le> MAX_THREADS"
    and bits: "bits = max_threads_bits cfg"
    and st: "greedy_ready bits (shared as) st" and mp: "nthreads m \<le> length mp"
  shows "wp (libmapping_mapping_algorithm_greedy_map fuel cfg g root m st mp) (\<lambda>(st', mp').
    greedy_ready bits (shared as) st' \<and>
    placed ids 0 (prod_list as) (ceil_div (nthreads m) (prod_list as)) {..<nthreads m} mp mp')"
proof -
  let ?S = "shared as" and ?nt = "nthreads m"
  have S: "\<forall>a \<in> set ?S. 2 \<le> a" by (simp add: shared_def)
  have as: "\<forall>a \<in> set as. 0 < a" "represents g None as root" "hw_typed g ids None as root 0"
    using hw(1) by (simp_all add: hardware_def)
  have P: "prod_list ?S = prod_list as" by (rule prod_shared[OF as(1)])
  let ?c = "ceil_div ?nt (prod_list as)"
  obtain st1 where st1: "init_threads ?nt st = Some st1" "greedy_ready bits ?S st1" "has_ids (groups st1) 0 ?nt"
    using init_threads_ok[OF st m(4)] by (auto elim!: wpE)
  have n1: "levels_n st1 = Suc (length ?S)" using st1(2) by (simp add: greedy_ready_def)
  have "levels_done bits ?S ?nt 1 (st1, ?nt, M_init, 0)"
    using st1 by (simp add: levels_done_def size_at_def layered_def)
  then have "wp (foldM (greedy_level bits m) [1..<Suc (length ?S)] (st1, ?nt, M_init, 0)) (levels_done bits ?S ?nt (Suc (length ?S)))"
    by (rule wp_for[rotated]) (use greedy_level_ok[OF S m] in auto)
  then obtain st2 ne m2 mi2 where loop: "foldM (greedy_level bits m) [1..<Suc (length ?S)] (st1, ?nt, M_init, 0) = Some (st2, ne, m2, mi2)"
    and fin: "levels_done bits ?S ?nt (Suc (length ?S)) (st2, ne, m2, mi2)"
    unfolding wp_iff split_paired_Ex by blast
  from fin obtain pss where ready: "greedy_ready bits ?S st2" and ne: "ne = size_at ?S ?nt (length ?S)"
    and ids: "has_ids (groups st2) 0 ?nt" and pss: "layered ?S ?nt (length ?S) pss"
      "\<forall>l. 1 \<le> l \<and> l < Suc (length ?S) \<longrightarrow> grouped (groups st2) l (pss l)"
    unfolding levels_done_def by auto
  have n2: "levels_n st2 = Suc (length ?S)" using ready by (simp add: greedy_ready_def)
  have ne_le: "ne \<le> MAX_THREADS" using ne size_at_le[of ?S ?nt] m(4) by (auto intro: order_trans)
  have ne_pos: "0 < ne" using size_at_pos[OF S m(3), of "length ?S"] ne by simp
  define els where "els = (\<lambda>i els. aput els i (Some (length ?S, i)))"
  define I where "I = (\<lambda>i es. length es = MAX_THREADS \<and> (\<forall>k < i. es ! k = Some (length ?S, k)))"
  have "wp (foldM els [0..<ne] (replicate MAX_THREADS None)) (I ne)"
    by (rule wp_for0[where I = I]) (use ne_le in \<open>auto simp: I_def els_def nth_list_update less_Suc_eq\<close>)
  then obtain es where es: "foldM els [0..<ne] (replicate MAX_THREADS None) = Some es" "I ne es" by (auto elim!: wpE)
  let ?grp = "\<lparr>g_type = GROUP_TYPE_GROUP, g_id = 0, g_nelements = ne, g_elements = es\<rparr>"
  have perm: "mset (threads pss (length ?S) [0..<ne]) = mset [0..<?nt]"
    unfolding ne by (rule layered_threads[OF pss(1)]) simp
  have dist: "distinct (threads pss (length ?S) [0..<ne])" using perm by (metis distinct_upt mset_eq_imp_distinct_iff)
  have all: "set (threads pss (length ?S) [0..<ne]) = {..<?nt}" using perm by (metis atLeast_upt set_mset_mset)
  have fits: "fits pss ?c ?S [0..<ne]"
  proof -
    have "length [0..<ne] \<le> (if length ?S = 0 then ?c else ?S ! (length ?S - length ?S))"
    proof (cases "length ?S = 0")
      case True
      then have "prod_list as = 1" using P by simp
      then show ?thesis using True ne by (simp add: ceil_div_def size_at_def)
    next
      case False
      then obtain s0 S' where S': "?S = s0 # S'" by (cases ?S) auto
      then show ?thesis using ne by (simp add: size_at_def avail_def)
    qed
    from layered_fits[OF S m(3) _ pss(1) _ _ _ this, unfolded P, OF refl] ne ne_pos show ?thesis by simp
  qed
  have "wp (map_groups_to_topology_rec fuel g (groups st2) root None ?grp mp)
      (placed ids 0 (prod_list as) ?c (set (threads pss (length ?S) [0..<ne])) mp)"
  proof (rule map_groups_ok[where N = ?nt])
    show "holds_elements (Suc (length ?S)) [0..<ne] (g_elements ?grp)"
      using es(2) ne_le by (simp add: I_def holds_elements_def)
    show "\<exists>x. get_group (groups st2) (0, t) = Some x \<and> g_id x = t" if "t < ?nt" for t
      using ids that by (simp add: has_ids_def)
  qed (use as hw(2) pss(2) fits dist all mp in auto)
  then obtain mp' where fin_map: "map_groups_to_topology_rec fuel g (groups st2) root None ?grp mp = Some mp'"
    and ok: "placed ids 0 (prod_list as) ?c {..<?nt} mp mp'"
    unfolding all wp_iff by blast
  show ?thesis
    unfolding libmapping_mapping_algorithm_greedy_map_def Let_def st1(1) Option.bind.bind_lunit n1 bits[symmetric] loop
      prod.case n2 diff_Suc_1 els_def[symmetric] es(1) map_groups_to_topology_def fin_map
    using ready ok by simp
qed

end
