(* ===== verification/Cdsm_Analysis.thy ===== *)
theory Cdsm_Analysis
  imports Cdsm_Floyd Cdsm_Mapping
begin

text \<open>
  The analysis of the topology, \<open>topology_analysis_\<close> in \<open>src/libmapping/topology.c\<close>: the numbers of processing
  units and levels, the arities and weights of the levels, the processing units in order and by NUMA node, and
  the distances. The analysis of an optimised topology copies some of them. The call of \<open>optimize_topology\<close> after the first analysis is never reached, because
  \<open>libmapping_topology_analysis\<close> returns before it.

  \<open>alloc\<close> is what \<open>lm_calloc\<close> returns for a number of words. The counter \<open>tmp.j\<close> is not initialised before the
  walk over the NUMA nodes; \<open>junk_j\<close> stands for it.
\<close>

unbundle bit_operations_syntax

section \<open>The routines of the walks\<close>

definition get_topology_attr_pu_number :: "graph_t \<Rightarrow> nat routine" where
  "get_topology_attr_pu_number g v from edge level n = do {
     x \<leftarrow> aget (vertices g) v;
     Some (True, if v_type x = GRAPH_ELTYPE_PU then n + 1 else n)
   }"

definition detect_n_levels :: "graph_t \<Rightarrow> nat routine" where
  "detect_n_levels g v from edge level n = do {
     x \<leftarrow> aget (vertices g) v;
     Some (v_type x \<noteq> GRAPH_ELTYPE_PU, n + 1)
   }"

definition get_topology_best_pus_number :: "graph_t \<Rightarrow> (u32 list \<times> nat) routine" where
  "get_topology_best_pus_number g v from edge level s = (case s of (bp, i) \<Rightarrow> do {
     x \<leftarrow> aget (vertices g) v;
     if v_type x = GRAPH_ELTYPE_PU then do { bp \<leftarrow> aput bp i (v_id x); Some (True, (bp, i + 1)) }
     else Some (True, (bp, i))
   })"

definition detect_arity_of_levels :: "graph_t \<Rightarrow> (u32 list \<times> nat) routine" where
  "detect_arity_of_levels g v from edge level s = (case s of (ars, i) \<Rightarrow> do {
     x \<leftarrow> aget (vertices g) v;
     ars \<leftarrow> aput ars i (if v_type x = GRAPH_ELTYPE_ROOT then of_nat (arity x) else of_nat (arity x) - 1);
     Some (v_type x \<noteq> GRAPH_ELTYPE_PU, (ars, i + 1))
   })"

definition detect_link_weight_of_levels :: "graph_t \<Rightarrow> (u32 list \<times> nat) routine" where
  "detect_link_weight_of_levels g v from edge level s = (case s of (lw, i) \<Rightarrow> do {
     x \<leftarrow> aget (vertices g) v;
     if v_type x = GRAPH_ELTYPE_ROOT then Some (True, (lw, i))
     else do {
       e \<leftarrow> edge;
       ed \<leftarrow> aget (edges g) e;
       lw \<leftarrow> aput lw i (word_of_int (e_weight ed));
       Some (v_type x \<noteq> GRAPH_ELTYPE_PU, (lw, i + 1))
     }
   })"

definition get_n_numa_nodes :: "graph_t \<Rightarrow> nat routine" where
  "get_n_numa_nodes g v from edge level n = do {
     x \<leftarrow> aget (vertices g) v;
     Some (True, if v_type x = GRAPH_ELTYPE_NUMA_NODE then n + 1 else n)
   }"

text \<open>
  \<open>pus\<close> has \<open>n_numa_nodes\<close> rows of \<open>n_pus_per_numa_node\<close> units, so an access outside of it is a failure of the assertion
  of the code, which ends the program outside of the module and has no result here; in the module it prints a
  message and the write goes on to another row or out of the array.
\<close>

definition get_pus_of_numa_nodes :: "graph_t \<Rightarrow> (u32 list list \<times> nat \<times> nat) routine" where
  "get_pus_of_numa_nodes g v from edge level s = (case s of (pus, i, j) \<Rightarrow> do {
     x \<leftarrow> aget (vertices g) v;
     if v_type x = GRAPH_ELTYPE_NUMA_NODE then Some (True, (pus, unat (v_id x), 0))
     else if v_type x = GRAPH_ELTYPE_PU then do {
       row \<leftarrow> aget pus i;
       row \<leftarrow> aput row j (v_id x);
       pus \<leftarrow> aput pus i row;
       Some (True, (pus, i, j + 1))
     } else Some (True, (pus, i, j))
   })"

section \<open>The analysis\<close>

record topology_t =
  t_graph :: graph_t
  t_root :: nat
  pu_number :: nat
  n_levels :: nat
  t_arities :: "u32 list"
  link_weights :: "u32 list"
  best_pus :: "u32 list"
  nobjs_per_level :: "u32 list"
  n_numa_nodes :: nat
  n_pus_per_numa_node :: nat
  pus_of_numa_node :: "u32 list list"
  pus_to_numa_node :: "u32 list"
  page_size :: u32
  page_shift :: u32
  page_addr_mask :: u64
  offset_addr_mask :: u64
  dist_pus_dim :: u32
  dist_pus_dim_log :: nat
  dist_pus :: "u32 list"

text \<open>\<open>nobjs_per_level\<close>, from the last level up.\<close>

definition count_objects :: "u32 list \<Rightarrow> nat \<Rightarrow> nat \<Rightarrow> u32 list \<Rightarrow> u32 list option" where
  "count_objects ars n pus nobjs = do {
     nobjs \<leftarrow> aput nobjs (n - 1) (of_nat pus);
     foldM (\<lambda>i nobjs. do {
       below \<leftarrow> aget nobjs (i + 1);
       a \<leftarrow> aget ars i;
       if a = 0 then None else aput nobjs i (below div a)
     }) (rev [0..<n - 1]) nobjs
   }"

text \<open>The processing units of every NUMA node: without one, a single node with all of them.\<close>

definition numa_rows ::
  "nat \<Rightarrow> (nat \<Rightarrow> u32 list option) \<Rightarrow> nat \<Rightarrow> graph_t \<Rightarrow> nat \<Rightarrow> nat \<Rightarrow> u32 list \<Rightarrow> nat \<Rightarrow> (nat \<times> nat \<times> u32 list list) option" where
  "numa_rows fuel alloc junk_j g root pus bp i = do {
     (go, n) \<leftarrow> topology_walk_pre_order fuel g (get_n_numa_nodes g) root None None 0 0;
     if 0 < n then do {
       let per = pus div n;
       row \<leftarrow> alloc per;
       (go, rows, i, j) \<leftarrow> topology_walk_pre_order fuel g (get_pus_of_numa_nodes g) root None None 0
         (replicate n row, i, junk_j);
       Some (n, per, rows)
     } else do {
       row \<leftarrow> alloc pus;
       row \<leftarrow> foldM (\<lambda>i row. do { b \<leftarrow> aget bp i; aput row i b }) [0..<pus] row;
       Some (1, pus, [row])
     }
   }"

text \<open>
  The assertion that every unit has got its node follows here and is left out: in the module it only prints; it holds
  of the result of \<open>analysis_ok\<close>, where every unit has the node 0.
\<close>

definition numa_of_pus :: "(nat \<Rightarrow> u32 list option) \<Rightarrow> nat \<Rightarrow> nat \<Rightarrow> nat \<Rightarrow> u32 list list \<Rightarrow> u32 list option" where
  "numa_of_pus alloc pus n per rows = do {
     to \<leftarrow> alloc pus;
     to \<leftarrow> foldM (\<lambda>i to. aput to i 0xFFFFFFFF) [0..<pus] to;
     foldM (\<lambda>i. foldM (\<lambda>j to. do {
       row \<leftarrow> aget rows i;
       p \<leftarrow> aget row j;
       aput to (unat p) (of_nat i)
     }) [0..<per]) [0..<n] to
   }"

text \<open>
  What does not depend on the shape of the tree is copied when an original topology is given: the units in order,
  the page size and masks, the NUMA nodes. \<open>psize\<close> is what the code reads the page size from: \<open>1 << PAGE_SHIFT\<close> in the
  module, the answer of \<open>sysconf\<close> outside; it is cut to 32 bits.
\<close>

definition units_in_order ::
  "nat \<Rightarrow> (nat \<Rightarrow> u32 list option) \<Rightarrow> topology_t option \<Rightarrow> graph_t \<Rightarrow> nat \<Rightarrow> nat \<Rightarrow> u32 list option" where
  "units_in_order fuel alloc orig g root pus = (case orig of
       None \<Rightarrow> do {
         bp \<leftarrow> alloc pus;
         (go, bp, i) \<leftarrow> topology_walk_pre_order fuel g (get_topology_best_pus_number g) root None None 0 (bp, 0);
         Some bp
       }
     | Some t \<Rightarrow> Some (best_pus t))"

definition page_numbers :: "u64 \<Rightarrow> topology_t option \<Rightarrow> (u32 \<times> u32 \<times> u64 \<times> u64) option" where
  "page_numbers psize orig = (case orig of
       None \<Rightarrow> do {
         let size = ucast psize;
         shift \<leftarrow> libmapping_get_log2 (ucast size);
         Some (size, ucast shift, ucast (size - 1), NOT (ucast (size - 1)))
       }
     | Some t \<Rightarrow> Some (page_size t, page_shift t, offset_addr_mask t, page_addr_mask t))"

definition numa_nodes ::
  "nat \<Rightarrow> (nat \<Rightarrow> u32 list option) \<Rightarrow> nat \<Rightarrow> topology_t option \<Rightarrow> graph_t \<Rightarrow> nat \<Rightarrow> nat \<Rightarrow> u32 list \<Rightarrow> nat \<Rightarrow>
   (nat \<times> nat \<times> u32 list list \<times> u32 list) option" where
  "numa_nodes fuel alloc junk_j orig g root pus bp i = (case orig of
       None \<Rightarrow> do {
         (n_numa, per, rows) \<leftarrow> numa_rows fuel alloc junk_j g root pus bp i;
         to \<leftarrow> numa_of_pus alloc pus n_numa per rows;
         Some (n_numa, per, rows, to)
       }
     | Some t \<Rightarrow> Some (n_numa_nodes t, n_pus_per_numa_node t, pus_of_numa_node t, pus_to_numa_node t))"

definition topology_analysis ::
  "nat \<Rightarrow> (nat \<Rightarrow> u32 list option) \<Rightarrow> nat \<Rightarrow> u64 \<Rightarrow> topology_t option \<Rightarrow> graph_t \<Rightarrow> nat \<Rightarrow> topology_t option" where
  "topology_analysis fuel alloc junk_j psize orig g root = do {
     (go, pus) \<leftarrow> topology_walk_pre_order fuel g (get_topology_attr_pu_number g) root None None 0 0;
     (go, levels) \<leftarrow> topology_walk_pre_order fuel g (detect_n_levels g) root None None 0 0;
     bp \<leftarrow> units_in_order fuel alloc orig g root pus;
     (size, shift, offset_mask, page_mask) \<leftarrow> page_numbers psize orig;
     ars \<leftarrow> alloc levels;
     lw \<leftarrow> alloc levels;
     nobjs \<leftarrow> alloc levels;
     (go, ars, i) \<leftarrow> topology_walk_pre_order fuel g (detect_arity_of_levels g) root None None 0 (ars, 0);
     (go, lw, i) \<leftarrow> topology_walk_pre_order fuel g (detect_link_weight_of_levels g) root None None 0 (lw, 0);
     nobjs \<leftarrow> count_objects ars levels pus nobjs;
     (n_numa, per, rows, to) \<leftarrow> numa_nodes fuel alloc junk_j orig g root pus bp i;
     (dim, lg, dist) \<leftarrow> floyd_warshall alloc g pus;
     Some \<lparr>t_graph = g, t_root = root, pu_number = pus, n_levels = levels, t_arities = ars, link_weights = lw,
       best_pus = bp, nobjs_per_level = nobjs, n_numa_nodes = n_numa, n_pus_per_numa_node = per,
       pus_of_numa_node = rows, pus_to_numa_node = to, page_size = size, page_shift = shift,
       page_addr_mask = page_mask, offset_addr_mask = offset_mask,
       dist_pus_dim = dim, dist_pus_dim_log = lg, dist_pus = dist\<rparr>
   }"

lemma topology_analysis_eq:
  "topology_analysis fuel alloc junk_j psize None g root = do {
     (go, pus) \<leftarrow> topology_walk_pre_order fuel g (get_topology_attr_pu_number g) root None None 0 0;
     (go, levels) \<leftarrow> topology_walk_pre_order fuel g (detect_n_levels g) root None None 0 0;
     bp \<leftarrow> alloc pus;
     (go, bp, i) \<leftarrow> topology_walk_pre_order fuel g (get_topology_best_pus_number g) root None None 0 (bp, 0);
     let size = (ucast psize :: u32);
     shift \<leftarrow> libmapping_get_log2 (ucast size);
     ars \<leftarrow> alloc levels;
     lw \<leftarrow> alloc levels;
     nobjs \<leftarrow> alloc levels;
     (go, ars, i) \<leftarrow> topology_walk_pre_order fuel g (detect_arity_of_levels g) root None None 0 (ars, 0);
     (go, lw, i) \<leftarrow> topology_walk_pre_order fuel g (detect_link_weight_of_levels g) root None None 0 (lw, 0);
     nobjs \<leftarrow> count_objects ars levels pus nobjs;
     (n_numa, per, rows) \<leftarrow> numa_rows fuel alloc junk_j g root pus bp i;
     to \<leftarrow> numa_of_pus alloc pus n_numa per rows;
     (dim, lg, dist) \<leftarrow> floyd_warshall alloc g pus;
     Some \<lparr>t_graph = g, t_root = root, pu_number = pus, n_levels = levels, t_arities = ars, link_weights = lw,
       best_pus = bp, nobjs_per_level = nobjs, n_numa_nodes = n_numa, n_pus_per_numa_node = per,
       pus_of_numa_node = rows, pus_to_numa_node = to, page_size = size, page_shift = ucast shift,
       page_addr_mask = NOT (ucast (size - 1)), offset_addr_mask = ucast (size - 1),
       dist_pus_dim = dim, dist_pus_dim_log = lg, dist_pus = dist\<rparr>
   }"
  by (simp add: topology_analysis_def units_in_order_def page_numbers_def numa_nodes_def Let_def split_def)

text \<open>
  The caller first allocates the structure for the optimised topology and writes to it; then it analyses the topology
  and returns.
\<close>

definition libmapping_topology_analysis ::
  "bool \<Rightarrow> nat \<Rightarrow> (nat \<Rightarrow> u32 list option) \<Rightarrow> nat \<Rightarrow> u64 \<Rightarrow> graph_t \<Rightarrow> nat \<Rightarrow> topology_t option" where
  "libmapping_topology_analysis opt_allocated fuel alloc junk_j psize g root =
     (if opt_allocated then topology_analysis fuel alloc junk_j psize None g root else None)"

section \<open>The leaves in order\<close>

lemma tree_vertex_child:
  assumes "u < v" "v < u + tree_size (a # as)"
  obtains j where "j < a" "Suc u + j * tree_size as \<le> v" "v < Suc u + j * tree_size as + tree_size as"
proof -
  let ?T = "tree_size as" and ?j = "(v - Suc u) div tree_size as"
  have T: "0 < ?T" by (rule tree_size_pos)
  have lt: "v - Suc u < a * ?T" using assms by simp
  then have "?j < a" using T by (simp add: less_mult_imp_div_less)
  moreover have "?j * ?T \<le> v - Suc u" "v - Suc u < ?j * ?T + ?T"
    using T by (simp_all add: div_times_less_eq_dividend dividend_less_div_times add.commute)
  moreover from this have "Suc u + ?j * ?T \<le> v" "v < Suc u + ?j * ?T + ?T" using assms(1) by linarith+
  ultimately show thesis using that by blast
qed

lemma children_concat:
  "concat (map (\<lambda>j. [Suc u + j * T..<Suc u + j * T + T]) [0..<n]) = [Suc u..<Suc u + n * T]"
proof (induction n)
  case (Suc n)
  have "[Suc u..<Suc u + (n * T + T)] = [Suc u..<Suc u + n * T] @ [Suc u + n * T..<Suc u + n * T + T]"
    by (metis add.assoc le_add1 upt_add_eq_append)
  with Suc show ?case by (simp add: add.commute)
qed simp

lemma leaves_concat:
  "concat (map (\<lambda>j. map ids [n + j * P..<n + j * P + P]) [0..<a]) = map ids [n..<n + a * P]"
proof (induction a)
  case (Suc a)
  have "[n..<n + (a * P + P)] = [n..<n + a * P] @ [n + a * P..<n + a * P + P]"
    by (metis add.assoc le_add1 upt_add_eq_append)
  with Suc show ?case by (simp add: add.commute)
qed simp

definition pus_in :: "graph_t \<Rightarrow> nat list \<Rightarrow> nat list" where
  "pus_in g vs = filter (\<lambda>v. v_type (vertices g ! v) = GRAPH_ELTYPE_PU) vs"

lemma pus_in_concat: "pus_in g (concat vss) = concat (map (pus_in g) vss)"
  by (simp add: pus_in_def[abs_def] filter_concat)

lemma children_leaf_ids:
  assumes "v_type (vertices g ! u) \<noteq> GRAPH_ELTYPE_PU"
    and "\<And>j. j < a \<Longrightarrow> map (\<lambda>v. v_id (vertices g ! v)) (pus_in g [Suc u + j * T..<Suc u + j * T + T]) = map ids [n + j * P..<n + j * P + P]"
  shows "map (\<lambda>v. v_id (vertices g ! v)) (pus_in g [u..<Suc u + a * T]) = map ids [n..<n + a * P]"
proof -
  have "[u..<Suc u + a * T] = u # concat (map (\<lambda>j. [Suc u + j * T..<Suc u + j * T + T]) [0..<a])"
    unfolding children_concat by (simp add: upt_conv_Cons del: upt_Suc)
  then have "map (\<lambda>v. v_id (vertices g ! v)) (pus_in g [u..<Suc u + a * T]) =
      concat (map (\<lambda>j. map (\<lambda>v. v_id (vertices g ! v)) (pus_in g [Suc u + j * T..<Suc u + j * T + T])) [0..<a])"
    using assms(1) pus_in_concat[of g "map (\<lambda>j. [Suc u + j * T..<Suc u + j * T + T]) [0..<a]"]
    by (simp add: pus_in_def[of g "u # vs" for vs] pus_in_def[of g "concat vs" for vs, symmetric] map_concat comp_def del: upt_Suc)
  also have "\<dots> = concat (map (\<lambda>j. map ids [n + j * P..<n + j * P + P]) [0..<a])"
    by (intro arg_cong[of _ _ concat] map_cong refl assms(2)) simp
  finally show ?thesis unfolding leaves_concat .
qed

lemma leaf_ids: "typed g ids as u n \<Longrightarrow>
  map (\<lambda>v. v_id (vertices g ! v)) (pus_in g [u..<u + tree_size as]) = map ids [n..<n + prod_list as]"
proof (induction as arbitrary: u n)
  case Nil
  then show ?case by (simp add: pus_in_def)
next
  case (Cons a as)
  have "map (\<lambda>v. v_id (vertices g ! v)) (pus_in g [u..<Suc u + a * tree_size as]) = map ids [n..<n + a * prod_list as]"
  proof (rule children_leaf_ids)
    fix j assume "j < a"
    then show "map (\<lambda>v. v_id (vertices g ! v)) (pus_in g [Suc u + j * tree_size as..<Suc u + j * tree_size as + tree_size as]) =
        map ids [n + j * prod_list as..<n + j * prod_list as + prod_list as]"
      using Cons.prems by (intro Cons.IH) simp
  qed (use Cons.prems in simp)
  then show ?case by simp
qed

lemma hw_leaf_ids: "hw_typed g ids par as u n \<Longrightarrow>
  map (\<lambda>v. v_id (vertices g ! v)) (pus_in g [u..<u + tree_size as]) = map ids [n..<n + prod_list as]"
proof (cases as)
  case Nil
  assume "hw_typed g ids par as u n"
  with Nil leaf_ids[of g ids "[]" u n] show ?thesis by (simp add: hw_typed_def)
next
  case (Cons a as')
  assume hw: "hw_typed g ids par as u n"
  have "v_type (vertices g ! u) \<noteq> GRAPH_ELTYPE_PU" using hw Cons by (cases par) (simp_all add: hw_typed_def)
  then have "map (\<lambda>v. v_id (vertices g ! v)) (pus_in g [u..<Suc u + a * tree_size as']) = map ids [n..<n + a * prod_list as']"
  proof (rule children_leaf_ids)
    fix j assume "j < a"
    then show "map (\<lambda>v. v_id (vertices g ! v)) (pus_in g [Suc u + j * tree_size as'..<Suc u + j * tree_size as' + tree_size as']) =
        map ids [n + j * prod_list as'..<n + j * prod_list as' + prod_list as']"
      using hw Cons by (intro leaf_ids) (simp add: hw_typed_def)
  qed
  then show ?thesis unfolding Cons by simp
qed

text \<open>A walk whose routine only acts on processing units is a loop over their ids.\<close>

lemma foldM_pus:
  "foldM (\<lambda>v s. if v_type (vertices g ! v) = GRAPH_ELTYPE_PU then h (v_id (vertices g ! v)) s else Some s) vs s =
     foldM h (map (\<lambda>v. v_id (vertices g ! v)) (pus_in g vs)) s"
proof (induction vs arbitrary: s)
  case (Cons v vs)
  then show ?case by (cases "h (v_id (vertices g ! v)) s") (simp_all add: pus_in_def)
qed (simp add: pus_in_def)

lemma walk_pus:
  assumes hw: "hardware g ids as root" "length as < fuel" "root + tree_size as \<le> length (vertices g)"
    and r: "\<And>v from e l s. v < length (vertices g) \<Longrightarrow> routine v from e l s = map_option (\<lambda>s. (True, s))
      (if v_type (vertices g ! v) = GRAPH_ELTYPE_PU then h (v_id (vertices g ! v)) s else Some s)"
  shows "topology_walk_pre_order fuel g routine root None None 0 s =
    map_option (\<lambda>s. (True, s)) (foldM h (map ids [0..<prod_list as]) s)"
proof -
  let ?f = "\<lambda>v (l :: nat) s. if v_type (vertices g ! v) = GRAPH_ELTYPE_PU then h (v_id (vertices g ! v)) s else Some s"
  have t: "represents g None as root" "hw_typed g ids None as root 0" using hw(1) by (simp_all add: hardware_def)
  have "folds routine ?f {root..<root + tree_size as}" using r hw(3) by (simp add: folds_def)
  from walk_fold[OF t(1) _ hw(2) this]
  have "topology_walk_pre_order fuel g routine root None None 0 s =
      map_option (\<lambda>s. (True, s)) (foldM (\<lambda>(v, l). ?f v l) (preorder as root 0) s)" by simp
  also have "foldM (\<lambda>(v, l). ?f v l) (preorder as root 0) s = foldM (\<lambda>v. ?f v 0) (map fst (preorder as root 0)) s"
    unfolding foldM_map by (rule foldM_cong) auto
  also have "\<dots> = foldM h (map ids [0..<prod_list as]) s"
    unfolding preorder_vertices foldM_pus using hw_leaf_ids[OF t(2)] by simp
  finally show ?thesis .
qed

section \<open>Filling an array\<close>

lemma fill_array:
  assumes "length zs \<le> length xs"
  shows "foldM (\<lambda>z (b, i). do { b \<leftarrow> aput b i z; Some (b, i + 1) }) zs (xs, 0) = Some (zs @ drop (length zs) xs, length zs)"
  using assms
proof (induction zs rule: rev_induct)
  case (snoc z zs)
  then have "drop (length zs) xs = xs ! length zs # drop (Suc (length zs)) xs"
    by (intro Cons_nth_drop_Suc[symmetric]) simp
  with snoc show ?case by (simp add: foldM_snoc)
qed simp

section \<open>The tree as a weighted graph\<close>

lemma node_slot:
  assumes "node_ok g par v w kids" "j < arity (vertices g ! v)"
  obtains e x where "linked (vertices g ! v) ! j = Some (e, x)" "e < used_edges g"
    "x \<in> set kids \<and> e_weight (edges g ! e) = w \<or> par = Some x \<and> e_weight (edges g ! e) = 2 * w"
proof (cases "j < length kids")
  case True
  then obtain e where "e < used_edges g" "linked (vertices g ! v) ! j = Some (e, kids ! j)" "e_weight (edges g ! e) = w"
    using assms(1) unfolding node_ok_def by blast
  with that True show thesis by auto
next
  case False
  have ar: "arity (vertices g ! v) = length kids + (if par = None then 0 else 1)" using assms(1) by (simp add: node_ok_def)
  with False assms(2) have "par \<noteq> None" "j = length kids" by (simp_all split: if_splits)
  then obtain p where p: "par = Some p" "j = length kids" by blast
  then obtain e where "e < used_edges g" "linked (vertices g ! v) ! j = Some (e, p)" "e_weight (edges g ! e) = 2 * w"
    using assms(1) unfolding node_ok_def by blast
  with that p(1) show thesis by blast
qed

definition slots_ok :: "graph_t \<Rightarrow> nat set \<Rightarrow> int \<Rightarrow> nat \<Rightarrow> bool" where
  "slots_ok g V b v \<longleftrightarrow> arity (vertices g ! v) \<le> length (linked (vertices g ! v)) \<and>
     (\<forall>j < arity (vertices g ! v). \<exists>e w. linked (vertices g ! v) ! j = Some (e, w) \<and> e < used_edges g \<and> w \<in> V \<and> w \<noteq> v \<and>
        0 \<le> e_weight (edges g ! e) \<and> e_weight (edges g ! e) \<le> b)"

lemma slots_ok_mono: "slots_ok g V b v \<Longrightarrow> V \<subseteq> W \<Longrightarrow> b \<le> c \<Longrightarrow> slots_ok g W c v"
  unfolding slots_ok_def by (blast intro: order_trans)

lemma node_slots_ok:
  assumes "node_ok g par v w kids" "0 \<le> w" "set kids \<subseteq> V" "\<And>p. par = Some p \<Longrightarrow> p \<in> V \<and> p \<noteq> v" "v \<notin> set kids"
  shows "slots_ok g V (2 * w) v"
  unfolding slots_ok_def
proof (intro conjI allI impI)
  show "arity (vertices g ! v) \<le> length (linked (vertices g ! v))" using assms(1) by (simp add: node_ok_def)
  fix j assume "j < arity (vertices g ! v)"
  from node_slot[OF assms(1) this] obtain e x where "linked (vertices g ! v) ! j = Some (e, x)" "e < used_edges g"
    "x \<in> set kids \<and> e_weight (edges g ! e) = w \<or> par = Some x \<and> e_weight (edges g ! e) = 2 * w" by blast
  with assms(2-5) show "\<exists>e w'. linked (vertices g ! v) ! j = Some (e, w') \<and> e < used_edges g \<and> w' \<in> V \<and> w' \<noteq> v \<and>
      0 \<le> e_weight (edges g ! e) \<and> e_weight (edges g ! e) \<le> 2 * w" by auto
qed

lemma tree_slots:
  assumes "represents g par as u" "\<And>p. par = Some p \<Longrightarrow> p < u" "v \<in> {u..<u + tree_size as}"
  shows "slots_ok g ({u..<u + tree_size as} \<union> set_option par) (2 * 2 ^ length as) v"
  using assms
proof (induction as arbitrary: par u)
  case Nil
  then have v: "v = u" "node_ok g par u 1 []" by auto
  have "slots_ok g (set_option par) (2 * 1) u"
    by (rule node_slots_ok[OF v(2)]) (use Nil.prems(2) in auto)
  then show ?case unfolding v(1) by (rule slots_ok_mono) auto
next
  case (Cons a as)
  let ?V = "{u..<u + tree_size (a # as)} \<union> set_option par"
  show ?case
  proof (cases "v = u")
    case True
    have node: "node_ok g par u (2 ^ length (a # as)) (children (a # as) u)" using Cons.prems(1) by simp
    have "set (children (a # as) u) \<subseteq> ?V"
    proof
      fix x assume "x \<in> set (children (a # as) u)"
      then obtain j where "j < a" "x = Suc u + j * tree_size as" by auto
      with child_range[of j a u as] tree_size_pos[of as] show "x \<in> ?V" by auto
    qed
    then show ?thesis unfolding True
      by (intro node_slots_ok[OF node]) (use Cons.prems(2) in auto)
  next
    case False
    then have "u < v" "v < u + tree_size (a # as)" using Cons.prems(3) by auto
    from tree_vertex_child[OF this] obtain j where j: "j < a" "Suc u + j * tree_size as \<le> v" "v < Suc u + j * tree_size as + tree_size as" by blast
    have "slots_ok g ({Suc u + j * tree_size as..<Suc u + j * tree_size as + tree_size as} \<union> set_option (Some u)) (2 * 2 ^ length as) v"
      by (rule Cons.IH) (use Cons.prems(1) j in auto)
    then show ?thesis
      by (rule slots_ok_mono) (use child_range[OF j(1), of u as] in \<open>auto simp: numeral_le_iff\<close>)
  qed
qed

lemma tree_fw_graph:
  assumes "represents g None as 0" "n_vertices g = tree_size as" "length (vertices g) = n_vertices g"
    and "used_edges g \<le> length (edges g)" "length as \<le> 29" "tree_size as \<le> 2 ^ 15"
    and "\<And>i. i < n_vertices g \<Longrightarrow> v_pos (vertices g ! i) = i"
  shows "fw_graph g"
proof -
  have "(2 :: int) * 2 ^ length as \<le> 2 * 2 ^ 29" using assms(5) by (intro mult_left_mono power_increasing) auto
  then have b: "(2 :: int) * 2 ^ length as < 2 ^ 31" by simp
  have "slots_ok g {0..<n_vertices g} (2 * 2 ^ length as) i" if "i < n_vertices g" for i
    using tree_slots[OF assms(1), of i] that assms(2) by simp
  note slots = this[unfolded slots_ok_def]
  show ?thesis
    unfolding fw_graph_def
  proof (intro conjI allI impI)
    fix i assume i: "i < n_vertices g"
    show "v_pos (vertices g ! i) = i" by (rule assms(7)[OF i])
    show "arity (vertices g ! i) \<le> length (linked (vertices g ! i))" using slots[OF i] by blast
    fix j assume "j < arity (vertices g ! i)"
    with slots[OF i] obtain e w where "linked (vertices g ! i) ! j = Some (e, w)" "e < used_edges g" "w \<in> {0..<n_vertices g}"
      "w \<noteq> i" "0 \<le> e_weight (edges g ! e)" "e_weight (edges g ! e) \<le> 2 * 2 ^ length as" by blast
    with assms(4) b show "\<exists>e w. linked (vertices g ! i) ! j = Some (e, w) \<and> e < length (edges g) \<and> w < n_vertices g \<and> w \<noteq> i \<and>
        0 \<le> e_weight (edges g ! e) \<and> e_weight (edges g ! e) < 2 ^ 31" by (intro exI[of _ e] exI[of _ w]) auto
  qed (use assms(2,3,6) tree_size_pos[of as] in simp_all)
qed

lemma tree_pu_ids:
  assumes "hw_typed g ids None as 0 0" "n_vertices g = tree_size as"
    and ids: "\<And>n. n < prod_list as \<Longrightarrow> unat (ids n) < prod_list as" "inj_on ids {0..<prod_list as}"
  shows "pu_ids_ok g (prod_list as)"
  unfolding pu_ids_ok_def
proof (intro allI impI)
  fix u v assume uv: "is_pu g u \<and> is_pu g v"
  let ?L = "pus_in g [0..<tree_size as]"
  have map: "map (\<lambda>v. v_id (vertices g ! v)) ?L = map ids [0..<prod_list as]" using hw_leaf_ids[OF assms(1)] by simp
  have "distinct (map (\<lambda>v. v_id (vertices g ! v)) ?L)" unfolding map using ids(2) by (simp add: distinct_map)
  then have inj: "inj_on (\<lambda>v. v_id (vertices g ! v)) (set ?L)" by (simp add: distinct_map)
  have mem: "u \<in> set ?L" "v \<in> set ?L" using uv assms(2) by (simp_all add: is_pu_def pus_in_def)
  have "v_id (vertices g ! u) \<in> set (map ids [0..<prod_list as])" using mem(1) unfolding map[symmetric] by simp
  then have "pu_id g u < prod_list as" using ids(1) by (auto simp: pu_id_def)
  moreover have "u = v" if "pu_id g u = pu_id g v"
  proof -
    have "v_id (vertices g ! u) = v_id (vertices g ! v)" using that by (simp add: pu_id_def word_unat_eq_iff)
    with inj mem show ?thesis by (auto dest: inj_onD)
  qed
  ultimately show "pu_id g u < prod_list as \<and> (pu_id g u = pu_id g v \<longrightarrow> u = v)" by blast
qed

section \<open>The parts of the analysis\<close>

lemma prod_le_tree_size: "prod_list as \<le> tree_size as"
proof (induction as)
  case (Cons a as)
  then have "a * prod_list as \<le> a * tree_size as" by (rule mult_le_mono2)
  then show ?case unfolding prod_list.Cons tree_size.simps by linarith
qed simp

lemma prod_pos: "\<forall>a \<in> set as. 0 < a \<Longrightarrow> 0 < prod_list (as :: nat list)"
  by (induction as) auto

lemma prod_take_step:
  assumes "i < length as"
  shows "prod_list (take (Suc i) as) = prod_list (take i as) * as ! i"
  using assms by (simp add: take_Suc_conv_app_nth)

lemma prod_take_le:
  assumes "\<forall>a \<in> set as. 0 < a"
  shows "prod_list (take i as) \<le> prod_list (as :: nat list)"
proof -
  have "0 < prod_list (drop i as)" using assms by (intro prod_pos) (auto dest: in_set_dropD)
  then have "prod_list (take i as) * 1 \<le> prod_list (take i as) * prod_list (drop i as)" by (intro mult_le_mono2) simp
  also have "\<dots> = prod_list as" by (metis append_take_drop_id prod_list.append)
  finally show ?thesis by simp
qed

lemma div_words:
  assumes "x < 2 ^ 32" "y < 2 ^ 32"
  shows "(of_nat x :: u32) div of_nat y = of_nat (x div y)"
  using assms by (simp add: word_arith_nat_div unat_of_nat)

lemma count_objects_ok:
  assumes pos: "\<forall>a \<in> set as. 0 < a" and P: "prod_list as < 2 ^ 32" and nobjs: "length nobjs = Suc (length as)"
  shows "count_objects (map of_nat as @ [0]) (Suc (length as)) (prod_list as) nobjs =
    Some (map (\<lambda>i. of_nat (prod_list (take i as))) [0..<Suc (length as)])"
proof -
  define body where "body = (\<lambda>i nobjs. do {
       below \<leftarrow> aget nobjs (i + 1);
       a \<leftarrow> aget (map of_nat as @ [0]) i;
       if a = 0 then None else aput nobjs i (below div a :: u32)
     })"
  have loop: "\<exists>ys. foldM body (rev [0..<m]) xs = Some ys \<and> length ys = length xs \<and> (\<forall>i \<le> length as. ys ! i = of_nat (prod_list (take i as)))"
    if "m \<le> length as" "length xs = Suc (length as)" "\<forall>i. m \<le> i \<and> i \<le> length as \<longrightarrow> xs ! i = of_nat (prod_list (take i as))" for m xs
    using that
  proof (induction m arbitrary: xs)
    case (Suc m)
    have m: "m < length as" using Suc.prems(1) by simp
    have take_pos: "0 < prod_list (take (Suc m) as)" using pos by (intro prod_pos) (auto dest: in_set_takeD)
    have small: "prod_list (take (Suc m) as) < 2 ^ 32" using prod_take_le[OF pos, of "Suc m"] P by simp
    have a_pos: "0 < as ! m" using pos m by simp
    have "as ! m * 1 \<le> as ! m * prod_list (take m as)"
      using take_pos prod_take_step[OF m] by (intro mult_le_mono2) (simp add: Suc_le_eq)
    then have "as ! m \<le> prod_list (take (Suc m) as)" using prod_take_step[OF m] by (simp only: mult_1_right mult.commute)
    then have a_small: "as ! m < 2 ^ 32" using small by (rule le_less_trans)
    have "unat (of_nat (as ! m) :: u32) = as ! m" using a_small by (simp add: unat_of_nat)
    then have nz: "(of_nat (as ! m) :: u32) \<noteq> 0" using a_pos by (metis less_numeral_extra(3) unsigned_0)
    have "xs ! Suc m = of_nat (prod_list (take (Suc m) as))" using Suc.prems(3) m by simp
    then have "xs ! Suc m div of_nat (as ! m) = of_nat (prod_list (take m as))"
      using div_words[OF small a_small] a_pos prod_take_step[OF m] by simp
    then have step: "body m xs = Some (xs[m := of_nat (prod_list (take m as))])"
      using m Suc.prems(2) nz by (simp add: body_def nth_append)
    have "\<forall>i. m \<le> i \<and> i \<le> length as \<longrightarrow> xs[m := of_nat (prod_list (take m as))] ! i = of_nat (prod_list (take i as))"
      using Suc.prems(2,3) m by (auto simp: nth_list_update)
    from Suc.IH[OF _ _ this] step m Suc.prems(2) show ?case by simp
  qed auto
  let ?xs = "nobjs[length as := of_nat (prod_list as)]"
  have "\<forall>i. length as \<le> i \<and> i \<le> length as \<longrightarrow> ?xs ! i = of_nat (prod_list (take i as))"
    using nobjs by (auto dest: le_antisym)
  from loop[OF _ _ this] nobjs obtain ys where ys: "foldM body (rev [0..<length as]) ?xs = Some ys" "length ys = Suc (length as)"
    "\<forall>i \<le> length as. ys ! i = of_nat (prod_list (take i as))" by auto
  have "ys = map (\<lambda>i. of_nat (prod_list (take i as))) [0..<Suc (length as)]"
    using ys(2,3) by (intro nth_equalityI) (simp_all del: upt_Suc add: less_Suc_eq_le)
  then show ?thesis using ys(1) nobjs unfolding count_objects_def body_def[symmetric] by simp
qed

lemma typed_types: "typed g ids as u n \<Longrightarrow> u \<le> v \<Longrightarrow> v < u + tree_size as \<Longrightarrow>
  v_type (vertices g ! v) \<in> {GRAPH_ELTYPE_PU, GRAPH_ELTYPE_UNDEFINED}"
proof (induction as arbitrary: u n)
  case (Cons a as)
  show ?case
  proof (cases "v = u")
    case False
    then have "u < v" using Cons.prems(2) by simp
    from tree_vertex_child[OF this Cons.prems(3)] obtain j where "j < a" "Suc u + j * tree_size as \<le> v" "v < Suc u + j * tree_size as + tree_size as" .
    with Cons.prems(1) show ?thesis by (intro Cons.IH) auto
  qed (use Cons.prems(1) in simp)
next
  case Nil
  then have "v = u" by simp
  with Nil show ?case by simp
qed

lemma hw_types:
  assumes "hw_typed g ids par as u n" "u \<le> v" "v < u + tree_size as"
  shows "v_type (vertices g ! v) \<noteq> GRAPH_ELTYPE_NUMA_NODE"
proof (cases as)
  case Nil
  with assms(2,3) have "v = u" by simp
  with Nil assms(1) show ?thesis by (simp add: hw_typed_def)
next
  case (Cons a as')
  show ?thesis
  proof (cases "v = u")
    case True
    with Cons assms(1) show ?thesis by (cases par) (simp_all add: hw_typed_def)
  next
    case False
    then have "u < v" using assms(2) by simp
    from tree_vertex_child[OF this assms(3)[unfolded Cons]] obtain j where j: "j < a" "Suc u + j * tree_size as' \<le> v"
      "v < Suc u + j * tree_size as' + tree_size as'" .
    then have "typed g ids as' (Suc u + j * tree_size as') (n + j * prod_list as')" using assms(1) Cons by (simp add: hw_typed_def)
    from typed_types[OF this j(2,3)] show ?thesis by auto
  qed
qed

lemma levels_ok:
  assumes hw: "hardware g ids as root" "length as < fuel"
  shows "topology_walk_pre_order fuel g (detect_n_levels g) root None None 0 n = Some (False, n + Suc (length as))"
proof -
  from hw(1) have t: "represents g None as root" "hw_typed g ids None as root 0" "\<forall>a \<in> set as. 0 < a" by (auto simp: hardware_def)
  have step: "detect_n_levels g (root + k) from e l s = map_option (\<lambda>s. (k < length as, s)) (Some (s + 1))"
    if k: "k \<le> length as" for k "from" e l s
  proof -
    obtain x where x: "aget (vertices g) (root + k) = Some x" "v_type x \<noteq> GRAPH_ELTYPE_PU \<longleftrightarrow> k < length as"
      "v_type x = GRAPH_ELTYPE_ROOT \<longleftrightarrow> k = 0" "is_shared_level x \<longleftrightarrow> k < length as \<and> 2 \<le> as ! k"
      "k < length as \<longrightarrow> arity x = (if k = 0 then as ! k else as ! k + 1)" "k = length as \<longrightarrow> arity x \<le> 1"
      by (rule path_shared[OF hw(1) k], rule that, assumption+)
    then show ?thesis by (simp add: detect_n_levels_def)
  qed
  have count: "foldM (\<lambda>k s. Some (s + 1)) [0..<m] n = Some (n + m)" for m
    by (induction m) (simp_all add: foldM_snoc)
  show ?thesis using walk_first_path[OF t(1) _ t(3) hw(2) step] count[of "Suc (length as)"] by (simp del: upt_Suc)
qed

lemma arities_ok:
  assumes hw: "hardware g ids as root" "length as < fuel" and xs: "length xs = Suc (length as)"
  shows "topology_walk_pre_order fuel g (detect_arity_of_levels g) root None None 0 (xs, 0) =
    Some (False, map of_nat as @ [0], Suc (length as))"
proof -
  from hw(1) have t: "represents g None as root" "hw_typed g ids None as root 0" "\<forall>a \<in> set as. 0 < a" "as \<noteq> []" by (auto simp: hardware_def)
  let ?val = "\<lambda>k. (map of_nat as @ [0] :: u32 list) ! k"
  let ?put = "\<lambda>z (b, i). do { b \<leftarrow> aput b i (z :: u32); Some (b, i + 1) }"
  have step: "detect_arity_of_levels g (root + k) from e l s = map_option (\<lambda>s. (k < length as, s)) (?put (?val k) s)"
    if k: "k \<le> length as" for k "from" e l s
  proof -
    let ?x = "vertices g ! (root + k)"
    have x: "aget (vertices g) (root + k) = Some ?x" "v_type ?x \<noteq> GRAPH_ELTYPE_PU \<longleftrightarrow> k < length as"
      "(if v_type ?x = GRAPH_ELTYPE_ROOT then of_nat (arity ?x) else of_nat (arity ?x) - 1) = ?val k"
    proof (atomize (full), cases "k < length as")
      case True
      from path_vertex[OF t(1-3) True] True show "aget (vertices g) (root + k) = Some ?x \<and> (v_type ?x \<noteq> GRAPH_ELTYPE_PU \<longleftrightarrow> k < length as) \<and>
          (if v_type ?x = GRAPH_ELTYPE_ROOT then of_nat (arity ?x) else of_nat (arity ?x) - 1) = ?val k"
        by (auto simp: nth_append)
    next
      case False
      with k have "k = length as" by simp
      with path_leaf[OF t(1-3)] t(4) show "aget (vertices g) (root + k) = Some ?x \<and> (v_type ?x \<noteq> GRAPH_ELTYPE_PU \<longleftrightarrow> k < length as) \<and>
          (if v_type ?x = GRAPH_ELTYPE_ROOT then of_nat (arity ?x) else of_nat (arity ?x) - 1) = ?val k"
        by (auto simp: nth_append)
    qed
    obtain ars i where s: "s = (ars, i)" by (cases s)
    show ?thesis unfolding s detect_arity_of_levels_def prod.case x(1) Option.bind.bind_lunit x(2,3)
      by (cases "aput ars i (?val k)") simp_all
  qed
  have "foldM (\<lambda>k. ?put (?val k)) [0..<length (map of_nat as @ [0 :: u32])] (xs, 0) = Some ((map of_nat as @ [0]) @ drop (Suc (length as)) xs, Suc (length as))"
    unfolding foldM_nth[of ?put "map of_nat as @ [0]"] using fill_array[of "map of_nat as @ [0]" xs] xs by simp
  then show ?thesis using walk_first_path[OF t(1) _ t(3) hw(2) step] xs by (simp del: upt_Suc)
qed

lemma link_weights_ok:
  assumes hw: "hardware g ids as root" "length as < fuel" and xs: "length as \<le> length xs" and e: "used_edges g \<le> length (edges g)"
  shows "topology_walk_pre_order fuel g (detect_link_weight_of_levels g) root None None 0 (xs, 0) =
    Some (False, map (\<lambda>k. 2 ^ (length as - k)) [0..<length as] @ drop (length as) xs, length as)"
proof -
  from hw(1) have t: "represents g None as root" "hw_typed g ids None as root 0" "\<forall>a \<in> set as. 0 < a" "as \<noteq> []" by (auto simp: hardware_def)
  let ?put = "\<lambda>z (b, i). do { b \<leftarrow> aput b i (z :: u32); Some (b, i + 1) }"
  let ?val = "\<lambda>k. 2 ^ (length as - k) :: u32"
  define E where "E k edge \<longleftrightarrow> k = 0 \<or> (\<exists>e. edge = Some e \<and> e < used_edges g \<and> e_weight (edges g ! e) = 2 ^ (length as - (k - 1)))" for k and edge :: "nat option"
  define h where "h k s = (if k = 0 then Some s else ?put (?val (k - 1)) s)" for k s
  have step: "detect_link_weight_of_levels g (root + k) from edge l s = map_option (\<lambda>s. (k < length as, s)) (h k s)"
    if k: "k \<le> length as" and E: "E k edge" for k "from" edge l s
  proof -
    obtain x where x: "aget (vertices g) (root + k) = Some x" "v_type x \<noteq> GRAPH_ELTYPE_PU \<longleftrightarrow> k < length as"
      "v_type x = GRAPH_ELTYPE_ROOT \<longleftrightarrow> k = 0" "is_shared_level x \<longleftrightarrow> k < length as \<and> 2 \<le> as ! k"
      "k < length as \<longrightarrow> arity x = (if k = 0 then as ! k else as ! k + 1)" "k = length as \<longrightarrow> arity x \<le> 1"
      by (rule path_shared[OF hw(1) k], rule that, assumption+)
    obtain lw i where s: "s = (lw, i)" by (cases s)
    show ?thesis
    proof (cases "k = 0")
      case True
      with x(1,3) t(4) show ?thesis by (simp add: detect_link_weight_of_levels_def s h_def)
    next
      case False
      with E obtain d where d: "edge = Some d" "d < used_edges g" "e_weight (edges g ! d) = 2 ^ (length as - (k - 1))"
        by (auto simp: E_def)
      have "aget (edges g) d = Some (edges g ! d)" using d(2) assms(4) by simp
      moreover have "word_of_int (e_weight (edges g ! d)) = ?val (k - 1)" by (simp add: d(3))
      ultimately show ?thesis
        using False x(2,3) unfolding detect_link_weight_of_levels_def s prod.case x(1) Option.bind.bind_lunit d(1) h_def
        by (cases "aput lw i (?val (k - 1))") simp_all
    qed
  qed
  have start: "E 0 None" by (simp add: E_def)
  have next_edge: "E (Suc k) (Some e')" if "k < length as" "e' < used_edges g" "e_weight (edges g ! e') = 2 ^ (length as - k)" for k e'
    using that by (simp add: E_def)
  have split: "foldM h [0..<Suc (length as)] s = foldM (\<lambda>k. ?put (?val k)) [0..<length as] s" for s
  proof -
    have all: "[0..<Suc (length as)] = 0 # map Suc [0..<length as]" by (simp add: upt_conv_Cons map_Suc_upt del: upt_Suc)
    have "foldM (\<lambda>k. h (Suc k)) [0..<length as] s = foldM (\<lambda>k. ?put (?val k)) [0..<length as] s"
      by (rule foldM_cong) (simp_all add: h_def)
    moreover have "foldM h (0 # map Suc [0..<length as]) s = foldM h (map Suc [0..<length as]) s" by (simp add: h_def)
    ultimately show ?thesis unfolding all by (simp only: foldM_map)
  qed
  have vals: "foldM (\<lambda>k. ?put (?val k)) [0..<length as] (xs, 0) = foldM ?put (map ?val [0..<length as]) (xs, 0)"
    by (simp add: foldM_map)
  have fill: "foldM ?put (map ?val [0..<length as]) (xs, 0) = Some (map ?val [0..<length as] @ drop (length as) xs, length as)"
    using fill_array[of "map ?val [0..<length as]" xs] xs by simp
  have "topology_walk_pre_order fuel g (detect_link_weight_of_levels g) root None None 0 (xs, 0) =
      map_option (\<lambda>s. (False, s)) (foldM h [0..<Suc (length as)] (xs, 0))"
    by (rule walk_first_path_edges[where E = E, OF t(1) _ t(3) hw(2) step start next_edge]) simp
  then show ?thesis unfolding split vals fill by simp
qed

lemma no_numa:
  assumes hw: "hardware g ids as root" "length as < fuel" and len: "root + tree_size as \<le> length (vertices g)"
  shows "topology_walk_pre_order fuel g (get_n_numa_nodes g) root None None 0 n = Some (True, n)"
proof -
  from hw(1) have t: "represents g None as root" "hw_typed g ids None as root 0" by (auto simp: hardware_def)
  have quiet: "folds (get_n_numa_nodes g) (\<lambda>v l s. Some s) {root..<root + tree_size as}"
    using hw_types[OF t(2)] len by (auto simp: folds_def get_n_numa_nodes_def)
  have "foldM (\<lambda>(v :: nat, l :: nat) s. Some s) xs n = Some n" for xs and n :: nat
    by (induction xs) auto
  then show ?thesis using walk_fold[OF t(1) _ hw(2) quiet] by simp
qed

lemma numa_rows_ok:
  assumes hw: "hardware g ids as root" "length as < fuel" and len: "root + tree_size as \<le> length (vertices g)"
    and alloc: "allocates alloc" and bp: "length bp = p"
  shows "numa_rows fuel alloc junk_j g root p bp i = Some (1, p, [bp])"
proof -
  obtain row where row: "alloc p = Some row" "length row = p" using alloc by (auto simp: allocates_def)
  define I where "I = (\<lambda>i r. length r = p \<and> (\<forall>k < i. r ! k = bp ! k))"
  have "wp (foldM (\<lambda>i row. do { b \<leftarrow> aget bp i; aput row i b }) [0..<p] row) (I p)"
    by (rule wp_for0[where I = I]) (use row(2) bp in \<open>auto simp: I_def nth_list_update less_Suc_eq\<close>)
  then obtain r where r: "foldM (\<lambda>i row. do { b \<leftarrow> aget bp i; aput row i b }) [0..<p] row = Some r" "I p r" by (auto elim!: wpE)
  have "r = bp" using r(2) bp by (intro nth_equalityI) (simp_all add: I_def)
  with r(1) row(1) no_numa[OF hw len, of 0] show ?thesis by (simp add: numa_rows_def)
qed

lemma numa_of_pus_ok:
  assumes alloc: "allocates alloc" and ids: "\<And>n. n < p \<Longrightarrow> unat (ids n) < p" "inj_on ids {0..<p}"
  shows "numa_of_pus alloc p 1 p [map ids [0..<p]] = Some (replicate p 0)"
proof -
  obtain xs where xs: "alloc p = Some xs" "length xs = p" using alloc by (auto simp: allocates_def)
  have "wp (foldM (\<lambda>i to. aput to i 0xFFFFFFFF) [0..<p] xs) (\<lambda>ys. length ys = p)"
    by (rule wp_foldM_all[where I = "\<lambda>ys. length ys = p"]) (use xs(2) in auto)
  then obtain ys where ys: "foldM (\<lambda>i to. aput to i 0xFFFFFFFF) [0..<p] xs = Some ys" "length ys = p" by (auto elim!: wpE)
  define I where "I = (\<lambda>j (to :: u32 list). length to = p \<and> (\<forall>k < j. to ! unat (ids k) = 0))"
  have "wp (foldM (\<lambda>j to. do { q \<leftarrow> aget (map ids [0..<p]) j; aput to (unat q) 0 }) [0..<p] ys) (I p)"
    by (rule wp_for0[where I = I]) (use ys(2) ids(1) in \<open>auto simp: I_def nth_list_update less_Suc_eq\<close>)
  then obtain zs where zs: "foldM (\<lambda>j to. do { q \<leftarrow> aget (map ids [0..<p]) j; aput to (unat q) 0 }) [0..<p] ys = Some zs" "I p zs"
    by (auto elim!: wpE)
  have "inj_on (\<lambda>n. unat (ids n)) {0..<p}" using ids(2) by (simp add: inj_on_def word_unat_eq_iff)
  moreover have "(\<lambda>n. unat (ids n)) ` {0..<p} \<subseteq> {0..<p}" using ids(1) by auto
  ultimately have onto: "(\<lambda>n. unat (ids n)) ` {0..<p} = {0..<p}" by (intro endo_inj_surj) auto
  have "zs ! k = 0" if "k < p" for k
  proof -
    have "k \<in> (\<lambda>n. unat (ids n)) ` {0..<p}" unfolding onto using that by simp
    then obtain n where "n < p" "k = unat (ids n)" by auto
    with zs(2) show ?thesis by (simp add: I_def)
  qed
  then have "zs = replicate p 0" using zs(2) by (intro nth_equalityI) (simp_all add: I_def)
  with xs(1) ys(1) zs(1) show ?thesis by (simp add: numa_of_pus_def)
qed

section \<open>The whole analysis\<close>

lemma walk_pu_number:
  assumes hw: "hardware g ids as root" "length as < fuel" and len: "root + tree_size as \<le> length (vertices g)"
  shows "topology_walk_pre_order fuel g (get_topology_attr_pu_number g) root None None 0 0 = Some (True, prod_list as)"
proof -
  have "foldM (\<lambda>id n. Some (n + 1)) (map ids xs) n = Some (n + length xs)" for xs n
    by (induction xs arbitrary: n) auto
  then show ?thesis
    by (subst walk_pus[OF hw len, where h = "\<lambda>id n. Some (n + 1)"]) (auto simp: get_topology_attr_pu_number_def)
qed

lemma walk_best_pus:
  assumes hw: "hardware g ids as root" "length as < fuel" and len: "root + tree_size as \<le> length (vertices g)"
    and xs: "length xs = prod_list as"
  shows "topology_walk_pre_order fuel g (get_topology_best_pus_number g) root None None 0 (xs, 0) =
    Some (True, map ids [0..<prod_list as], prod_list as)"
proof -
  let ?put = "\<lambda>z (b, i). do { b \<leftarrow> aput b i (z :: u32); Some (b, i + 1) }"
  have "get_topology_best_pus_number g v from e l s = map_option (\<lambda>s. (True, s))
      (if v_type (vertices g ! v) = GRAPH_ELTYPE_PU then ?put (v_id (vertices g ! v)) s else Some s)"
    if "v < length (vertices g)" for v "from" e l s
  proof -
    obtain b i where s: "s = (b, i)" by (cases s)
    show ?thesis using that unfolding s get_topology_best_pus_number_def
      by (cases "aput b i (v_id (vertices g ! v))") simp_all
  qed
  from walk_pus[OF hw len this] show ?thesis
    using fill_array[of "map ids [0..<prod_list as]" xs] xs by simp
qed

text \<open>What the analysis says of a tree with arities \<open>as\<close> and ids \<open>ids\<close>, and of a page size \<open>2 ^ b\<close>.\<close>

definition analysed_tree :: "graph_t \<Rightarrow> (nat \<Rightarrow> u32) \<Rightarrow> nat list \<Rightarrow> nat \<Rightarrow> topology_t \<Rightarrow> bool" where
  "analysed_tree g ids as root t \<longleftrightarrow> t_graph t = g \<and> t_root t = root \<and> pu_number t = prod_list as \<and> n_levels t = Suc (length as) \<and>
     t_arities t = map of_nat as @ [0] \<and>
     take (length as) (link_weights t) = map (\<lambda>k. 2 ^ (length as - k)) [0..<length as] \<and>
     best_pus t = map ids [0..<prod_list as] \<and>
     nobjs_per_level t = map (\<lambda>i. of_nat (prod_list (take i as))) [0..<Suc (length as)] \<and>
     n_numa_nodes t = 1 \<and> n_pus_per_numa_node t = prod_list as \<and> pus_of_numa_node t = [map ids [0..<prod_list as]] \<and>
     pus_to_numa_node t = replicate (prod_list as) 0 \<and>
     (\<forall>u v. is_pu g u \<and> is_pu g v \<longrightarrow>
        (\<exists>x. libmapping_topology_dist_pus (dist_pus_dim_log t) (dist_pus t) (pu_id g u) (pu_id g v) = Some x \<and>
           shortest (n_vertices g) (link_weight g) u v (unat x)))"

definition paged :: "nat \<Rightarrow> topology_t \<Rightarrow> bool" where
  "paged b t \<longleftrightarrow> page_size t = 2 ^ b \<and> page_shift t = of_nat b \<and> offset_addr_mask t = 2 ^ b - 1 \<and> page_addr_mask t = NOT (2 ^ b - 1)"

text \<open>In the module, pages have 4096 bytes.\<close>

definition analysed :: "graph_t \<Rightarrow> (nat \<Rightarrow> u32) \<Rightarrow> nat list \<Rightarrow> nat \<Rightarrow> topology_t \<Rightarrow> bool" where
  "analysed g ids as root t \<longleftrightarrow> analysed_tree g ids as root t \<and>
     page_size t = 4096 \<and> page_shift t = 12 \<and> offset_addr_mask t = 4095 \<and> page_addr_mask t = NOT 4095"

lemma analysed_pages: "analysed g ids as root t \<longleftrightarrow> analysed_tree g ids as root t \<and> paged 12 t"
  by (simp add: analysed_def paged_def)

lemma log2_power:
  assumes "b \<le> 30"
  shows "libmapping_get_log2 (2 ^ b) = Some (of_nat b)"
proof -
  have u: "unat (2 ^ b :: u64) = 2 ^ b" using assms by (simp add: unat_exp)
  have "log2_loop (2 ^ b) (of_nat 0) = Some (of_nat b)"
  proof (rule log2_run[OF assms])
    fix i :: nat assume "i < b"
    then show "2 ^ i < unat (2 ^ b :: u64)" unfolding u by (rule power_strict_increasing) simp
  qed (use u in simp_all)
  then show ?thesis by (simp only: libmapping_get_log2_def Num.of_nat_simps(1))
qed

text \<open>A page size that is a power of two below \<open>2 ^ 31\<close> keeps its value in all the widths it goes through.\<close>

lemma ucast_power:
  assumes "b \<le> 30"
  shows "(ucast (2 ^ b :: u64) :: u32) = 2 ^ b" "(ucast (2 ^ b :: u32) :: u64) = 2 ^ b" "(ucast (2 ^ b - 1 :: u32) :: u64) = 2 ^ b - 1"
    "(ucast (of_nat b :: u8) :: u32) = of_nat b"
proof -
  have b: "(2 :: nat) ^ b \<le> 2 ^ 30" using assms by (intro power_increasing) simp_all
  have nats: "unat (of_nat n :: u32) = n" "unat (of_nat n :: u64) = n" if "n \<le> 2 ^ 30" for n
    using that by (simp_all add: unat_of_nat)
  have le: "(2 :: nat) ^ b - 1 \<le> 2 ^ 30" "b \<le> 2 ^ 30" using b assms by simp_all
  have p: "(2 ^ b :: u64) = of_nat (2 ^ b)" "(2 ^ b :: u32) = of_nat (2 ^ b)"
    "(of_nat (2 ^ b) :: u64) - 1 = of_nat (2 ^ b - 1)" "(of_nat (2 ^ b) :: u32) - 1 = of_nat (2 ^ b - 1)"
    by (simp_all add: of_nat_diff)
  show "(ucast (2 ^ b :: u64) :: u32) = 2 ^ b" "(ucast (2 ^ b :: u32) :: u64) = 2 ^ b" "(ucast (2 ^ b - 1 :: u32) :: u64) = 2 ^ b - 1"
    unfolding p word_unat_eq_iff using nats[OF b] nats[OF le(1)] b assms by (simp_all only: unsigned_ucast_eq) (simp_all add: take_bit_nat_eq_self_iff)
  have "unat (of_nat b :: u8) = b" using assms by (simp add: unat_of_nat)
  then show "(ucast (of_nat b :: u8) :: u32) = of_nat b"
    unfolding word_unat_eq_iff using nats(1)[OF le(2)] assms by (simp add: unsigned_ucast_eq take_bit_nat_eq_self_iff)
qed

lemma analysis_ok:
  assumes hw: "hardware g ids as 0" "length as < fuel" "length as \<le> 29" "tree_size as \<le> 2 ^ 15"
    and g: "n_vertices g = tree_size as" "length (vertices g) = n_vertices g" "used_edges g \<le> length (edges g)"
      "\<And>i. i < n_vertices g \<Longrightarrow> v_pos (vertices g ! i) = i"
    and alloc: "allocates alloc"
    and ids: "\<And>n. n < prod_list as \<Longrightarrow> unat (ids n) < prod_list as" "inj_on ids {0..<prod_list as}" and b: "b \<le> 30"
  shows "wp (topology_analysis fuel alloc junk_j (2 ^ b) None g 0) (\<lambda>t. analysed_tree g ids as 0 t \<and> paged b t)"
proof -
  let ?P = "prod_list as"
  from hw(1) have t: "represents g None as 0" "hw_typed g ids None as 0 0" "\<forall>a \<in> set as. 0 < a" by (auto simp: hardware_def)
  have len: "0 + tree_size as \<le> length (vertices g)" using g(1,2) by simp
  have P: "0 < ?P" "?P \<le> 2 ^ 15" using prod_pos[OF t(3)] prod_le_tree_size[of as] hw(4) by auto
  obtain bp lw where allocs: "alloc ?P = Some bp" "length bp = ?P" "alloc (Suc (length as)) = Some lw" "length lw = Suc (length as)"
    using alloc unfolding allocates_def by blast
  have fw: "fw_graph g" by (rule tree_fw_graph[OF t(1) g(1,2,3) hw(3,4) g(4)])
  have pids: "pu_ids_ok g ?P" by (rule tree_pu_ids[OF t(2) g(1) ids])
  obtain dim lgp dp where fl: "floyd_warshall alloc g ?P = Some (dim, lgp, dp)" "?P \<le> 2 ^ lgp" "grid lgp dp"
    and short: "\<forall>u v. is_pu g u \<and> is_pu g v \<longrightarrow> shortest (n_vertices g) (link_weight g) u v (dval lgp dp (pu_id g u) (pu_id g v))"
    using floyd_warshall_ok[OF fw P alloc pids] unfolding wp_iff split_paired_Ex prod.case by blast
  have dist: "\<exists>x. libmapping_topology_dist_pus lgp dp (pu_id g u) (pu_id g v) = Some x \<and> shortest (n_vertices g) (link_weight g) u v (unat x)"
    if uv: "is_pu g u \<and> is_pu g v" for u v
  proof -
    have "pu_id g u < 2 ^ lgp" "pu_id g v < 2 ^ lgp" using pids uv fl(2) by (auto simp: pu_ids_ok_def intro: less_le_trans)
    then have "libmapping_topology_dist_pus lgp dp (pu_id g u) (pu_id g v) = Some (dp ! (pu_id g u * 2 ^ lgp + pu_id g v))"
      using fl(3) by (simp add: libmapping_topology_dist_pus_def dget_eq)
    moreover have "shortest (n_vertices g) (link_weight g) u v (unat (dp ! (pu_id g u * 2 ^ lgp + pu_id g v)))"
      using short uv unfolding dval_def by blast
    ultimately show ?thesis by blast
  qed
  note pages = ucast_power[OF b]
  have "?P < 2 ^ 32" using P(2) by simp
  note count = count_objects_ok[OF t(3) this allocs(4)]
  have lw: "length as \<le> length lw" using allocs(4) by simp
  have row: "length (map ids [0..<?P]) = ?P" by simp
  have numa: "numa_of_pus alloc ?P 1 ?P [map ids [0..<?P]] = Some (replicate ?P 0)" by (rule numa_of_pus_ok[OF alloc ids])
  show ?thesis
    unfolding topology_analysis_eq walk_pu_number[OF hw(1,2) len] levels_ok[OF hw(1,2)] allocs(1,3) Option.bind.bind_lunit prod.case
      walk_best_pus[OF hw(1,2) len allocs(2)] Let_def pages(1,2) log2_power[OF b] add_0 arities_ok[OF hw(1,2) allocs(4)]
      link_weights_ok[OF hw(1,2) lw g(3)] count numa_rows_ok[OF hw(1,2) len alloc row] numa fl(1) wp_Some
    using dist pages(3,4) by (simp add: analysed_tree_def paged_def)
qed

end
