(* ===== verification/Cdsm_Optimize.thy ===== *)
theory Cdsm_Optimize
  imports Cdsm_Hwloc Cdsm_Analysis
begin

text \<open>
  Optimising the topology, \<open>optimize_topology_\<close> and \<open>optimize_topology\<close> in \<open>src/libmapping/topology.c\<close>: a copy of the
  tree without the vertices that have a single child. The module has the code, but \<open>libmapping_topology_analysis\<close>
  returns before it calls it.

  \<open>optimized\<close> is what the code computes, as a function on trees. The weight of the edges that are skipped is added
  to the edges below the next vertex that is kept, not to the edge above it.
\<close>

section \<open>The code\<close>

text \<open>A sum of weights, which are \<open>int64_t\<close>.\<close>

definition add64 :: "int \<Rightarrow> int \<Rightarrow> int option" where
  "add64 a b = (if - (2 ^ 63) \<le> a + b \<and> a + b < 2 ^ 63 then Some (a + b) else None)"

text \<open>
  \<open>fuel\<close> bounds the depth of the recursion over the graph \<open>g\<close> of \<open>t\<close>; the number of vertices is enough. The assertion
  that a vertex between the root and the units has more than one edge is left out: in the module a failed assertion
  prints a message and goes on. It holds in the trees of the theorems, where such a vertex has a parent and a child.
\<close>

primrec optimize_topology_rec ::
  "nat \<Rightarrow> graph_t \<Rightarrow> nat \<Rightarrow> nat option \<Rightarrow> int \<Rightarrow> graph_t \<Rightarrow> (nat \<times> graph_t) option" where
  "optimize_topology_rec 0 g obj from ac_weight opt = None"
| "optimize_topology_rec (Suc fuel) g obj from ac_weight opt = do {
     x \<leftarrow> aget (vertices g) obj;
     if v_type x \<noteq> GRAPH_ELTYPE_ROOT \<and> v_type x \<noteq> GRAPH_ELTYPE_PU \<and> arity x = 2 then do {
       (e0, w0) \<leftarrow> read_slot x 0;
       (e, w) \<leftarrow> (if Some w0 \<noteq> from then Some (e0, w0) else read_slot x 1);
       ed \<leftarrow> aget (edges g) e;
       ac \<leftarrow> add64 ac_weight (e_weight ed);
       optimize_topology_rec fuel g w (Some obj) ac opt
     } else do {
       (v, opt) \<leftarrow> new_vertex (v_type x) (v_id x) opt;
       opt \<leftarrow> foldM (\<lambda>i opt. do {
         (e, w) \<leftarrow> read_slot x i;
         if Some w \<noteq> from then do {
           (link, opt) \<leftarrow> optimize_topology_rec fuel g w (Some obj) 0 opt;
           ed \<leftarrow> aget (edges g) e;
           ac \<leftarrow> add64 ac_weight (e_weight ed);
           link_child v link ac opt
         } else Some opt
       }) [0..<arity x] opt;
       Some (v, opt)
     }
   }"

definition optimize_topology ::
  "nat \<Rightarrow> bool \<Rightarrow> vertex_t \<Rightarrow> edge_t \<Rightarrow> graph_t \<Rightarrow> nat \<Rightarrow> (nat \<times> graph_t) option" where
  "optimize_topology fuel allocated junk_v junk_e g root = do {
     opt \<leftarrow> libmapping_graph_init allocated junk_v junk_e (n_vertices g) (n_vertices g - 1);
     optimize_topology_rec fuel g root None 0 opt
   }"

section \<open>The tree that it computes\<close>

definition skipped :: "graph_eltype_t \<Rightarrow> 'a list \<Rightarrow> bool" where
  "skipped ty kids \<longleftrightarrow> ty \<noteq> GRAPH_ELTYPE_ROOT \<and> ty \<noteq> GRAPH_ELTYPE_PU \<and> length kids = 1"

lemma skipped_hd: "skipped ty kids \<Longrightarrow> hd kids \<in> set kids"
  by (cases kids) (simp_all add: skipped_def)

function optimized :: "int \<Rightarrow> topo_tree \<Rightarrow> topo_tree" where
  "optimized ac (Node ty i kids) =
     (if skipped ty kids then optimized (ac + fst (hd kids)) (snd (hd kids))
      else Node ty i (map (\<lambda>wk. (ac + fst wk, optimized 0 (snd wk))) kids))"
  by pat_completeness auto

termination
  by (relation "measure (\<lambda>(ac, t). nodes t)") (auto dest: skipped_hd nodes_kid simp del: nodes.simps)

declare optimized.simps [simp del]

lemmas optimized_skip = optimized.simps [THEN trans, OF if_P]
lemmas optimized_keep = optimized.simps [THEN trans, OF if_not_P]

text \<open>Every path from the root weighs at most \<open>b\<close>, and no edge less than nothing.\<close>

fun light :: "int \<Rightarrow> topo_tree \<Rightarrow> bool" where
  "light b (Node ty i kids) \<longleftrightarrow> 0 \<le> b \<and> (\<forall>wk \<in> set kids. 0 \<le> fst wk \<and> light (b - fst wk) (snd wk))"

lemma light_nonneg: "light b t \<Longrightarrow> 0 \<le> b"
  by (cases t) simp

lemma light_mono: "light b t \<Longrightarrow> b \<le> b' \<Longrightarrow> light b' t"
proof (induction b t arbitrary: b' rule: light.induct)
  case (1 b ty i kids)
  then show ?case by fastforce
qed

lemma optimized_nodes: "nodes (optimized ac t) \<le> nodes t"
proof (induction ac t rule: optimized.induct)
  case (1 ac ty i kids)
  show ?case
  proof (cases "skipped ty kids")
    case True
    then show ?thesis
      using 1(1) nodes_kid[OF skipped_hd, of ty kids ty i] by (simp add: optimized_skip)
  next
    case False
    have "nodes (optimized 0 (snd wk)) \<le> nodes (snd wk)" if "wk \<in> set kids" for wk using 1(2)[OF False that] .
    then show ?thesis using False by (simp add: optimized_keep nodes.simps comp_def sum_list_mono)
  qed
qed

section \<open>The code computes it\<close>

definition weight_max :: int where
  "weight_max = 2 ^ 63 - 1"

lemma add64_ok: "0 \<le> a \<Longrightarrow> 0 \<le> b \<Longrightarrow> a + b \<le> weight_max \<Longrightarrow> add64 a b = Some (a + b)"
  by (simp add: add64_def weight_max_def)

text \<open>The slots of a vertex: its children, and after them its parent.\<close>

lemma tree_at_slot:
  assumes "tree_at g hi par (Node ty i kids) u" "j < length kids"
  obtains e c where "read_slot (vertices g ! u) j = Some (e, c)" "Some c \<noteq> par" "e < length (edges g)"
    "e_weight (edges g ! e) = fst (kids ! j)" "tree_at g hi (Some u) (snd (kids ! j)) c"
proof -
  from assms have up: "\<forall>p. par = Some p \<longrightarrow> p < u" and ar: "length kids \<le> length (linked (vertices g ! u))"
    and "\<exists>e c. linked (vertices g ! u) ! j = Some (e, c) \<and> e < length (edges g) \<and>
      e_weight (edges g ! e) = fst (kids ! j) \<and> u < c \<and> tree_at g hi (Some u) (snd (kids ! j)) c"
    unfolding tree_at_simps by (blast, simp, blast)
  then obtain e c where k: "linked (vertices g ! u) ! j = Some (e, c)" "e < length (edges g)"
      "e_weight (edges g ! e) = fst (kids ! j)" "u < c" "tree_at g hi (Some u) (snd (kids ! j)) c" by blast
  have "Some c \<noteq> par" using up k(4) by auto
  with k ar assms(2) show thesis by (intro that[of e c]) (simp_all add: read_slot_def)
qed

lemma tree_at_parent:
  assumes "tree_at g hi (Some p) (Node ty i kids) u"
  obtains e where "read_slot (vertices g ! u) (length kids) = Some (e, p)"
  using assms unfolding tree_at_simps by (auto simp: read_slot_def)

lemma tree_at_loop:
  assumes t: "tree_at g hi par (Node ty i kids) u"
    and parent: "\<And>j s. par \<noteq> None \<Longrightarrow> j = length kids \<Longrightarrow> f j s = Some s"
    and I: "I 0 s" "\<And>j s. j < length kids \<Longrightarrow> I j s \<Longrightarrow> wp (f j s) (I (Suc j))"
  shows "wp (foldM f [0..<arity (vertices g ! u)] s) (I (length kids))"
proof -
  have "wp (foldM f [0..<length kids] s) (I (length kids))" by (rule wp_for0[where I = I]) (use I in auto)
  moreover have "arity (vertices g ! u) = length kids + (if par = None then 0 else 1)" using t by (simp add: tree_at_simps)
  ultimately show ?thesis using parent by (cases par) (auto simp: foldM_append wp_iff)
qed

lemma optimize_ok:
  assumes "tree_at g hi par t u" "par = None \<longrightarrow> t_type t = GRAPH_ELTYPE_ROOT" "nodes t \<le> fuel"
    and "graph_wf opt" "v = used_vertices opt" "v + nodes (optimized ac t) \<le> n_vertices opt"
    and "used_edges opt + nodes (optimized ac t) \<le> Suc (n_edges opt)" "0 \<le> ac" "light (weight_max - ac) t"
  shows "wp (optimize_topology_rec fuel g u par ac opt) (built (optimized ac t) v opt)"
  using assms
proof (induction ac t arbitrary: fuel par u opt v rule: optimized.induct)
  case (1 ac ty i kids)
  obtain n where fuel: "fuel = Suc n" using 1(5) nodes_pos[of "Node ty i kids"] by (cases fuel) auto
  from 1(3) have x: "u < length (vertices g)" "v_type (vertices g ! u) = ty" "v_id (vertices g ! u) = i"
    "arity (vertices g ! u) = length kids + (if par = None then 0 else 1)" by (simp_all add: tree_at_simps)
  have kid_fuel: "nodes (snd wk) \<le> n" if "wk \<in> set kids" for wk using nodes_kid[OF that, of ty i] 1(5) fuel by simp
  show ?case
  proof (cases "skipped ty kids")
    case True
    then have len: "length kids = 1" "kids ! 0 = hd kids" "hd kids \<in> set kids" and cond: "ty \<noteq> GRAPH_ELTYPE_ROOT" "ty \<noteq> GRAPH_ELTYPE_PU"
      using skipped_hd[OF True] by (cases kids; auto simp: skipped_def)+
    then have "par \<noteq> None" using 1(4) by auto
    then have two: "arity (vertices g ! u) = 2" using x(4) len(1) by simp
    obtain e c where slot: "read_slot (vertices g ! u) 0 = Some (e, c)" "Some c \<noteq> par" "e < length (edges g)"
      "e_weight (edges g ! e) = fst (hd kids)" "tree_at g hi (Some u) (snd (hd kids)) c"
      using tree_at_slot[OF 1(3), of 0] len by (metis zero_less_one)
    have w: "0 \<le> fst (hd kids)" "light (weight_max - (ac + fst (hd kids))) (snd (hd kids))"
      using 1(11) len(3) by (auto simp: algebra_simps)
    then have add: "add64 ac (fst (hd kids)) = Some (ac + fst (hd kids))"
      using 1(10) light_nonneg[OF w(2)] by (intro add64_ok) simp_all
    have "wp (optimize_topology_rec n g c (Some u) (ac + fst (hd kids)) opt) (built (optimized ac (Node ty i kids)) v opt)"
      unfolding optimized_skip[OF True]
      by (rule 1(1)[OF True slot(5)]) (use 1(6-10) w kid_fuel[OF len(3)] optimized_skip[OF True] in simp_all)
    then show ?thesis using fuel x cond two slot add by simp
  next
    case False
    let ?kids = "map (\<lambda>wk. (ac + fst wk, optimized 0 (snd wk))) kids"
    note opt_t = optimized_keep[OF False]
    have keep: "\<not> (ty \<noteq> GRAPH_ELTYPE_ROOT \<and> ty \<noteq> GRAPH_ELTYPE_PU \<and> arity (vertices g ! u) = 2)"
      using False 1(4) x(4) by (auto simp: skipped_def split: if_splits)
    define body where "body = (\<lambda>j opt. do {
         (e, w) \<leftarrow> read_slot (vertices g ! u) j;
         if Some w \<noteq> par then do {
           (link, opt) \<leftarrow> optimize_topology_rec n g w (Some u) 0 opt;
           ed \<leftarrow> aget (edges g) e;
           ac \<leftarrow> add64 ac (e_weight ed);
           link_child v link ac opt
         } else Some opt
       })"
    have room: "v + nodes (Node ty i ?kids) \<le> n_vertices opt" "used_edges opt + nodes (Node ty i ?kids) \<le> Suc (n_edges opt)"
      using 1(8,9) unfolding opt_t by simp_all
    have v: "v < n_vertices opt" using room(1) nodes_pos[of "Node ty i ?kids"] by simp
    obtain opt1 where new: "new_vertex ty i opt = Some (v, opt1)" and start: "tree_growing ty i ?kids v 0 opt opt1"
      using new_vertex_ok[OF 1(6,7) v, of ty i ?kids] by (auto elim!: wpE)
    have "wp (foldM body [0..<arity (vertices g ! u)] opt1) (tree_growing ty i ?kids v (length kids) opt)"
    proof (rule tree_at_loop[OF 1(3), where I = "\<lambda>j. tree_growing ty i ?kids v j opt", OF _ start])
      fix j s assume "par \<noteq> None" "j = length kids"
      then obtain p e where "par = Some p" "read_slot (vertices g ! u) j = Some (e, p)"
        using tree_at_parent 1(3) by (metis option.exhaust)
      then show "body j s = Some s" by (simp add: body_def)
    next
      fix j opt2 assume j: "j < length kids" and grow: "tree_growing ty i ?kids v j opt opt2"
      let ?wk = "kids ! j"
      have wk: "?wk \<in> set kids" "?kids ! j = (ac + fst ?wk, optimized 0 (snd ?wk))" using j by simp_all
      obtain e c where slot: "read_slot (vertices g ! u) j = Some (e, c)" "Some c \<noteq> par" "e < length (edges g)"
        "e_weight (edges g ! e) = fst ?wk" "tree_at g hi (Some u) (snd ?wk) c" using tree_at_slot[OF 1(3) j] by blast
      have w: "0 \<le> fst ?wk" "light (weight_max - ac - fst ?wk) (snd ?wk)" using 1(11) wk(1) by auto
      then have add: "add64 ac (fst ?wk) = Some (ac + fst ?wk)"
        using 1(10) light_nonneg[OF w(2)] by (intro add64_ok) simp_all
      have light: "light (weight_max - 0) (snd ?wk)" by (rule light_mono[OF w(2)]) (use w(1) 1(10) in simp)
      have jk: "j < length ?kids" using j by simp
      note room2 = tree_growing_room[OF grow jk room, unfolded wk(2) snd_conv]
      have "wp (optimize_topology_rec n g c (Some u) 0 opt2) (built (optimized 0 (snd ?wk)) (used_vertices opt2) opt2)"
        by (rule 1(2)[OF False wk(1) slot(5)]) (use room2 light kid_fuel[OF wk(1)] in simp_all)
      then obtain l opt3 where run: "optimize_topology_rec n g c (Some u) 0 opt2 = Some (l, opt3)"
        and made: "built (optimized 0 (snd ?wk)) (used_vertices opt2) opt2 (l, opt3)" by (auto simp: wp_iff)
      have "wp (link_child v l (ac + fst ?wk) opt3) (tree_growing ty i ?kids v (Suc j) opt)"
        using link_child_grows[OF grow jk _ room] made unfolding wk(2) by simp
      then show "wp (body j opt2) (tree_growing ty i ?kids v (Suc j) opt)" using slot run add by (simp add: body_def)
    qed
    then obtain opt' where loop: "foldM body [0..<arity (vertices g ! u)] opt1 = Some opt'"
      and grown: "tree_growing ty i ?kids v (length ?kids) opt opt'" by (auto elim!: wpE)
    have "optimize_topology_rec fuel g u par ac opt = Some (v, opt')"
      unfolding fuel optimize_topology_rec.simps aget_Some[OF x(1)] Option.bind.bind_lunit x(2,3) if_not_P[OF keep] new
      using loop by (simp add: body_def)
    then show ?thesis using tree_built[OF grown v room(1)] by (simp add: opt_t)
  qed
qed

section \<open>What the optimised tree keeps\<close>

text \<open>The processing units from left to right.\<close>

fun units :: "topo_tree \<Rightarrow> u32 list" where
  "units (Node ty i kids) = (if ty = GRAPH_ELTYPE_PU then [i] else []) @ concat (map (\<lambda>wk. units (snd wk)) kids)"

text \<open>No vertex below the root has one child, unless it is a processing unit.\<close>

fun compact :: "topo_tree \<Rightarrow> bool" where
  "compact (Node ty i kids) \<longleftrightarrow> \<not> skipped ty kids \<and> (\<forall>wk \<in> set kids. compact (snd wk))"

text \<open>The weights of the paths to the processing units, from left to right.\<close>

fun path_weights :: "int \<Rightarrow> topo_tree \<Rightarrow> int list" where
  "path_weights d (Node ty i kids) = (if ty = GRAPH_ELTYPE_PU then [d] else []) @ concat (map (\<lambda>wk. path_weights (d + fst wk) (snd wk)) kids)"

text \<open>No processing unit is the only child of a vertex.\<close>

fun forked :: "topo_tree \<Rightarrow> bool" where
  "forked (Node ty i kids) \<longleftrightarrow> (skipped ty kids \<longrightarrow> t_type (snd (hd kids)) \<noteq> GRAPH_ELTYPE_PU) \<and> (\<forall>wk \<in> set kids. forked (snd wk))"

lemma skipped_kids: "skipped ty kids \<Longrightarrow> kids = [hd kids]"
  by (cases kids) (simp_all add: skipped_def)

lemma optimized_units: "units (optimized ac t) = units t"
proof (induction ac t rule: optimized.induct)
  case (1 ac ty i kids)
  show ?case
  proof (cases "skipped ty kids")
    case True
    then have "units (Node ty i kids) = units (snd (hd kids))" by (subst skipped_kids) (auto simp: skipped_def)
    then show ?thesis using 1(1) True by (simp add: optimized_skip)
  next
    case False
    then show ?thesis using 1(2) by (simp add: optimized_keep comp_def cong: map_cong)
  qed
qed

lemma optimized_compact: "compact (optimized ac t)"
proof (induction ac t rule: optimized.induct)
  case (1 ac ty i kids)
  then show ?case by (cases "skipped ty kids") (auto simp: optimized_skip optimized_keep, auto simp: skipped_def)
qed

lemma optimized_paths:
  assumes "forked t" "t_type t = GRAPH_ELTYPE_PU \<longrightarrow> ac = 0"
  shows "path_weights d (optimized ac t) = path_weights (d + ac) t"
  using assms
proof (induction ac t arbitrary: d rule: optimized.induct)
  case (1 ac ty i kids)
  show ?case
  proof (cases "skipped ty kids")
    case True
    then have "path_weights (d + ac) (Node ty i kids) = path_weights (d + ac + fst (hd kids)) (snd (hd kids))"
      by (subst skipped_kids) (auto simp: skipped_def)
    then show ?thesis
      using 1(1)[OF True] 1(3) True skipped_hd[OF True] by (simp add: optimized_skip add.assoc)
  next
    case False
    have "path_weights (d + (ac + fst wk)) (optimized 0 (snd wk)) = path_weights (d + ac + fst wk) (snd wk)" if "wk \<in> set kids" for wk
      using 1(2)[OF False that, of "d + (ac + fst wk)"] 1(3) that by (simp add: add.assoc)
    then show ?thesis using False 1(4) by (auto simp: optimized_keep comp_def cong: map_cong)
  qed
qed

text \<open>
  The distances between units change all the same: the edge above a core moves below it, where it separates the
  units of the core. And the edge above a unit that is an only child is lost.
\<close>

lemma optimized_moves_weights:
  "optimized 0 (Node GRAPH_ELTYPE_ROOT 0 [(8, Node GRAPH_ELTYPE_CACHE 0 [(4, Node GRAPH_ELTYPE_CORE 0
      [(1, Node GRAPH_ELTYPE_PU 0 []), (1, Node GRAPH_ELTYPE_PU 1 [])])])]) =
   Node GRAPH_ELTYPE_ROOT 0 [(8, Node GRAPH_ELTYPE_CORE 0 [(5, Node GRAPH_ELTYPE_PU 0 []), (5, Node GRAPH_ELTYPE_PU 1 [])])]"
  "optimized 0 (Node GRAPH_ELTYPE_ROOT 0 [(8, Node GRAPH_ELTYPE_CORE 0 [(4, Node GRAPH_ELTYPE_PU 0 [])])]) =
   Node GRAPH_ELTYPE_ROOT 0 [(8, Node GRAPH_ELTYPE_PU 0 [])]"
  by (simp_all add: optimized.simps skipped_def)

section \<open>Properties\<close>

text \<open>The roots of trees in the graph \<open>g\<close> that the optimisation can start from.\<close>

interpretation optimizer: tree_builder "\<lambda>(u, t). optimize_topology_rec fuel g u None 0" "\<lambda>(u, t). optimized 0 t"
  "\<lambda>(u, t). tree_at g hi None t u \<and> t_type t = GRAPH_ELTYPE_ROOT \<and> nodes t \<le> fuel \<and> light weight_max t"
  for fuel :: nat and g :: graph_t and hi :: nat
  by unfold_locales (auto intro!: optimize_ok)

lemma optimize_topology_ok:
  assumes "tree_at g hi None t root" "t_type t = GRAPH_ELTYPE_ROOT" "nodes t \<le> n_vertices g" "nodes t \<le> fuel" "light weight_max t"
  shows "wp (optimize_topology fuel True jv je g root) (\<lambda>(v, opt). v = 0 \<and> graph_wf opt \<and> used_vertices opt = nodes (optimized 0 t) \<and>
    n_vertices opt = n_vertices g \<and> tree_at opt (used_vertices opt) None (optimized 0 t) 0)"
  using optimizer.in_new_graph[of g hi fuel "(root, t)" "n_vertices g" jv je] assms optimized_nodes[of 0 t]
  unfolding optimize_topology_def by (auto elim!: wp_mono)

text \<open>
  C23: optimising a topology. On a graph that shows a tree whose paths weigh less than two to the 63, the copy has room
  for the result, which shows the tree without the vertices of a single child: the same processing units from left to
  right, no vertex below the root with a single child that is not a unit, and, when no unit was an only child, paths
  from the root to the units of the same weights.
\<close>
theorem optimize_topology_spec:
  assumes "tree_at g hi None t root" "t_type t = GRAPH_ELTYPE_ROOT" "nodes t \<le> n_vertices g" "nodes t \<le> fuel" "light weight_max t"
  shows "\<exists>opt. optimize_topology fuel True jv je g root = Some (0, opt) \<and> used_vertices opt \<le> nodes t \<and>
    tree_at opt (used_vertices opt) None (optimized 0 t) 0 \<and> units (optimized 0 t) = units t \<and> compact (optimized 0 t) \<and>
    (forked t \<longrightarrow> path_weights 0 (optimized 0 t) = path_weights 0 t)"
proof -
  obtain v opt where "optimize_topology fuel True jv je g root = Some (v, opt)" "v = 0" "used_vertices opt = nodes (optimized 0 t)"
    "tree_at opt (used_vertices opt) None (optimized 0 t) 0"
    using optimize_topology_ok[OF assms, of jv je] by (auto simp: wp_iff)
  then show ?thesis using optimized_nodes[of 0 t] optimized_units optimized_compact optimized_paths[of t 0 0] by auto
qed

definition demo_machine :: hwloc_obj where
  "demo_machine = Obj HWLOC_OBJ_MACHINE 0 [Obj HWLOC_OBJ_NODE 0 [Obj HWLOC_OBJ_CORE 0 [Obj HWLOC_OBJ_PU 0 [], Obj HWLOC_OBJ_PU 2 []]],
     Obj HWLOC_OBJ_NODE 1 [Obj HWLOC_OBJ_CORE 1 [Obj HWLOC_OBJ_PU 1 [], Obj HWLOC_OBJ_PU 3 []]]]"

definition blank_vertex :: vertex_t where
  "blank_vertex = \<lparr>v_type = GRAPH_ELTYPE_UNDEFINED, v_weight = 0, v_id = 0, v_pos = 0, linked = [], arity = 0\<rparr>"

definition blank_edge :: edge_t where
  "blank_edge = \<lparr>e_type = GRAPH_ELTYPE_UNDEFINED, e_weight = 0, e_id = 0, e_src = 0, e_dest = 0\<rparr>"

theorem optimize_topology_spec_witness:
  "\<exists>g opt. hwloc_topology True blank_vertex blank_edge demo_machine = Some (0, g) \<and> optimize_topology 9 True blank_vertex blank_edge g 0 = Some (0, opt) \<and>
    units (optimized 0 (hwloc_tree demo_machine)) = [0, 2, 1, 3] \<and>
    path_weights 0 (optimized 0 (hwloc_tree demo_machine)) = [101, 101, 101, 101]"
proof -
  let ?t = "hwloc_tree demo_machine"
  obtain g where g: "hwloc_topology True blank_vertex blank_edge demo_machine = Some (0, g)" "n_vertices g = nodes ?t" "tree_at g (n_vertices g) None ?t 0"
    using hwloc_topology_ok[of blank_vertex blank_edge demo_machine] by (auto simp: wp_iff)
  have t: "t_type ?t = GRAPH_ELTYPE_ROOT" "nodes ?t \<le> n_vertices g" "nodes ?t \<le> 9" "light weight_max ?t"
    using g(2) by (simp_all add: demo_machine_def nodes.simps weight_max_def)
  have "forked ?t" "units ?t = [0, 2, 1, 3]" "path_weights 0 ?t = [101, 101, 101, 101]"
    by (simp_all add: demo_machine_def skipped_def)
  with optimize_topology_spec[OF g(3) t, of blank_vertex blank_edge] g(1) show ?thesis by auto
qed

end
