(* ===== verification/Cdsm_Machine.thy ===== *)
theory Cdsm_Machine
  imports Cdsm_Optimize
begin

text \<open>
  The topology of a machine that is given by the arities of its levels: the steps that \<open>spcd_map_func\<close>
  (\<open>src/map.c\<close>) and \<open>libmapping_topology_init\<close> (\<open>src/libmapping/topology.c\<close>) share, and the latter function, which
  the library has outside of the module. It takes the arities from the environment, and else asks hwloc, or the
  system for the number of processors. The environment's parser, hwloc and the system are parameters.
\<close>

section \<open>The code\<close>

text \<open>Counting, allocating, building, and making the first vertex the root.\<close>

definition machine_graph ::
  "bool \<Rightarrow> vertex_t \<Rightarrow> edge_t \<Rightarrow> nat list \<Rightarrow> u32 list option \<Rightarrow> bool \<Rightarrow> (nat \<times> graph_t) option" where
  "machine_graph allocated junk_v junk_e ars pus numa = do {
     let (npus, nvertices) = libmapping_get_n_pus_fake_topology ars (0, 0);
     g \<leftarrow> libmapping_graph_init allocated junk_v junk_e nvertices (nvertices - 1);
     (root, st) \<leftarrow> create_fake_topology 0 ars pus None numa \<lparr>fs_graph = g, fs_pu_id = 0, fs_numa_id = 0\<rparr>;
     st \<leftarrow> set_vertex root (\<lambda>x. x\<lparr>v_weight := 0\<rparr>) st;
     st \<leftarrow> set_vertex root (\<lambda>x. x\<lparr>v_type := GRAPH_ELTYPE_ROOT\<rparr>) st;
     Some (root, fs_graph st)
   }"

text \<open>
  \<open>te_arities\<close> and \<open>te_pus\<close> are the vectors of the environment variables, if they are set, and \<open>te_numa\<close> is the
  number of the third. \<open>te_hwloc\<close> is the machine of hwloc, when the library is compiled with it. \<open>te_page_size\<close> is the
  answer of \<open>sysconf\<close> for the size of a page. Outside of the module a failed assertion ends the program.
\<close>

record topo_env =
  te_arities :: "nat list option"
  te_pus :: "u32 list option"
  te_numa :: u32
  te_hwloc :: "hwloc_obj option"
  te_nprocs :: nat
  te_page_size :: u64
  te_allocated :: bool
  te_opt_allocated :: bool
  te_junk_vertex :: vertex_t
  te_junk_edge :: edge_t

definition topology_of_env :: "topo_env \<Rightarrow> (nat \<times> graph_t) option" where
  "topology_of_env env = (case te_arities env of
       Some ars \<Rightarrow> if ars = [] \<or> fst (libmapping_get_n_pus_fake_topology ars (0, 0)) = 0 then None
         else machine_graph (te_allocated env) (te_junk_vertex env) (te_junk_edge env) ars (te_pus env) (te_numa env \<noteq> 0)
     | None \<Rightarrow> (case te_hwloc env of
         Some obj \<Rightarrow> hwloc_topology (te_allocated env) (te_junk_vertex env) (te_junk_edge env) obj
       | None \<Rightarrow> machine_graph (te_allocated env) (te_junk_vertex env) (te_junk_edge env) [te_nprocs env] None False))"

definition libmapping_topology_init :: "nat \<Rightarrow> (nat \<Rightarrow> u32 list option) \<Rightarrow> nat \<Rightarrow> topo_env \<Rightarrow> topology_t option" where
  "libmapping_topology_init fuel alloc junk_j env = do {
     (root, g) \<leftarrow> topology_of_env env;
     libmapping_topology_analysis (te_opt_allocated env) fuel alloc junk_j (te_page_size env) g root
   }"

section \<open>The graph of a machine\<close>

lemma represents_root:
  assumes "represents g None as u" "same_below g g'" "arity (vertices g' ! u) = arity (vertices g ! u)"
    "linked (vertices g' ! u) = linked (vertices g ! u)"
    and "\<And>v. u < v \<Longrightarrow> v < u + tree_size as \<Longrightarrow> vertices g' ! v = vertices g ! v"
  shows "represents g' None as u"
proof -
  have node: "node_ok g' None u w kids" if ok: "node_ok g None u w kids" for w kids
  proof -
    have "node_ok (g'\<lparr>vertices := (vertices g')[u := vertices g ! u]\<rparr>) None u w kids"
    proof (rule node_ok_cong[OF ok])
      show "same_below g (g'\<lparr>vertices := (vertices g')[u := vertices g ! u]\<rparr>)"
        using assms(2) ok by (auto simp: same_below_def node_ok_def)
      show "vertices (g'\<lparr>vertices := (vertices g')[u := vertices g ! u]\<rparr>) ! u = vertices g ! u"
        using assms(2) ok by (simp add: same_below_def node_ok_def)
    qed
    moreover have "u < length (vertices g')" using assms(2) ok by (simp add: same_below_def node_ok_def)
    ultimately show ?thesis using assms(3,4) by (simp add: node_ok_def)
  qed
  show ?thesis
  proof (cases as)
    case Nil
    with assms(1) node show ?thesis by simp
  next
    case (Cons a as')
    have "represents g' (Some u) as' (Suc u + j * tree_size as')" if j: "j < a" for j
    proof (rule represents_cong[OF _ assms(2)])
      show "represents g (Some u) as' (Suc u + j * tree_size as')" using assms(1) j Cons by simp
      fix v assume "Suc u + j * tree_size as' \<le> v" "v < Suc u + j * tree_size as' + tree_size as'"
      with child_range[OF j, of u as'] Cons show "vertices g' ! v = vertices g ! v"
        by (intro assms(5)) auto
    qed
    with assms(1) node Cons show ?thesis by simp
  qed
qed

text \<open>The arities and the ids of the processing units that \<open>topo_init\<close> found.\<close>

definition machine_ok :: "nat list \<Rightarrow> u32 list \<Rightarrow> bool" where
  "machine_ok as pu \<longleftrightarrow> as \<noteq> [] \<and> length as \<le> 29 \<and> (\<forall>a \<in> set as. 0 < a) \<and> tree_size as \<le> 2 ^ 15 \<and>
     prod_list as \<le> length pu \<and> (\<forall>n < prod_list as. unat (pu ! n) < prod_list as) \<and>
     distinct (take (prod_list as) pu)"

lemma machine_graph_ok:
  assumes mach: "machine_ok as pu"
  shows "wp (machine_graph True jv je as (Some pu) False) (\<lambda>(root, g). root = 0 \<and> hardware g (\<lambda>n. pu ! n) as 0 \<and>
    n_vertices g = tree_size as \<and> length (vertices g) = n_vertices g \<and> used_edges g \<le> length (edges g) \<and>
    (\<forall>i < n_vertices g. v_pos (vertices g ! i) = i))"
proof -
  let ?nv = "tree_size as" and ?ids = "\<lambda>n. pu ! n"
  have as: "as \<noteq> []" "length as \<le> 29" "\<forall>a \<in> set as. 0 < a" "?nv \<le> 2 ^ 15" "prod_list as \<le> length pu"
    using mach by (auto simp: machine_ok_def)
  have counts: "libmapping_get_n_pus_fake_topology as (0, 0) = (prod_list as, ?nv)" using n_pus_eq[of as 0 0] by simp
  obtain g where g: "libmapping_graph_init True jv je ?nv (?nv - 1) = Some g"
    "graph_wf g" "n_vertices g = ?nv" "n_edges g = ?nv - 1" "used_vertices g = 0" "used_edges g = 0" "\<forall>i < ?nv. v_pos (vertices g ! i) = i"
    using graph_init_wf[OF tree_size_pos, of jv je as "?nv - 1"] by auto
  let ?st = "\<lparr>fs_graph = g, fs_pu_id = 0, fs_numa_id = 0\<rparr>"
  have "wp (create_fake_topology 0 as (Some pu) None False ?st) (created pu as 0 ?st)"
    by (rule create_ok) (use g as tree_size_pos[of as] in auto)
  then obtain r st1 where run: "create_fake_topology 0 as (Some pu) None False ?st = Some (r, st1)" and made: "created pu as 0 ?st (r, st1)"
    unfolding wp_iff split_paired_Ex by blast
  let ?g1 = "fs_graph st1"
  from made have g1: "r = 0" "graph_wf ?g1" "n_vertices ?g1 = ?nv" "n_edges ?g1 = ?nv - 1" "Suc (used_edges ?g1) = ?nv"
    "same_below g ?g1" "represents ?g1 None as 0" "typed ?g1 ?ids as 0 0"
    using g by (auto simp: created_def Let_def)
  have len: "length (vertices ?g1) = ?nv" "length (edges ?g1) = ?nv - 1" using g1(2-4) by (simp_all add: graph_wf_def)
  let ?x = "(vertices ?g1 ! 0)\<lparr>v_weight := 0, v_type := GRAPH_ELTYPE_ROOT\<rparr>"
  define g2 where "g2 = ?g1\<lparr>vertices := (vertices ?g1)[0 := ?x]\<rparr>"
  have pos: "0 < length (vertices ?g1)" using len(1) tree_size_pos[of as] by simp
  define st2 where "st2 = st1\<lparr>fs_graph := ?g1\<lparr>vertices := (vertices ?g1)[0 := (vertices ?g1 ! 0)\<lparr>v_weight := 0\<rparr>]\<rparr>\<rparr>"
  have sets: "set_vertex 0 (\<lambda>x. x\<lparr>v_weight := 0\<rparr>) st1 = Some st2"
    "set_vertex 0 (\<lambda>x. x\<lparr>v_type := GRAPH_ELTYPE_ROOT\<rparr>) st2 = Some (st1\<lparr>fs_graph := g2\<rparr>)"
    using pos by (simp_all add: set_vertex_def g2_def st2_def)
  have fs: "fs_graph (st1\<lparr>fs_graph := g2\<rparr>) = g2" by simp
  have rest: "vertices g2 ! v = vertices ?g1 ! v" if "0 < v" for v using that by (simp add: g2_def)
  have root: "vertices g2 ! 0 = ?x" using pos by (simp add: g2_def)
  have below: "same_below ?g1 g2" by (simp add: same_below_def g2_def)
  have rep: "represents g2 None as 0"
    by (rule represents_root[OF g1(7) below]) (use root rest in auto)
  have ty: "hw_typed g2 ?ids None as 0 0"
  proof (cases as)
    case (Cons a as')
    have "typed g2 ?ids as' (Suc 0 + j * tree_size as') (j * prod_list as')" if "j < a" for j
    proof (rule typed_cong)
      show "typed ?g1 ?ids as' (Suc 0 + j * tree_size as') (j * prod_list as')" using g1(8) that Cons by simp
    qed (use rest in auto)
    then show ?thesis using root Cons by (simp add: hw_typed_def)
  qed (use as(1) in simp)
  have hw: "hardware g2 ?ids as 0" using as(1,3) rep ty by (simp add: hardware_def)
  have g2: "n_vertices g2 = ?nv" "length (vertices g2) = n_vertices g2" "used_edges g2 \<le> length (edges g2)"
    using g1(3,5) len by (simp_all add: g2_def)
  have vpos: "v_pos (vertices g2 ! i) = i" if "i < n_vertices g2" for i
    using same_below_trans[OF g1(6) below] g(7) that g2(1) g(2,3) by (auto simp: same_below_def graph_wf_def)
  have "machine_graph True jv je as (Some pu) False = Some (0, g2)"
    unfolding machine_graph_def counts Let_def prod.case g(1) Option.bind.bind_lunit run g1(1) sets fs by simp
  then show ?thesis using hw g2 vpos by simp
qed

lemma machine_analysis_ok:
  assumes "machine_ok as pu" "length as < fuel" "allocates alloc" "b \<le> 30"
  shows "wp (do { (root, g) \<leftarrow> machine_graph True jv je as (Some pu) False;
      libmapping_topology_analysis True fuel alloc junk_j (2 ^ b) g root })
    (\<lambda>t. analysed_tree (t_graph t) (\<lambda>n. pu ! n) as 0 t \<and> paged b t \<and> hardware (t_graph t) (\<lambda>n. pu ! n) as 0 \<and>
      length (vertices (t_graph t)) = tree_size as)"
proof -
  have as: "length as \<le> 29" "tree_size as \<le> 2 ^ 15" "\<And>n. n < prod_list as \<Longrightarrow> unat (pu ! n) < prod_list as"
    using assms(1) by (auto simp: machine_ok_def)
  have inj: "inj_on (\<lambda>n. pu ! n) {0..<prod_list as}"
    using assms(1) nth_eq_iff_index_eq[of "take (prod_list as) pu"] by (auto simp: machine_ok_def inj_on_def)
  obtain g where g: "machine_graph True jv je as (Some pu) False = Some (0, g)" "hardware g (\<lambda>n. pu ! n) as 0"
    "n_vertices g = tree_size as" "length (vertices g) = n_vertices g" "used_edges g \<le> length (edges g)"
    "\<And>i. i < n_vertices g \<Longrightarrow> v_pos (vertices g ! i) = i"
    using machine_graph_ok[OF assms(1), of jv je] by (auto simp: wp_iff)
  from analysis_ok[OF g(2) assms(2) as(1,2) g(3-6) assms(3) as(3) inj assms(4), of junk_j]
  obtain t where t: "topology_analysis fuel alloc junk_j (2 ^ b) None g 0 = Some t" "analysed_tree g (\<lambda>n. pu ! n) as 0 t" "paged b t"
    by (auto simp: wp_iff)
  then have "t_graph t = g" by (simp add: analysed_tree_def)
  with t g(1-4) show ?thesis by (simp add: libmapping_topology_analysis_def)
qed

section \<open>Units without given ids are numbered in order\<close>

lemma foldM_inv_eq:
  assumes "I 0 s" "\<And>j s. j < n \<Longrightarrow> I j s \<Longrightarrow> f j s = g j s" "\<And>j s s'. j < n \<Longrightarrow> I j s \<Longrightarrow> f j s = Some s' \<Longrightarrow> I (Suc j) s'"
  shows "foldM f [0..<n] s = foldM g [0..<n] s \<and> (\<forall>s'. foldM f [0..<n] s = Some s' \<longrightarrow> I n s')"
  using assms
proof (induction n)
  case (Suc n)
  then have IH: "foldM f [0..<n] s = foldM g [0..<n] s" "\<And>s'. foldM f [0..<n] s = Some s' \<Longrightarrow> I n s'" by auto
  show ?case
  proof (cases "foldM f [0..<n] s")
    case (Some s1)
    have step: "foldM h [0..<Suc n] s = h n s1" if "foldM h [0..<n] s = Some s1" for h
      using that by (cases "h n s1") (simp_all add: foldM_append)
    have "I n s1" using Some by (rule IH(2))
    then show ?thesis using Suc.prems(2,3)[of n s1] step[OF Some] step[of g] IH(1) Some by simp
  qed (use IH(1) in \<open>simp add: foldM_append\<close>)
qed simp

lemma fake_link_pu_id: "fake_link nl ws v l st = Some st' \<Longrightarrow> fs_pu_id st' = fs_pu_id st"
  by (auto simp: fake_link_def set_edge_def bind_eq_Some_conv split: prod.splits option.splits)

lemma fake_inner_pu_id: "fake_inner level numa v st = Some st' \<Longrightarrow> fs_pu_id st' = fs_pu_id st"
  by (auto simp: fake_inner_def set_vertex_def bind_eq_Some_conv split: if_splits)

lemma fake_default_ids:
  assumes "fs_pu_id st + prod_list as \<le> n"
  shows "create_fake_topology level as None ws numa st = create_fake_topology level as (Some (map of_nat [0..<n])) ws numa st \<and>
    (\<forall>v st'. create_fake_topology level as None ws numa st = Some (v, st') \<longrightarrow> fs_pu_id st' = fs_pu_id st + prod_list as)"
  using assms
proof (induction as arbitrary: level ws st)
  case Nil
  then show ?case by (auto simp: fake_pu_def set_vertex_def bind_eq_Some_conv)
next
  case (Cons a as)
  let ?ids = "map of_nat [0..<n] :: u32 list"
  let ?f = "\<lambda>v pus (j :: nat) st. do {
         (link, st) \<leftarrow> create_fake_topology (level + 1) as pus (map_option tl ws) numa st;
         fake_link (length (a # as)) ws v link st
       }"
  have loop: "foldM (?f v None) [0..<a] st1 = foldM (?f v (Some ?ids)) [0..<a] st1 \<and>
      (\<forall>st'. foldM (?f v None) [0..<a] st1 = Some st' \<longrightarrow> fs_pu_id st' = fs_pu_id st + a * prod_list as)"
    if st1: "fs_pu_id st1 = fs_pu_id st" for v and st1 :: fake_state
  proof (rule foldM_inv_eq[where I = "\<lambda>j (s :: fake_state). fs_pu_id s = fs_pu_id st + j * prod_list as"])
    fix j and s :: fake_state assume j: "j < a" and s: "fs_pu_id s = fs_pu_id st + j * prod_list as"
    have "Suc j * prod_list as \<le> a * prod_list as" using j by (intro mult_le_mono1) simp
    then have "fs_pu_id s + prod_list as \<le> n" using Cons.prems s by simp
    note IH = Cons.IH[OF this, of "level + 1" "map_option tl ws"]
    show "?f v None j s = ?f v (Some ?ids) j s" using IH by simp
    fix s' :: fake_state assume "?f v None j s = Some s'"
    then show "fs_pu_id s' = fs_pu_id st + Suc j * prod_list as"
      using IH s by (auto simp: bind_eq_Some_conv split: prod.splits dest!: fake_link_pu_id)
  qed (use st1 in simp)
  show ?case
  proof (cases "libmapping_get_free_vertex (fs_graph st)")
    case (Some r)
    obtain v g where r: "r = (v, g)" by (cases r)
    show ?thesis
    proof (cases "fake_inner level numa v (st\<lparr>fs_graph := g\<rparr>)")
      case (Some st1)
      then have "fs_pu_id st1 = fs_pu_id st" using fake_inner_pu_id by fastforce
      from loop[OF this, of v] show ?thesis
        using \<open>libmapping_get_free_vertex (fs_graph st) = Some r\<close> r Some by (auto simp: bind_eq_Some_conv)
    qed (use \<open>libmapping_get_free_vertex (fs_graph st) = Some r\<close> r in simp)
  qed simp
qed

lemma machine_default_ids:
  "machine_graph allocated jv je as None numa = machine_graph allocated jv je as (Some (map of_nat [0..<prod_list as])) numa"
  using fake_default_ids[of "\<lparr>fs_graph = g, fs_pu_id = 0, fs_numa_id = 0\<rparr>" as "prod_list as" 0 None numa for g]
  by (simp add: machine_graph_def)

section \<open>Properties\<close>

text \<open>The arities that the environment or the system gives, and the ids of the units.\<close>

definition env_machine :: "topo_env \<Rightarrow> nat list \<times> u32 list" where
  "env_machine env = (case te_arities env of
       None \<Rightarrow> ([te_nprocs env], map of_nat [0..<te_nprocs env])
     | Some ars \<Rightarrow> (ars, case te_pus env of None \<Rightarrow> map of_nat [0..<prod_list ars] | Some ids \<Rightarrow> ids))"

lemma topology_of_env_machine:
  assumes "te_allocated env" "te_numa env = 0" "te_arities env = None \<longrightarrow> te_hwloc env = None" "env_machine env = (as, ids)"
    and "machine_ok as ids"
  shows "topology_of_env env = machine_graph True (te_junk_vertex env) (te_junk_edge env) as (Some ids) False"
proof (cases "te_arities env")
  case None
  with assms have "as = [te_nprocs env]" "ids = map of_nat [0..<prod_list as]" by (auto simp: env_machine_def)
  then show ?thesis using None assms(1,3) machine_default_ids[of True _ _ as False] by (simp add: topology_of_env_def)
next
  case (Some ars)
  then have "ars = as" using assms(4) by (simp add: env_machine_def)
  moreover have "as \<noteq> []" "0 < prod_list as" using assms(5) prod_pos[of as] by (simp_all add: machine_ok_def)
  ultimately show ?thesis using Some assms(1-4) machine_default_ids[of True _ _ as False]
    by (cases "te_pus env") (auto simp: topology_of_env_def env_machine_def n_pus_eq)
qed

text \<open>
  C30: the topology of the user-space library. Without a NUMA level, and without hwloc unless the arities are given in the
  environment, the library gets the topology of a machine with these arities, or with one level for the
  processors of the system. The ids of the units are the given ones, or their numbers from left to right. The result of
  the analysis describes this tree, and the numbers of the pages describe the page size of the system, a power of two.
\<close>
theorem topology_init_spec:
  assumes "te_allocated env" "te_numa env = 0" "te_arities env = None \<longrightarrow> te_hwloc env = None"
    and "te_opt_allocated env" "env_machine env = (as, ids)" "machine_ok as ids" "length as < fuel" "allocates alloc"
    and "te_page_size env = 2 ^ b" "b \<le> 30"
  shows "\<exists>t. libmapping_topology_init fuel alloc junk_j env = Some t \<and> hardware (t_graph t) (\<lambda>n. ids ! n) as 0 \<and>
    analysed_tree (t_graph t) (\<lambda>n. ids ! n) as 0 t \<and> page_size t = 2 ^ b \<and> page_shift t = of_nat b \<and>
    offset_addr_mask t = 2 ^ b - 1 \<and> page_addr_mask t = NOT (2 ^ b - 1)"
  using machine_analysis_ok[OF assms(6-8,10), of "te_junk_vertex env" "te_junk_edge env" junk_j]
  unfolding libmapping_topology_init_def topology_of_env_machine[OF assms(1-3,5,6)] assms(9) wp_iff paged_def using assms(4) by auto

text \<open>A machine with six processors and pages of 64 KiB, without variables in the environment.\<close>

definition six_procs :: topo_env where
  "six_procs = \<lparr>te_arities = None, te_pus = None, te_numa = 0, te_hwloc = None, te_nprocs = 6, te_page_size = 65536,
     te_allocated = True, te_opt_allocated = True, te_junk_vertex = blank_vertex, te_junk_edge = blank_edge\<rparr>"

theorem topology_init_spec_witness:
  "\<exists>t. libmapping_topology_init 3 (\<lambda>n. Some (replicate n 0)) 0 six_procs = Some t \<and>
    analysed_tree (t_graph t) (\<lambda>n. map of_nat [0..<6] ! n) [6] 0 t \<and> page_shift t = 16"
proof -
  have "machine_ok [6] (map of_nat [0..<6])"
    by (auto simp: machine_ok_def unat_of_nat distinct_map intro!: inj_onI dest!: arg_cong[of _ _ unat])
  then show ?thesis
    using topology_init_spec[of six_procs "[6]" "map of_nat [0..<6]" 3 "\<lambda>n. Some (replicate n 0)" 16 0]
    by (auto simp: six_procs_def env_machine_def allocates_def)
qed

end
