(* ===== verification/Cdsm_Print.thy ===== *)
theory Cdsm_Print
  imports Cdsm_Tree Cdsm_Procfs
begin

text \<open>
  Walking and printing a topology of any shape: \<open>libmapping_topology_walk_pre_order\<close>, \<open>print_topology\<close> and
  \<open>libmapping_topology_print\<close> in \<open>src/libmapping/topology.c\<close>. The text goes to the kernel log (\<open>printk\<close>); it is the
  state of the walk.

  The second part is the printing of the user-space matrix, \<open>libmapping_print_matrix\<close> and its variants in
  \<open>src/libmapping/lib.c\<close>, as the text that it writes.
\<close>

section \<open>The code\<close>

definition libmapping_topology_walk_pre_order :: "nat \<Rightarrow> graph_t \<Rightarrow> nat \<Rightarrow> 's routine \<Rightarrow> 's \<Rightarrow> 's option" where
  "libmapping_topology_walk_pre_order fuel g root routine s =
     map_option snd (topology_walk_pre_order fuel g routine root None None 0 s)"

definition PRINTF_PREFIX :: string where
  "PRINTF_PREFIX = ''libmapping: ''"

definition print_topology :: "graph_t \<Rightarrow> string routine" where
  "print_topology g v from edge level s = do {
     x \<leftarrow> aget (vertices g) v;
     let s = s @ PRINTF_PREFIX;
     let s = fold (\<lambda>i s. s @ [CHR 0x09]) [0..<level] s;
     let shown = (if v_type x = GRAPH_ELTYPE_ROOT then of_nat (arity x) else of_nat (arity x) - 1 :: u32);
     let s = s @ libmapping_graph_eltype_str (v_type x) @ '' (id: '' @ show_nat (unat (v_id x)) @ '', arity: '' @
       show_nat (unat shown) @ '')'' @ newline;
     Some (True, s)
   }"

definition libmapping_topology_print :: "nat \<Rightarrow> graph_t \<Rightarrow> nat \<Rightarrow> string \<Rightarrow> string option" where
  "libmapping_topology_print fuel g root s = libmapping_topology_walk_pre_order fuel g root (print_topology g) s"

section \<open>A walk is a loop over the tree\<close>

text \<open>The subtrees in pre-order, with their levels.\<close>

fun subtrees :: "topo_tree \<Rightarrow> nat \<Rightarrow> (topo_tree \<times> nat) list" where
  "subtrees (Node ty i kids) level = (Node ty i kids, level) # concat (map (\<lambda>wk. subtrees (snd wk) (Suc level)) kids)"

text \<open>
  For a routine that never stops the walk, and that acts at a vertex as \<open>f\<close> acts on the tree there. \<open>Q r t\<close> is a
  condition on the trees that may occur, at the top and below.
\<close>

lemma tree_walk:
  assumes "tree_at g hi par t u" "Q (par = None) t" "nodes t \<le> fuel"
    and Q: "\<And>r ty i kids wk. Q r (Node ty i kids) \<Longrightarrow> wk \<in> set kids \<Longrightarrow> Q False (snd wk)"
    and routine: "\<And>v p t e l s. tree_at g hi p t v \<Longrightarrow> Q (p = None) t \<Longrightarrow> routine v p e l s = map_option (Pair True) (f t l s)"
  shows "topology_walk_pre_order fuel g routine u par e level s =
    map_option (Pair True) (foldM (\<lambda>(t, l). f t l) (subtrees t level) s)"
  using assms(1-3)
proof (induction t level arbitrary: fuel par u e s rule: subtrees.induct)
  case (1 ty i kids level)
  obtain n where fuel: "fuel = Suc n" using 1(4) nodes_pos[of "Node ty i kids"] by (cases fuel) auto
  have u: "u < length (vertices g)" "arity (vertices g ! u) = length kids + (if par = None then 0 else 1)"
    "length kids + (if par = None then 0 else 1) \<le> length (linked (vertices g ! u))"
    using 1(2) by (simp_all add: tree_at_simps)
  have up: "\<forall>p. par = Some p \<longrightarrow> p < u \<and> (\<exists>e. linked (vertices g ! u) ! length kids = Some (e, p))"
    using 1(2) unfolding tree_at_simps by blast
  let ?body = "\<lambda>j s. do {
         slot \<leftarrow> aget (linked (vertices g ! u)) j;
         (e, w) \<leftarrow> slot;
         if Some w \<noteq> par then topology_walk_pre_order n g routine w (Some u) (Some e) (level + 1) s
         else Some (True, s)
       }"
  let ?kid = "\<lambda>j. subtrees (snd (kids ! j)) (Suc level)"
  have kid: "?body j s = map_option (Pair True) (foldM (\<lambda>(t, l). f t l) (?kid j) s)" if j: "j < length kids" for j s
  proof -
    have "\<exists>e c. linked (vertices g ! u) ! j = Some (e, c) \<and> u < c \<and> tree_at g hi (Some u) (snd (kids ! j)) c"
      using 1(2) j unfolding tree_at_simps by blast
    then obtain e c where slot: "linked (vertices g ! u) ! j = Some (e, c)" "u < c" "tree_at g hi (Some u) (snd (kids ! j)) c" by blast
    have "Some c \<noteq> par" using up slot(2) by auto
    moreover have "topology_walk_pre_order n g routine c (Some u) (Some e) (Suc level) s =
        map_option (Pair True) (foldM (\<lambda>(t, l). f t l) (?kid j) s)"
      by (rule 1(1)[OF _ slot(3)]) (use Q[OF 1(3), of "kids ! j"] j nodes_kid[of "kids ! j" kids ty i] 1(4) fuel in auto)
    ultimately show ?thesis using slot(1) j u(3) by simp
  qed
  have loop: "loopM ?body [0..<length kids] s = map_option (Pair True) (foldM (\<lambda>(t, l). f t l) (concat (map ?kid [0..<length kids])) s)" for s
    using loopM_fold[of "[0..<length kids]" ?body "\<lambda>j. foldM (\<lambda>(t, l). f t l) (?kid j)"] kid by (simp add: foldM_concat foldM_map)
  have all: "map ?kid [0..<length kids] = map (\<lambda>wk. subtrees (snd wk) (Suc level)) kids"
    by (rule nth_equalityI) simp_all
  have rest: "loopM ?body [0..<arity (vertices g ! u)] s = loopM ?body [0..<length kids] s" for s
  proof (cases par)
    case (Some p)
    then obtain e' where "linked (vertices g ! u) ! length kids = Some (e', p)" using up by blast
    then have last: "loopM ?body [length kids] s = Some (True, s)" for s using u(3) Some by simp
    have slots: "[0..<arity (vertices g ! u)] = [0..<length kids] @ [length kids]" using Some u(2) by simp
    show ?thesis
      unfolding slots loopM_append loop last by (cases "foldM (\<lambda>(t, l). f t l) (concat (map ?kid [0..<length kids])) s") simp_all
  qed (simp add: u(2))
  show ?case
  proof (cases "f (Node ty i kids) level s")
    case None
    then show ?thesis using routine[OF 1(2,3), of e level s] fuel by simp
  next
    case (Some s')
    then have "topology_walk_pre_order fuel g routine u par e level s = loopM ?body [0..<arity (vertices g ! u)] s'"
      using routine[OF 1(2,3), of e level s] by (simp only: fuel topology_walk_pre_order.simps option.map Option.bind.bind_lunit prod.case if_True aget_Some[OF u(1)])
    then show ?thesis using Some unfolding rest loop all by simp
  qed
qed

section \<open>The printed text\<close>

text \<open>The root, and nothing else, has the type of a root.\<close>

fun rooted :: "bool \<Rightarrow> topo_tree \<Rightarrow> bool" where
  "rooted r (Node ty i kids) \<longleftrightarrow> (ty = GRAPH_ELTYPE_ROOT \<longleftrightarrow> r) \<and> (\<forall>wk \<in> set kids. rooted False (snd wk))"

fun tree_line :: "topo_tree \<times> nat \<Rightarrow> string" where
  "tree_line (Node ty i kids, level) = PRINTF_PREFIX @ replicate level (CHR 0x09) @ libmapping_graph_eltype_str ty @
     '' (id: '' @ show_nat (unat i) @ '', arity: '' @ show_nat (length kids) @ '')'' @ newline"

lemma tabs: "fold (\<lambda>i s. s @ [c]) [0..<n] s = s @ replicate n c"
  by (induction n) (simp_all flip: replicate_append_same)

lemma print_line:
  assumes "tree_at g hi p t v" "rooted (p = None) t" "nodes t < 2 ^ 32"
  shows "print_topology g v p e l s = Some (True, s @ tree_line (t, l))"
proof (cases t)
  case (Node ty i kids)
  have "length kids < 2 ^ 32" using assms(3) length_le_forest[of kids] by (simp add: Node nodes_forest)
  then have "unat (of_nat (length kids) :: u32) = length kids" by (simp add: unat_of_nat take_bit_nat_eq_self)
  moreover have "v < length (vertices g)" "v_type (vertices g ! v) = ty" "v_id (vertices g ! v) = i"
    "arity (vertices g ! v) = length kids + (if p = None then 0 else 1)" using assms(1) by (simp_all add: Node tree_at_simps)
  ultimately show ?thesis using assms(2) by (auto simp: Node print_topology_def tabs Let_def)
qed

text \<open>
  The walk prints the tree, a line for every vertex in pre-order: as many tabs as its level, its type, its id and the
  number of its children.
\<close>

lemma topology_print_ok:
  assumes "tree_at g hi None t root" "rooted True t" "nodes t \<le> fuel" "nodes t < 2 ^ 32"
  shows "libmapping_topology_print fuel g root s = Some (s @ concat (map tree_line (subtrees t 0)))"
proof -
  have pure: "foldM (\<lambda>(t, l) s. Some (s @ tree_line (t, l))) xs s = Some (s @ concat (map tree_line xs))" for xs s
    by (induction xs arbitrary: s) auto
  have "topology_walk_pre_order fuel g (print_topology g) root None None 0 s =
      map_option (Pair True) (foldM (\<lambda>(t, l) s. Some (s @ tree_line (t, l))) (subtrees t 0) s)"
  proof (rule tree_walk[OF assms(1), where Q = "\<lambda>r t. rooted r t \<and> nodes t < 2 ^ 32"])
    fix r ty i kids wk assume "rooted r (Node ty i kids) \<and> nodes (Node ty i kids) < 2 ^ 32" "wk \<in> set kids"
    then show "rooted False (snd wk) \<and> nodes (snd wk) < 2 ^ 32" using nodes_kid[of wk kids ty i] by auto
  qed (use assms(2-4) print_line in auto)
  then show ?thesis
    by (simp add: libmapping_topology_print_def libmapping_topology_walk_pre_order_def pure)
qed

text \<open>The same for the tree of a regular machine, of which only the definedness matters here.\<close>

lemma machine_print_ok:
  assumes "represents g None as u" "length as < fuel" "u + tree_size as \<le> length (vertices g)"
  shows "\<exists>text. libmapping_topology_print fuel g u s = Some text"
proof -
  let ?f = "\<lambda>v l s. map_option snd (print_topology g v None None l s)"
  have folds: "folds (print_topology g) ?f {u..<u + tree_size as}"
    unfolding folds_def
  proof (intro ballI allI)
    fix v p e l s
    show "print_topology g v p e l s = map_option (\<lambda>s. (True, s)) (?f v l s)"
      by (cases "aget (vertices g) v") (simp_all add: print_topology_def Let_def)
  qed
  have "wp (foldM (\<lambda>(v, l). ?f v l) (preorder as u 0) s) (\<lambda>_. True)"
  proof (rule wp_foldM_all)
    fix x s assume x: "x \<in> set (preorder as u 0)"
    obtain v l where vl: "x = (v, l)" by (cases x)
    have "v \<in> set (map fst (preorder as u 0))" using x vl by force
    then have "v < length (vertices g)" using assms(3) unfolding preorder_vertices by simp
    then show "wp ((case x of (v, l) \<Rightarrow> ?f v l) s) (\<lambda>_. True)" by (simp add: vl print_topology_def Let_def)
  qed simp
  then show ?thesis
    using walk_fold[OF assms(1) _ assms(2) folds, of None 0 s]
    by (auto simp: libmapping_topology_print_def libmapping_topology_walk_pre_order_def wp_iff)
qed

lemma subtrees_length: "length (subtrees t l) = nodes t"
  by (induction t l rule: subtrees.induct) (simp add: nodes.simps length_concat comp_def cong: map_cong)

section \<open>Printing the user-space matrix\<close>

text \<open>\<open>for (i=m->nthreads-1; i>=0; i--)\<close>, with a comma between the elements of a row.\<close>

definition libmapping_print_matrix :: "comm_matrix_t \<Rightarrow> string \<Rightarrow> string option" where
  "libmapping_print_matrix m out = (let n = cm_nthreads m in
     foldM (\<lambda>i out. do {
       out \<leftarrow> foldM (\<lambda>j out. do {
         c \<leftarrow> comm_matrix_ptr_el m i j;
         Some (out @ show_nat (unat c) @ (if int j \<noteq> int n - 1 then '','' else []))
       }) [0..<n] out;
       Some (out @ newline)
     }) (rev [0..<n]) out)"

text \<open>The threads are not used.\<close>

definition libmapping_print_matrix_alive :: "comm_matrix_t \<Rightarrow> nat list \<Rightarrow> string \<Rightarrow> string option" where
  "libmapping_print_matrix_alive m alive_threads out = libmapping_print_matrix m out"

text \<open>The new contents of the file; \<open>opened\<close> is whether \<open>fopen\<close> succeeds, which empties the file.\<close>

definition libmapping_print_matrix_alive_fname :: "bool \<Rightarrow> comm_matrix_t \<Rightarrow> nat list \<Rightarrow> string \<Rightarrow> string option" where
  "libmapping_print_matrix_alive_fname opened m alive_threads old =
     (if opened then libmapping_print_matrix_alive m alive_threads [] else Some old)"

text \<open>
  Reading the file back gives the matrix of the threads, the last thread first, and a file that cannot be opened is
  left alone.
\<close>

lemma print_matrix_file:
  assumes "cm_wf m" "0 < cm_nthreads m" "cm_nthreads m \<le> MAX_THREADS"
  shows "\<exists>text. libmapping_print_matrix_alive_fname opened m alive old = Some text \<and>
    (if opened then read_lines text = matrix_rows (\<lambda>i j. cm_values m ! min i j ! max i j) (cm_nthreads m) else text = old)"
proof -
  let ?n = "cm_nthreads m" and ?c = "\<lambda>i j. cm_values m ! min i j ! max i j"
  have "comm_matrix_ptr_el m i j = Some (?c i j)" if "i < ?n" "j < ?n" for i j
    using that assms by (intro cm_el_eq) auto
  then have "libmapping_print_matrix m [] = Some ([] @ csv_lines (map (\<lambda>i. map (\<lambda>j. show_nat (unat (?c i j))) [0..<?n]) (rev [0..<?n])))"
    unfolding libmapping_print_matrix_def Let_def using assms(2) by (intro matrix_loop_text) auto
  moreover have "map (\<lambda>i. map (\<lambda>j. show_nat (unat (?c i j))) [0..<?n]) (rev [0..<?n]) = map (map show_nat) (matrix_rows ?c ?n)"
    by (simp add: matrix_rows_def comp_def)
  moreover have "read_lines (csv_lines (map (map show_nat) (matrix_rows ?c ?n))) = matrix_rows ?c ?n"
    using assms(2) by (intro read_csv_lines) (auto simp: matrix_rows_def)
  ultimately show ?thesis
    by (simp add: libmapping_print_matrix_alive_fname_def libmapping_print_matrix_alive_def)
qed

end
