(* ===== verification/Cdsm_Map.thy ===== *)
theory Cdsm_Map
  imports Cdsm_Machine Cdsm_Print Cdsm_Pid
begin

text \<open>
  The mapping thread, \<open>src/map.c\<close>: \<open>spcd_map_func\<close> builds and analyses the topology once, and then in every
  round computes a mapping from the current matrix and asks the kernel to move the threads whose processing unit
  changed. \<open>sched_setaffinity\<close> is the kernel's; a round yields the list of the requests made to it, a pid and
  a processing unit each. Its result only decides whether a message is printed.

  The sleep between rounds and the stop request are left out: the rounds are a list of inputs, the registry and
  the matrix at the time of each.
\<close>

section \<open>The code\<close>

text \<open>Before the loop. \<open>pu\<close> is the array that \<open>topo_init\<close> filled; the parameters are those of the parts.\<close>

record map_env =
  me_fuel :: nat
  me_alloc :: "nat \<Rightarrow> u32 list option"
  me_graph_allocated :: bool
  me_opt_allocated :: bool
  me_junk_vertex :: vertex_t
  me_junk_edge :: edge_t
  me_junk_j :: nat
  me_junk_group :: "thread_group_t \<times> nat"
  me_matrix_0 :: "u32 list option"
  me_matrix_1 :: "u32 list option"

definition map_setup :: "map_env \<Rightarrow> config \<Rightarrow> nat list \<Rightarrow> u32 list \<Rightarrow> (topology_t \<times> greedy_t) option" where
  "map_setup env cfg ars pu = do {
     let (npus, nvertices) = libmapping_get_n_pus_fake_topology ars (0, 0);
     g \<leftarrow> libmapping_graph_init (me_graph_allocated env) (me_junk_vertex env) (me_junk_edge env) nvertices (nvertices - 1);
     (root, st) \<leftarrow> libmapping_create_fake_topology ars (Some pu) None \<lparr>fs_graph = g, fs_pu_id = 0, fs_numa_id = 0\<rparr>;
     st \<leftarrow> set_vertex root (\<lambda>x. x\<lparr>v_weight := 0\<rparr>) st;
     st \<leftarrow> set_vertex root (\<lambda>x. x\<lparr>v_type := GRAPH_ELTYPE_ROOT\<rparr>) st;
     t \<leftarrow> libmapping_topology_analysis (me_opt_allocated env) (me_fuel env) (me_alloc env) (me_junk_j env) (push_bit PAGE_SHIFT 1) (fs_graph st) root;
     printed \<leftarrow> libmapping_topology_print (me_fuel env) (t_graph t) (t_root t) [];
     gr \<leftarrow> libmapping_mapping_algorithm_greedy_init (me_fuel env) (me_junk_group env) (me_matrix_0 env) (me_matrix_1 env)
       cfg (t_graph t) (t_root t) (pu_number t);
     Some (t, gr)
   }"

text \<open>\<open>map\<close> and \<open>oldmap\<close> are \<open>int\<close> arrays that the algorithm fills as words.\<close>

record map_state =
  ms_greedy :: greedy_t
  ms_map :: "u32 list"
  ms_oldmap :: "u32 list"

type_synonym request = "int \<times> u32"

definition spcd_set_affinity :: "pid_state \<Rightarrow> int \<Rightarrow> u32 \<Rightarrow> request option" where
  "spcd_set_affinity pids tid core = do { pid \<leftarrow> spcd_get_pid tid pids; Some (pid, core) }"

definition apply_mapping :: "pid_state \<Rightarrow> u32 list \<Rightarrow> nat \<Rightarrow> u32 list \<Rightarrow> (u32 list \<times> request list) option" where
  "apply_mapping pids mp nt old = foldM (\<lambda>i (old, reqs). do {
       o' \<leftarrow> aget old i;
       x \<leftarrow> aget mp i;
       if o' \<noteq> x then do {
         old \<leftarrow> aput old i x;
         r \<leftarrow> spcd_set_affinity pids (int i) x;
         Some (old, reqs @ [r])
       } else Some (old, reqs)
     }) [0..<nt] (old, [])"

definition map_round ::
  "map_env \<Rightarrow> config \<Rightarrow> topology_t \<Rightarrow> pid_state \<Rightarrow> spcd_comm_matrix \<Rightarrow> map_state \<Rightarrow>
   (map_state \<times> spcd_comm_matrix \<times> request list) option" where
  "map_round env cfg t pids m st = do {
     let nt = spcd_get_active_threads pids;
     if 4 \<le> nt then do {
       let m = m\<lparr>nthreads := nat nt\<rparr>;
       (gr, mp) \<leftarrow> libmapping_mapping_algorithm_greedy_map (me_fuel env) cfg (t_graph t) (t_root t) m (ms_greedy st) (ms_map st);
       (old, reqs) \<leftarrow> apply_mapping pids mp (nat nt) (ms_oldmap st);
       Some (\<lparr>ms_greedy = gr, ms_map = mp, ms_oldmap = old\<rparr>, m, reqs)
     } else do {
       old \<leftarrow> foldM (\<lambda>i old. aput old i (- 1)) [0..<MAX_THREADS] (ms_oldmap st);
       Some (st\<lparr>ms_oldmap := old\<rparr>, m, [])
     }
   }"

text \<open>The static arrays start at zero.\<close>

definition map_start :: "greedy_t \<Rightarrow> map_state" where
  "map_start gr = \<lparr>ms_greedy = gr, ms_map = replicate MAX_THREADS 0, ms_oldmap = replicate MAX_THREADS 0\<rparr>"

definition spcd_map_func ::
  "map_env \<Rightarrow> config \<Rightarrow> nat list \<Rightarrow> u32 list \<Rightarrow> (pid_state \<times> spcd_comm_matrix) list \<Rightarrow> (map_state \<times> request list list) option" where
  "spcd_map_func env cfg ars pu inputs = do {
     (t, gr) \<leftarrow> map_setup env cfg ars pu;
     foldM (\<lambda>(pids, m) (st, log). do {
       (st, m, reqs) \<leftarrow> map_round env cfg t pids m st;
       Some (st, log @ [reqs])
     }) inputs (map_start gr, [])
   }"

section \<open>The setup\<close>

text \<open>What the environment has to provide: memory, and arrays of the right size.\<close>

definition env_ok :: "int \<Rightarrow> nat \<Rightarrow> map_env \<Rightarrow> bool" where
  "env_ok bits height env \<longleftrightarrow> height < me_fuel env \<and> allocates (me_alloc env) \<and> me_graph_allocated env \<and> me_opt_allocated env \<and>
     length (g_elements (fst (me_junk_group env))) = MAX_THREADS \<and> 0 \<le> bits \<and> bits \<le> 15 \<and>
     (\<exists>a. me_matrix_0 env = Some a \<and> length a = 2 ^ nat bits * 2 ^ nat bits) \<and>
     (\<exists>a. me_matrix_1 env = Some a \<and> length a = 2 ^ nat bits * 2 ^ nat bits)"

text \<open>The steps before the algorithm is prepared are those of any machine given by its arities.\<close>

lemma map_setup_eq:
  "map_setup env cfg as pu = do {
     t \<leftarrow> do {
       (root, g) \<leftarrow> machine_graph (me_graph_allocated env) (me_junk_vertex env) (me_junk_edge env) as (Some pu) False;
       libmapping_topology_analysis (me_opt_allocated env) (me_fuel env) (me_alloc env) (me_junk_j env) (push_bit PAGE_SHIFT 1) g root
     };
     printed \<leftarrow> libmapping_topology_print (me_fuel env) (t_graph t) (t_root t) [];
     gr \<leftarrow> libmapping_mapping_algorithm_greedy_init (me_fuel env) (me_junk_group env) (me_matrix_0 env) (me_matrix_1 env)
       cfg (t_graph t) (t_root t) (pu_number t);
     Some (t, gr)
   }"
  by (simp add: map_setup_def machine_graph_def libmapping_create_fake_topology_def Let_def split_def)

lemma map_setup_ok:
  assumes env: "env_ok bits (length as) env" and bits: "bits = max_threads_bits cfg" and mach: "machine_ok as pu"
  shows "wp (map_setup env cfg as pu) (\<lambda>(t, gr). analysed (t_graph t) (\<lambda>n. pu ! n) as 0 t \<and>
    hardware (t_graph t) (\<lambda>n. pu ! n) as 0 \<and> greedy_ready bits (shared as) gr)"
proof -
  have fuel: "length as < me_fuel env" and alloc: "allocates (me_alloc env)" and "me_graph_allocated env" "me_opt_allocated env" using env by (simp_all add: env_ok_def)
  note me = this
  obtain t where run: "do {
       (root, g) \<leftarrow> machine_graph (me_graph_allocated env) (me_junk_vertex env) (me_junk_edge env) as (Some pu) False;
       libmapping_topology_analysis (me_opt_allocated env) (me_fuel env) (me_alloc env) (me_junk_j env) (push_bit PAGE_SHIFT 1) g root
     } = Some t" and t: "analysed (t_graph t) (\<lambda>n. pu ! n) as 0 t" and hw: "hardware (t_graph t) (\<lambda>n. pu ! n) as 0"
    and size: "length (vertices (t_graph t)) = tree_size as"
    using machine_analysis_ok[OF mach fuel alloc, of 12 "me_junk_vertex env" "me_junk_edge env" "me_junk_j env"] me(3,4)
    by (auto simp: analysed_pages PAGE_SHIFT_def elim!: wpE)
  have tg: "t_root t = 0" "pu_number t = prod_list as" using t by (simp_all add: analysed_def analysed_tree_def)
  obtain gr where gr: "libmapping_mapping_algorithm_greedy_init (me_fuel env) (me_junk_group env) (me_matrix_0 env) (me_matrix_1 env)
      cfg (t_graph t) 0 (prod_list as) = Some gr" "greedy_ready bits (shared as) gr"
  proof -
    have gw: "groups_wf (replicate n (replicate MAX_THREADS (fst (me_junk_group env))))" for n
      using env by (auto simp: groups_wf_def env_ok_def)
    have mw: "matrix_wf bits (libmapping_comm_matrix_init (me_matrix_0 env) k)" "matrix_wf bits (libmapping_comm_matrix_init (me_matrix_1 env) k)" for k
      using env by (auto simp: matrix_wf_def env_ok_def libmapping_comm_matrix_init_def)
    show thesis
      using greedy_init_ok[OF hw fuel, of "me_junk_group env" "me_matrix_0 env" "me_matrix_1 env" cfg] that gw mw
      unfolding wp_iff by (auto simp: greedy_ready_def greedy_wf_def simp del: replicate.simps)
  qed
  obtain printed where printed: "libmapping_topology_print (me_fuel env) (t_graph t) 0 [] = Some printed"
    using machine_print_ok[of "t_graph t" as 0 "me_fuel env" "[]"] hw fuel size by (auto simp: hardware_def)
  show ?thesis unfolding map_setup_eq run Option.bind.bind_lunit tg printed gr(1) wp_Some using t hw gr(2) by simp
qed

section \<open>A round\<close>

text \<open>The requests of a round: those of the threads whose unit differs from the one of the last round.\<close>

definition requests :: "pid_state \<Rightarrow> u32 list \<Rightarrow> u32 list \<Rightarrow> nat \<Rightarrow> request list" where
  "requests pids old mp nt = map (\<lambda>i. (ps_pid (spcd_pid_reverse pids ! i), mp ! i)) (filter (\<lambda>i. old ! i \<noteq> mp ! i) [0..<nt])"

lemma apply_mapping_eq:
  assumes "nt \<le> length mp" "nt \<le> length old" "nt \<le> length (spcd_pid_reverse pids)"
  shows "apply_mapping pids mp nt old = Some (take nt mp @ drop nt old, requests pids old mp nt)"
  using assms
proof (induction nt)
  case (Suc n)
  then have upd: "(take n mp @ drop n old)[n := mp ! n] = take (Suc n) mp @ drop (Suc n) old"
    by (simp add: list_update_append take_Suc_conv_app_nth Cons_nth_drop_Suc[symmetric])
  have same: "take n mp @ drop n old = take (Suc n) mp @ drop (Suc n) old" if "old ! n = mp ! n"
    using that Suc.prems by (simp add: take_Suc_conv_app_nth Cons_nth_drop_Suc[symmetric])
  from Suc show ?case
    using upd same by (auto simp: apply_mapping_def foldM_snoc nth_append spcd_set_affinity_def spcd_get_pid_def requests_def)
qed (simp add: apply_mapping_def requests_def)

lemma forget_all: "length old = n \<Longrightarrow> foldM (\<lambda>i old. aput old i x) [0..<n] old = Some (replicate n x)"
proof -
  assume "length old = n"
  then have "foldM (\<lambda>i old. aput old i x) [0..<k] old = Some (replicate k x @ drop k old)" if "k \<le> n" for k
    using that
  proof (induction k)
    case (Suc k)
    then have "(replicate k x @ drop k old)[k := x] = replicate (Suc k) x @ drop (Suc k) old"
      by (simp add: list_update_append Cons_nth_drop_Suc[symmetric] replicate_append_same)
    with Suc show ?case by (simp add: foldM_snoc)
  qed simp
  from this[of n] show ?thesis using \<open>length old = n\<close> by simp
qed

definition map_wf :: "int \<Rightarrow> nat list \<Rightarrow> map_state \<Rightarrow> bool" where
  "map_wf bits S st \<longleftrightarrow> greedy_ready bits S (ms_greedy st) \<and> length (ms_map st) = MAX_THREADS \<and> length (ms_oldmap st) = MAX_THREADS"

definition active_n :: "pid_state \<Rightarrow> nat" where
  "active_n pids = nat (spcd_get_active_threads pids)"

text \<open>An idle round reads neither the registry nor the matrix.\<close>

definition input_ok :: "int \<Rightarrow> pid_state \<times> spcd_comm_matrix \<Rightarrow> bool" where
  "input_ok bits inp \<longleftrightarrow> (4 \<le> active_n (fst inp) \<longrightarrow>
     matrix_wf bits (snd inp) \<and> active_n (fst inp) \<le> MAX_THREADS \<and> int (active_n (fst inp)) \<le> dim_int bits \<and>
     active_n (fst inp) \<le> length (spcd_pid_reverse (fst inp)))"

text \<open>What a round does: an idle one forgets the last mapping, another one lays all threads over the machine.\<close>

definition round_done :: "(nat \<Rightarrow> u32) \<Rightarrow> nat \<Rightarrow> pid_state \<Rightarrow> map_state \<Rightarrow> map_state \<Rightarrow> request list \<Rightarrow> bool" where
  "round_done ids P pids st st' reqs \<longleftrightarrow> (let nt = active_n pids in
     if 4 \<le> nt then
       placed ids 0 P (ceil_div nt P) {..<nt} (ms_map st) (ms_map st') \<and>
       reqs = requests pids (ms_oldmap st) (ms_map st') nt \<and>
       ms_oldmap st' = take nt (ms_map st') @ drop nt (ms_oldmap st)
     else ms_map st' = ms_map st \<and> reqs = [] \<and> ms_oldmap st' = replicate MAX_THREADS (- 1))"

lemma map_round_ok:
  assumes hw: "hardware (t_graph t) ids as (t_root t)" "length as < me_fuel env" and bits: "bits = max_threads_bits cfg"
    and st: "map_wf bits (shared as) st" and inp: "input_ok bits (pids, m)"
  shows "wp (map_round env cfg t pids m st) (\<lambda>(st', m', reqs). map_wf bits (shared as) st' \<and>
    round_done ids (prod_list as) pids st st' reqs)"
proof -
  let ?nt = "active_n pids" and ?m = "m\<lparr>nthreads := active_n pids\<rparr>"
  have S: "greedy_ready bits (shared as) (ms_greedy st)" "length (ms_map st) = MAX_THREADS" "length (ms_oldmap st) = MAX_THREADS"
    using st by (simp_all add: map_wf_def)
  show ?thesis
  proof (cases "4 \<le> ?nt")
    case True
    then have I: "matrix_wf bits m" "?nt \<le> MAX_THREADS" "int ?nt \<le> dim_int bits" "?nt \<le> length (spcd_pid_reverse pids)"
      using inp by (simp_all add: input_ok_def)
    have nt: "4 \<le> spcd_get_active_threads pids" using True by (simp add: active_n_def)
    have m: "matrix_wf bits ?m" "int (nthreads ?m) \<le> dim_int bits" "0 < nthreads ?m" "nthreads ?m \<le> MAX_THREADS"
      "nthreads ?m \<le> length (ms_map st)"
      using I True S(2) by (simp_all add: matrix_wf_def)
    obtain gr mp where run: "libmapping_mapping_algorithm_greedy_map (me_fuel env) cfg (t_graph t) (t_root t) ?m (ms_greedy st) (ms_map st) = Some (gr, mp)"
      and ok: "greedy_ready bits (shared as) gr" "placed ids 0 (prod_list as) (ceil_div ?nt (prod_list as)) {..<?nt} (ms_map st) mp"
      using greedy_map_ok[OF hw m(1-4) bits S(1) m(5)] unfolding wp_iff split_paired_Ex by auto
    have len: "length mp = MAX_THREADS" using ok(2) S(2) by (simp add: placed_def)
    then have ap: "apply_mapping pids mp ?nt (ms_oldmap st) = Some (take ?nt mp @ drop ?nt (ms_oldmap st), requests pids (ms_oldmap st) mp ?nt)"
      using I S by (intro apply_mapping_eq) simp_all
    show ?thesis
      unfolding map_round_def Let_def using nt run ap ok len S I True m(1)
      by (simp add: active_n_def[symmetric] map_wf_def round_done_def)
  next
    case False
    then have "\<not> 4 \<le> spcd_get_active_threads pids" by (simp add: active_n_def)
    then show ?thesis
      unfolding map_round_def Let_def using forget_all[OF S(3)] S False by (simp add: map_wf_def round_done_def)
  qed
qed

text \<open>A loop that writes more cells than the array has does not get through.\<close>

lemma put_loop_length: "foldM (\<lambda>i xs. aput xs i (f i)) ks xs = Some ys \<Longrightarrow> length ys = length xs"
  by (induction ks arbitrary: xs) (auto simp: bind_eq_Some_conv aput_def split: if_splits)

lemma put_loop_overrun:
  assumes "length xs < n"
  shows "foldM (\<lambda>i xs. aput xs i (f i)) [0..<n] xs = None"
proof (rule ccontr)
  let ?put = "\<lambda>i xs. aput xs i (f i)" and ?k = "length xs"
  assume "foldM ?put [0..<n] xs \<noteq> None"
  moreover have "[0..<n] = [0..<?k] @ ?k # [Suc ?k..<n]"
    using assms by (metis less_imp_le upt_add_eq_append upt_conv_Cons le_add_diff_inverse zero_le)
  ultimately obtain ys zs where "foldM ?put [0..<?k] xs = Some ys" "aput ys ?k (f ?k) = Some zs"
    by (auto simp: foldM_append bind_eq_Some_conv)
  then show False using put_loop_length[of f "[0..<?k]" xs ys] by (simp add: aput_def split: if_splits)
qed

text \<open>
  With more threads than \<open>MAX_THREADS\<close>, either the first loop of the algorithm leaves the block of the groups, or the
  first level of groups leaves the array \<open>chosen\<close>, or, on a machine without shared levels, the root group its
  elements.
\<close>

lemma greedy_map_overrun:
  assumes "greedy_ready bits S st" "MAX_THREADS < nthreads m"
  shows "libmapping_mapping_algorithm_greedy_map fuel cfg g root m st mp = None"
proof (cases "init_threads (nthreads m) st")
  case None
  then show ?thesis by (simp add: libmapping_mapping_algorithm_greedy_map_def)
next
  case (Some st1)
  let ?nt = "nthreads m"
  have st1: "levels_n st1 = Suc (length S)" "length (chosen st1) = MAX_THREADS"
    using Some assms(1) by (auto simp: init_threads_def bind_eq_Some_conv greedy_ready_def greedy_wf_def)
  show ?thesis
  proof (cases "S = []")
    case True
    then show ?thesis
      using st1(1) put_loop_overrun[of "replicate MAX_THREADS None" ?nt "\<lambda>i. Some (0 :: nat, i)"] assms(2)
      by (simp add: libmapping_mapping_algorithm_greedy_map_def Some Let_def)
  next
    case False
    have "generate_groups b mm ?nt 1 st1 = None" for b mm
      using put_loop_overrun[of "chosen st1" ?nt "\<lambda>i. 0"] assms(2) st1(2) by (simp add: generate_groups_def Let_def split: bind_splits)
    then have "greedy_level b m 1 (st1, ?nt, M_init, 0) = None" for b by (simp add: greedy_level_def)
    moreover have "[1..<Suc (length S)] = 1 # [2..<Suc (length S)]" using False by (simp add: upt_conv_Cons numeral_2_eq_2 del: upt_Suc)
    ultimately show ?thesis
      by (simp add: libmapping_mapping_algorithm_greedy_map_def Some Let_def st1(1) del: upt_Suc)
  qed
qed

section \<open>All rounds\<close>

text \<open>A run of the loop over the registries of its rounds, with the log of its requests.\<close>

inductive rounds ::
  "(nat \<Rightarrow> u32) \<Rightarrow> nat \<Rightarrow> map_state \<Rightarrow> pid_state list \<Rightarrow> request list list \<Rightarrow> map_state \<Rightarrow> bool" for ids P where
  rounds_Nil: "rounds ids P st [] [] st"
| rounds_Cons: "round_done ids P p st st1 reqs \<Longrightarrow> rounds ids P st1 ps log st2 \<Longrightarrow> rounds ids P st (p # ps) (reqs # log) st2"

inductive_cases rounds_NilE: "rounds ids P st [] log st'"
inductive_cases rounds_ConsE: "rounds ids P st (p # ps) log st'"

lemma loop_ok:
  assumes hw: "hardware (t_graph t) ids as (t_root t)" "length as < me_fuel env" and bits: "bits = max_threads_bits cfg"
    and st: "map_wf bits (shared as) st" and inps: "\<forall>inp \<in> set inputs. input_ok bits inp"
  shows "wp (foldM (\<lambda>(pids, m) (st, log). do {
       (st, m, reqs) \<leftarrow> map_round env cfg t pids m st;
       Some (st, log @ [reqs])
     }) inputs (st, log))
    (\<lambda>(st', log'). \<exists>l. log' = log @ l \<and> map_wf bits (shared as) st' \<and> rounds ids (prod_list as) st (map fst inputs) l st')"
  using st inps
proof (induction inputs arbitrary: st log)
  case (Cons inp inputs)
  obtain pids m where inp: "inp = (pids, m)" by (cases inp)
  obtain st1 m1 reqs where r: "map_round env cfg t pids m st = Some (st1, m1, reqs)" "map_wf bits (shared as) st1"
    "round_done ids (prod_list as) pids st st1 reqs"
    using map_round_ok[OF hw bits Cons.prems(1), of pids m] Cons.prems(2) inp unfolding wp_iff split_paired_Ex by auto
  have "wp (foldM (\<lambda>(pids, m) (st, log). do {
       (st, m, reqs) \<leftarrow> map_round env cfg t pids m st;
       Some (st, log @ [reqs])
     }) inputs (st1, log @ [reqs]))
    (\<lambda>(st', log'). \<exists>l. log' = (log @ [reqs]) @ l \<and> map_wf bits (shared as) st' \<and> rounds ids (prod_list as) st1 (map fst inputs) l st')"
    using Cons.prems(2) by (intro Cons.IH r(2)) simp
  then show ?case
    using r(1,3) inp by (auto elim!: wp_mono intro: rounds_Cons)
qed (auto intro: rounds_Nil)

lemma map_setup_some:
  assumes "env_ok bits (length as) env" "bits = max_threads_bits cfg" "machine_ok as pu"
  obtains t gr where "map_setup env cfg as pu = Some (t, gr)" "hardware (t_graph t) (\<lambda>n. pu ! n) as (t_root t)"
    "length as < me_fuel env" "map_wf bits (shared as) (map_start gr)"
  using map_setup_ok[OF assms] assms(1)
  unfolding wp_iff split_paired_Ex by (auto simp: analysed_def analysed_tree_def env_ok_def map_wf_def map_start_def)

lemma spcd_map_func_ok:
  assumes "env_ok bits (length as) env" "bits = max_threads_bits cfg" "machine_ok as pu" "\<forall>inp \<in> set inputs. input_ok bits inp"
  shows "\<exists>t gr st log. map_setup env cfg as pu = Some (t, gr) \<and> spcd_map_func env cfg as pu inputs = Some (st, log) \<and>
    rounds (\<lambda>n. pu ! n) (prod_list as) (map_start gr) (map fst inputs) log st"
proof -
  obtain t gr where s: "map_setup env cfg as pu = Some (t, gr)" and hw: "hardware (t_graph t) (\<lambda>n. pu ! n) as (t_root t)"
    "length as < me_fuel env" and start: "map_wf bits (shared as) (map_start gr)"
    by (rule map_setup_some[OF assms(1-3)])
  from loop_ok[OF hw assms(2) start assms(4), of "[]"] s show ?thesis
    unfolding wp_iff split_paired_Ex by (auto simp: spcd_map_func_def)
qed

section \<open>The affinities\<close>

text \<open>The unit that each pid was last asked to move to.\<close>

definition affinity :: "request list \<Rightarrow> int \<rightharpoonup> u32" where
  "affinity reqs = map_of (rev reqs)"

lemma affinity_append: "affinity (xs @ ys) = affinity xs ++ affinity ys"
  by (simp add: affinity_def)

lemma affinity_requests:
  assumes "\<forall>i < nt. ps_pid (spcd_pid_reverse pids ! i) = pid i" "inj pid"
  shows "affinity (requests pids old mp nt) (pid i) = (if i < nt \<and> old ! i \<noteq> mp ! i then Some (mp ! i) else None)"
proof -
  let ?is = "filter (\<lambda>i. old ! i \<noteq> mp ! i) [0..<nt]"
  have req: "requests pids old mp nt = map (\<lambda>i. (pid i, mp ! i)) ?is"
    using assms(1) by (simp add: requests_def)
  have "distinct (map fst (rev (requests pids old mp nt)))"
    using assms(2) unfolding req by (simp add: rev_map comp_def distinct_map inj_on_def)
  then have "affinity (requests pids old mp nt) (pid i) = Some y \<longleftrightarrow> i < nt \<and> old ! i \<noteq> mp ! i \<and> y = mp ! i" for y
    unfolding affinity_def map_of_eq_Some_iff[OF \<open>distinct _\<close>] req using assms(2) by (auto dest: injD)
  then show ?thesis by (cases "affinity (requests pids old mp nt) (pid i)") auto
qed

text \<open>The threads that the last mapping covers have the affinities it says.\<close>

definition pinned :: "(nat \<Rightarrow> int) \<Rightarrow> u32 list \<Rightarrow> (int \<rightharpoonup> u32) \<Rightarrow> bool" where
  "pinned pid old aff \<longleftrightarrow> (\<forall>i < MAX_THREADS. old ! i \<noteq> - 1 \<longrightarrow> aff (pid i) = Some (old ! i))"

lemma pinned_requests:
  assumes "pinned pid old aff" "\<forall>i < nt. ps_pid (spcd_pid_reverse pids ! i) = pid i" "inj pid"
    and "nt \<le> MAX_THREADS" "nt \<le> length mp" "length old = MAX_THREADS"
  shows "pinned pid (take nt mp @ drop nt old) (aff ++ affinity (requests pids old mp nt))"
  using assms unfolding pinned_def
  by (auto simp: map_add_def nth_append min_def affinity_requests split: option.splits if_splits)

lemma rounds_pinned:
  assumes "rounds ids P st ps log st'" "pinned pid (ms_oldmap st) aff" "inj pid"
    and "length (ms_map st) = MAX_THREADS" "length (ms_oldmap st) = MAX_THREADS"
    and "\<forall>p \<in> set ps. 4 \<le> active_n p \<and> active_n p \<le> MAX_THREADS \<and> (\<forall>i < active_n p. ps_pid (spcd_pid_reverse p ! i) = pid i)"
  shows "pinned pid (ms_oldmap st') (aff ++ affinity (concat log)) \<and>
    (ps \<noteq> [] \<longrightarrow> take (active_n (last ps)) (ms_oldmap st') = take (active_n (last ps)) (ms_map st') \<and>
      (\<exists>mp. placed ids 0 P (ceil_div (active_n (last ps)) P) {..<active_n (last ps)} mp (ms_map st') \<and> length mp = MAX_THREADS))"
  using assms
proof (induction arbitrary: aff rule: rounds.induct)
  case (rounds_Nil st)
  then show ?case by (simp add: affinity_def)
next
  case (rounds_Cons p st st1 reqs ps log st2)
  let ?nt = "active_n p"
  have nt: "4 \<le> ?nt" "?nt \<le> MAX_THREADS" "\<forall>i < ?nt. ps_pid (spcd_pid_reverse p ! i) = pid i" using rounds_Cons.prems(5) by simp_all
  have rd: "placed ids 0 P (ceil_div ?nt P) {..<?nt} (ms_map st) (ms_map st1)" "reqs = requests p (ms_oldmap st) (ms_map st1) ?nt"
    "ms_oldmap st1 = take ?nt (ms_map st1) @ drop ?nt (ms_oldmap st)"
    using rounds_Cons.hyps(1) nt(1) by (simp_all add: round_done_def Let_def)
  have len: "length (ms_map st1) = MAX_THREADS" using rd(1) rounds_Cons.prems(3) by (simp add: placed_def)
  have len': "length (ms_oldmap st1) = MAX_THREADS" using rd(3) len rounds_Cons.prems(4) nt(2) by simp
  have pin: "pinned pid (ms_oldmap st1) (aff ++ affinity reqs)"
    unfolding rd(2,3) using rounds_Cons.prems nt len by (intro pinned_requests) simp_all
  note ih = rounds_Cons.IH[OF pin rounds_Cons.prems(2) len len']
  show ?case
  proof (cases "ps = []")
    case True
    then have "st2 = st1" "log = []" using rounds_Cons.hyps(2) by (auto elim: rounds_NilE)
    then show ?thesis using True pin rd(1,3) rounds_Cons.prems(3) len nt(2) by (auto simp: affinity_append)
  next
    case False
    then show ?thesis using ih rounds_Cons.prems(5) by (simp add: affinity_append)
  qed
qed

lemma rounds_append:
  assumes "rounds ids P st (ps @ qs) log st'"
  obtains l1 l2 st1 where "log = l1 @ l2" "length l1 = length ps" "rounds ids P st ps l1 st1" "rounds ids P st1 qs l2 st'"
  using assms
proof (induction ps arbitrary: st log thesis)
  case Nil
  then show ?case using rounds_Nil[of ids P st] by force
next
  case (Cons p ps)
  from Cons.prems(2) obtain st1 reqs log' where r: "log = reqs # log'" "round_done ids P p st st1 reqs"
    "rounds ids P st1 (ps @ qs) log' st'"
    by (auto elim: rounds_ConsE)
  from Cons.IH[OF _ r(3)] obtain l1 l2 st2 where "log' = l1 @ l2" "length l1 = length ps" "rounds ids P st1 ps l1 st2" "rounds ids P st2 qs l2 st'"
    by blast
  with r show ?case using Cons.prems(1)[of "reqs # l1" l2 st2] rounds_Cons by force
qed

lemma rounds_lengths:
  "rounds ids P st ps log st' \<Longrightarrow> length (ms_map st) = MAX_THREADS \<Longrightarrow> length (ms_map st') = MAX_THREADS"
  by (induction rule: rounds.induct) (auto simp: round_done_def placed_def Let_def split: if_splits)

section \<open>A small machine\<close>

definition demo_env :: map_env where
  "demo_env = \<lparr>me_fuel = 5, me_alloc = \<lambda>k. Some (replicate k 7), me_graph_allocated = True, me_opt_allocated = True,
     me_junk_vertex = \<lparr>v_type = GRAPH_ELTYPE_UNDEFINED, v_weight = 0, v_id = 0, v_pos = 0, linked = [], arity = 0\<rparr>,
     me_junk_edge = \<lparr>e_type = GRAPH_ELTYPE_UNDEFINED, e_weight = 0, e_id = 0, e_src = 0, e_dest = 0\<rparr>,
     me_junk_j = 3,
     me_junk_group = (\<lparr>g_type = GROUP_TYPE_GROUP, g_id = 0, g_nelements = 0, g_elements = replicate MAX_THREADS None\<rparr>, 0),
     me_matrix_0 = Some (replicate 16 9), me_matrix_1 = Some (replicate 16 9)\<rparr>"

definition demo_config :: config where
  "demo_config = \<lparr>max_threads = 4, max_threads_bits = 2, spcd_shift = 12, spcd_mem_hash_bits = 4, spcd_num_faults = 3,
     do_pf = True, do_map = True\<rparr>"

definition demo_registry :: "int \<Rightarrow> pid_state" where
  "demo_registry n = \<lparr>spcd_pid = [], spcd_pid_reverse = map (\<lambda>i. \<lparr>ps_pid = 100 + int i, ps_tid = int i\<rparr>) [0..<4],
     spcd_num_threads = n, spcd_active_threads = n\<rparr>"

lemma demo_env_ok: "env_ok 2 (length [1, 1, 2, 2 :: nat]) demo_env"
  by (simp add: env_ok_def demo_env_def allocates_def)

lemma demo_machine_ok: "machine_ok [1, 1, 2, 2] [0, 1, 2, 3]"
proof -
  have "\<forall>n \<in> {0, 1, 2, 3}. unat ([0, 1, 2, 3 :: u32] ! n) < 4" by simp
  moreover have "n \<in> {0, 1, 2, 3}" if "n < 4" for n :: nat using that by auto
  ultimately have "\<forall>n < 4. unat ([0, 1, 2, 3 :: u32] ! n) < 4" by blast
  then show ?thesis by (simp add: machine_ok_def)
qed

lemma demo_input_ok: "n \<in> {0, 4} \<Longrightarrow> input_ok 2 (demo_registry n, demo_matrix)"
  using demo_matrix_wf
  by (auto simp: input_ok_def demo_registry_def active_n_def spcd_get_active_threads_def dim_int_def MAX_THREADS_def)

lemma demo_bits: "2 = max_threads_bits demo_config"
  by (simp add: demo_config_def)

section \<open>Properties\<close>

text \<open>
  C20: the setup of the mapping thread. Where the memory is there and the machine has the units that the arities
  describe, the setup returns a topology whose graph is the machine's tree, and whose numbers are right: processing
  units and levels, arities and link weights by level, the units from left to right, one NUMA node with all of them,
  the objects of every level, the page geometry, and between any two units the length of a shortest path.
\<close>
theorem map_setup_spec:
  assumes "env_ok (max_threads_bits cfg) (length as) env" "machine_ok as pu"
  shows "\<exists>t gr. map_setup env cfg as pu = Some (t, gr) \<and> hardware (t_graph t) (\<lambda>n. pu ! n) as 0 \<and>
    analysed (t_graph t) (\<lambda>n. pu ! n) as 0 t \<and> greedy_ready (max_threads_bits cfg) (shared as) gr"
  using map_setup_ok[OF assms(1) refl assms(2)] unfolding wp_iff split_paired_Ex by auto

theorem map_setup_spec_witness:
  "\<exists>t gr. map_setup demo_env demo_config [1, 1, 2, 2] [0, 1, 2, 3] = Some (t, gr) \<and>
    analysed (t_graph t) (\<lambda>n. [0, 1, 2, 3] ! n) [1, 1, 2, 2] 0 t"
  using map_setup_spec[OF demo_env_ok[unfolded demo_bits] demo_machine_ok] by (elim exE conjE) (intro exI conjI)

text \<open>
  C8: the mapping algorithm. On the tree of a machine, for a matrix that holds the counts of the threads, the greedy
  algorithm ends, keeps its state reusable, and gives each of the threads, and no other entry of the array, one of
  the machine's processing units, none to more than the number of threads divided by the number of units, rounded
  up.
\<close>
theorem greedy_map_spec:
  assumes "hardware g ids as root" "length as < fuel" "greedy_ready (max_threads_bits cfg) (shared as) st"
    and "matrix_wf (max_threads_bits cfg) m" "int (nthreads m) \<le> dim_int (max_threads_bits cfg)"
    and "0 < nthreads m" "nthreads m \<le> MAX_THREADS" "nthreads m \<le> length mp"
  shows "\<exists>st' mp'. libmapping_mapping_algorithm_greedy_map fuel cfg g root m st mp = Some (st', mp') \<and>
    greedy_ready (max_threads_bits cfg) (shared as) st' \<and>
    placed ids 0 (prod_list as) (ceil_div (nthreads m) (prod_list as)) {..<nthreads m} mp mp'"
  using greedy_map_ok[OF assms(1,2,4-7) refl assms(3,8)] unfolding wp_iff split_paired_Ex by auto

theorem greedy_map_spec_witness:
  "\<exists>t gr gr' mp'. map_setup demo_env demo_config [1, 1, 2, 2] [0, 1, 2, 3] = Some (t, gr) \<and>
    libmapping_mapping_algorithm_greedy_map 5 demo_config (t_graph t) (t_root t) (demo_matrix\<lparr>nthreads := 3\<rparr>) gr [7, 7, 7, 7] = Some (gr', mp') \<and>
    placed (\<lambda>n. [0, 1, 2, 3] ! n) 0 4 1 {..<3} [7, 7, 7, 7] mp'"
proof -
  obtain t gr where s: "map_setup demo_env demo_config [1, 1, 2, 2] [0, 1, 2, 3] = Some (t, gr)"
    and hw: "hardware (t_graph t) (\<lambda>n. [0, 1, 2, 3] ! n) [1, 1, 2, 2] (t_root t)"
    and w: "map_wf 2 (shared [1, 1, 2, 2]) (map_start gr)"
    by (rule map_setup_some[OF demo_env_ok demo_bits demo_machine_ok])
  have gr: "greedy_ready (max_threads_bits demo_config) (shared [1, 1, 2, 2]) gr"
    using w by (simp add: map_wf_def map_start_def demo_bits[symmetric])
  let ?m = "demo_matrix\<lparr>nthreads := 3\<rparr>"
  have m: "matrix_wf (max_threads_bits demo_config) ?m" "int (nthreads ?m) \<le> dim_int (max_threads_bits demo_config)"
    "0 < nthreads ?m" "nthreads ?m \<le> MAX_THREADS" "nthreads ?m \<le> length [7, 7, 7, 7 :: u32]"
    using demo_matrix_wf by (simp_all add: demo_bits[symmetric] matrix_wf_def dim_int_def MAX_THREADS_def)
  have fuel: "length [1, 1, 2, 2 :: nat] < 5" by simp
  have vals: "prod_list [1, 1, 2, 2 :: nat] = 4" "nthreads ?m = 3" "ceil_div 3 4 = 1" by (simp_all add: ceil_div_def)
  from greedy_map_spec[OF hw fuel gr m, unfolded vals] s show ?thesis by (elim exE conjE) (intro exI conjI)
qed

text \<open>
  C14: a round of the mapping thread. On the analysed topology of a machine, with a well-formed matrix and at most as
  many active threads as the arrays, which have 128 elements, and the matrix hold, a round ends and keeps the state of
  the mapper well-formed. With at least four active threads the new mapping gives every number below the number of
  active threads a processing unit, no unit more than its share of them rounded up, and the kernel is asked to move
  exactly the threads of these numbers whose unit changed; with fewer threads nothing is asked and the remembered
  mapping is erased.
\<close>
theorem map_round_spec:
  assumes "hardware (t_graph t) ids as (t_root t)" "length as < me_fuel env" "map_wf (max_threads_bits cfg) (shared as) st"
    and "input_ok (max_threads_bits cfg) (pids, m)"
  shows "\<exists>st' m' reqs. map_round env cfg t pids m st = Some (st', m', reqs) \<and>
    map_wf (max_threads_bits cfg) (shared as) st' \<and> round_done ids (prod_list as) pids st st' reqs"
  using map_round_ok[OF assms(1,2) refl assms(3,4)] unfolding wp_iff split_paired_Ex by auto

theorem map_round_spec_witness:
  "\<exists>t gr st' m' reqs. map_setup demo_env demo_config [1, 1, 2, 2] [0, 1, 2, 3] = Some (t, gr) \<and>
    map_round demo_env demo_config t (demo_registry 4) demo_matrix (map_start gr) = Some (st', m', reqs) \<and>
    round_done (\<lambda>n. [0, 1, 2, 3] ! n) 4 (demo_registry 4) (map_start gr) st' reqs"
proof -
  obtain t gr where s: "map_setup demo_env demo_config [1, 1, 2, 2] [0, 1, 2, 3] = Some (t, gr)"
    and hw: "hardware (t_graph t) (\<lambda>n. [0, 1, 2, 3] ! n) [1, 1, 2, 2] (t_root t)" "length [1, 1, 2, 2 :: nat] < me_fuel demo_env"
    "map_wf 2 (shared [1, 1, 2, 2]) (map_start gr)"
    by (rule map_setup_some[OF demo_env_ok demo_bits demo_machine_ok])
  have "input_ok 2 (demo_registry 4, demo_matrix)" by (rule demo_input_ok) simp
  note round = map_round_spec[OF hw(1,2) hw(3)[unfolded demo_bits] this[unfolded demo_bits]]
  have four: "prod_list [1, 1, 2, 2 :: nat] = 4" by simp
  from round obtain st' m' reqs where r: "map_round demo_env demo_config t (demo_registry 4) demo_matrix (map_start gr) = Some (st', m', reqs)"
    "round_done (\<lambda>n. [0, 1, 2, 3] ! n) (prod_list [1, 1, 2, 2]) (demo_registry 4) (map_start gr) st' reqs"
    by (elim exE conjE) simp
  show ?thesis using s r(1) r(2)[unfolded four] by (intro exI conjI)
qed

text \<open>
  C36: too many threads. The arrays of the mapper have room for \<open>MAX_THREADS\<close> threads, which is 128, but nothing
  holds the number of active threads below that: with more of them, whatever the matrix, the next round writes
  outside its arrays.
\<close>
theorem map_round_overrun:
  assumes "map_wf bits S st" "MAX_THREADS < active_n pids"
  shows "map_round env cfg t pids m st = None"
proof -
  have "4 \<le> spcd_get_active_threads pids" using assms(2) by (simp add: active_n_def MAX_THREADS_def)
  moreover have "greedy_ready bits S (ms_greedy st)" using assms(1) by (simp add: map_wf_def)
  from greedy_map_overrun[OF this, of "m\<lparr>nthreads := active_n pids\<rparr>"] assms(2)
  have "libmapping_mapping_algorithm_greedy_map fuel cfg g root (m\<lparr>nthreads := active_n pids\<rparr>) (ms_greedy st) mp = None" for fuel g root mp
    by simp
  ultimately show ?thesis by (simp add: map_round_def active_n_def)
qed

theorem map_round_overrun_witness:
  "\<exists>t gr. map_setup demo_env demo_config [1, 1, 2, 2] [0, 1, 2, 3] = Some (t, gr) \<and>
    map_round demo_env demo_config t (demo_registry 129) demo_matrix (map_start gr) = None"
proof -
  obtain t gr where s: "map_setup demo_env demo_config [1, 1, 2, 2] [0, 1, 2, 3] = Some (t, gr)"
    and w: "map_wf 2 (shared [1, 1, 2, 2]) (map_start gr)"
    by (rule map_setup_some[OF demo_env_ok demo_bits demo_machine_ok])
  have "MAX_THREADS < active_n (demo_registry 129)"
    by (simp add: active_n_def demo_registry_def spcd_get_active_threads_def MAX_THREADS_def)
  from map_round_overrun[OF w this] s show ?thesis by blast
qed

text \<open>
  C17: the mapping thread never gets stuck. Where the memory it asks for is there and the machine has the units that
  the arities describe, the thread builds the topology and the mapper, and every sequence of rounds with admissible
  registries and matrices runs through, each round as \<open>map_round_spec\<close> says.
\<close>
theorem mapping_thread_never_stuck:
  assumes "env_ok (max_threads_bits cfg) (length as) env" "machine_ok as pu"
    and "\<forall>inp \<in> set inputs. input_ok (max_threads_bits cfg) inp"
  shows "\<exists>t gr st log. map_setup env cfg as pu = Some (t, gr) \<and> spcd_map_func env cfg as pu inputs = Some (st, log) \<and>
    rounds (\<lambda>n. pu ! n) (prod_list as) (map_start gr) (map fst inputs) log st"
  by (rule spcd_map_func_ok[OF assms(1) refl assms(2,3)])

theorem mapping_thread_never_stuck_witness:
  "\<exists>st log. spcd_map_func demo_env demo_config [1, 1, 2, 2] [0, 1, 2, 3] [(demo_registry 0, demo_matrix), (demo_registry 4, demo_matrix)] =
    Some (st, log)"
  using mapping_thread_never_stuck[of demo_config "[1, 1, 2, 2]" demo_env "[0, 1, 2, 3]"
      "[(demo_registry 0, demo_matrix), (demo_registry 4, demo_matrix)]"]
    demo_env_ok demo_machine_ok demo_input_ok by (simp add: demo_bits[symmetric]) blast

text \<open>
  C7: the threads get their places. After an idle round, while the threads of the application keep their numbers and
  at least four are active, the units that the kernel was last asked to move them to are those of the current
  mapping: every thread whose number is below the number of active threads has been sent to one of the machine's
  units, and no unit has more than its share of these numbers rounded up. (After an exit a thread can have a higher
  number; a round does not move it.)
\<close>
theorem threads_pinned:
  assumes env: "env_ok (max_threads_bits cfg) (length as) env" and mach: "machine_ok as pu"
    and inps: "\<forall>inp \<in> set (before @ idle # active). input_ok (max_threads_bits cfg) inp"
    and idle: "active_n (fst idle) < 4" and act: "active \<noteq> []" and pid: "inj pid"
      "\<forall>inp \<in> set active. 4 \<le> active_n (fst inp) \<and> (\<forall>i < active_n (fst inp). ps_pid (spcd_pid_reverse (fst inp) ! i) = pid i)"
    and nt: "nt = active_n (fst (last active))"
  shows "\<exists>st log pl. spcd_map_func env cfg as pu (before @ idle # active) = Some (st, log) \<and>
    (\<forall>i < nt. pl i < prod_list as \<and> affinity (concat (drop (Suc (length before)) log)) (pid i) = Some (pu ! pl i)) \<and>
    (\<forall>k. card {i. i < nt \<and> pl i = k} \<le> ceil_div nt (prod_list as))"
proof -
  let ?ids = "\<lambda>n. pu ! n" and ?P = "prod_list as"
  obtain gr st log where run: "spcd_map_func env cfg as pu (before @ idle # active) = Some (st, log)"
    and r: "rounds ?ids ?P (map_start gr) (map fst before @ fst idle # map fst active) log st"
    using spcd_map_func_ok[OF env refl mach inps] by auto
  from rounds_append[OF r] obtain l1 l2 st1 where l: "log = l1 @ l2" "length l1 = length before"
    "rounds ?ids ?P (map_start gr) (map fst before) l1 st1" "rounds ?ids ?P st1 (fst idle # map fst active) l2 st"
    by auto
  from l(4) obtain st2 reqs l3 where s2: "l2 = reqs # l3" "round_done ?ids ?P (fst idle) st1 st2 reqs" "rounds ?ids ?P st2 (map fst active) l3 st"
    by (auto elim: rounds_ConsE)
  have len: "length (ms_map st1) = MAX_THREADS" using rounds_lengths[OF l(3)] by (simp add: map_start_def)
  have st2: "ms_map st2 = ms_map st1" "ms_oldmap st2 = replicate MAX_THREADS (- 1)"
    using s2(2) idle by (simp_all add: round_done_def)
  have ok: "\<forall>p \<in> set (map fst active). 4 \<le> active_n p \<and> active_n p \<le> MAX_THREADS \<and> (\<forall>i < active_n p. ps_pid (spcd_pid_reverse p ! i) = pid i)"
    using pid(2) inps by (auto simp: input_ok_def)
  have "pinned pid (ms_oldmap st2) Map.empty" unfolding st2 by (simp add: pinned_def)
  from rounds_pinned[OF s2(3) this pid(1) _ _ ok] len st2 act
  obtain mp where fin: "pinned pid (ms_oldmap st) (affinity (concat l3))" "take nt (ms_oldmap st) = take nt (ms_map st)"
    "placed ?ids 0 ?P (ceil_div nt ?P) {..<nt} mp (ms_map st)"
    by (auto simp: last_map nt)
  from fin(3) obtain pl where pl: "\<forall>i < nt. pl i < ?P \<and> ms_map st ! i = pu ! pl i" "\<forall>k. card {i \<in> {..<nt}. pl i = k} \<le> ceil_div nt ?P"
    by (auto simp: placed_def)
  have le: "nt \<le> MAX_THREADS" using ok act nt by (simp add: last_map)
  have "affinity (concat l3) (pid i) = Some (pu ! pl i)" if i: "i < nt" for i
  proof -
    have same: "ms_oldmap st ! i = ms_map st ! i" using fin(2) i by (metis nth_take)
    have "unat (pu ! pl i) < 2 ^ 15" using pl(1) i mach prod_le_tree_size[of as] by (fastforce simp: machine_ok_def)
    moreover have "unat (- 1 :: u32) = 2 ^ 32 - 1" by (simp add: unsigned_minus_1_eq_mask mask_eq_exp_minus_1)
    ultimately have "pu ! pl i \<noteq> - 1" by auto
    then show ?thesis using fin(1) i le pl(1) same by (auto simp: pinned_def)
  qed
  moreover have "drop (Suc (length before)) log = l3" using l(1,2) s2(1) by simp
  ultimately show ?thesis using run pl by (intro exI[of _ st] exI[of _ log] exI[of _ pl]) (simp add: lessThan_def)
qed

theorem threads_pinned_witness:
  "\<exists>st log pl. spcd_map_func demo_env demo_config [1, 1, 2, 2] [0, 1, 2, 3] ([] @ (demo_registry 0, demo_matrix) # [(demo_registry 4, demo_matrix)]) =
      Some (st, log) \<and>
    (\<forall>i < 4. pl i < 4 \<and> affinity (concat (drop 1 log)) (100 + int i) = Some ([0, 1, 2, 3] ! pl i)) \<and>
    (\<forall>k. card {i. i < 4 \<and> pl i = k} \<le> ceil_div 4 4)"
proof -
  let ?idle = "(demo_registry 0, demo_matrix)" and ?act = "[(demo_registry 4, demo_matrix)]"
  have inps: "\<forall>inp \<in> set ([] @ ?idle # ?act). input_ok (max_threads_bits demo_config) inp"
    using demo_input_ok by (simp add: demo_bits[symmetric])
  have pid: "inj (\<lambda>i. 100 + int i)" by (simp add: inj_def)
  have idle: "active_n (fst ?idle) < 4" by (simp add: active_n_def demo_registry_def spcd_get_active_threads_def)
  have n: "active_n (demo_registry 4) = 4" by (simp add: active_n_def demo_registry_def spcd_get_active_threads_def)
  then have same: "\<forall>inp \<in> set ?act. 4 \<le> active_n (fst inp) \<and> (\<forall>i < active_n (fst inp). ps_pid (spcd_pid_reverse (fst inp) ! i) = 100 + int i)"
    by (simp add: demo_registry_def nth_append)
  have nt: "4 = active_n (fst (last ?act))" using n by simp
  have four: "prod_list [1, 1, 2, 2 :: nat] = 4" "Suc (length []) = 1" by simp_all
  show ?thesis
    by (rule threads_pinned[OF demo_env_ok[unfolded demo_bits] demo_machine_ok inps idle _ pid same nt, unfolded four]) simp
qed

end
