(* ===== verification/Cdsm_Topo.thy ===== *)
theory Cdsm_Topo
  imports Cdsm_Prelude
begin

text \<open>
  The detection of the machine, \<open>src/topo.c\<close>. The kernel's masks are parameters: \<open>for_each_online_node\<close> and the
  masks that \<open>for_each_cpu\<close> walks over, as the lists of their members in the order of the walk. \<open>char seen[256]\<close>
  and \<open>int pu[256]\<close> are arrays that the code indexes without a check.
\<close>

section \<open>The code\<close>

record cpu_masks =
  online_nodes :: "nat list"
  cpumask_of_node :: "nat \<Rightarrow> nat list"
  cpu_core_mask :: "nat \<Rightarrow> nat list"
  cpu_sibling_mask :: "nat \<Rightarrow> nat list"

record topo_state =
  num_nodes :: nat
  num_cpus :: nat
  num_cores :: nat
  num_threads :: nat
  pu :: "u32 list"
  pu_index :: nat
  seen :: "bool list"

definition topo_boot :: topo_state where
  "topo_boot = \<lparr>num_nodes = 0, num_cpus = 0, num_cores = 0, num_threads = 0, pu = replicate 256 0, pu_index = 0,
     seen = replicate 256 False\<rparr>"

definition unless_seen :: "(nat \<Rightarrow> topo_state \<Rightarrow> topo_state option) \<Rightarrow> nat \<Rightarrow> topo_state \<Rightarrow> topo_state option" where
  "unless_seen body x st = do { s \<leftarrow> aget (seen st) x; if s then Some st else body x st }"

definition take_thread :: "nat \<Rightarrow> topo_state \<Rightarrow> topo_state option" where
  "take_thread x st = do {
     seen' \<leftarrow> aput (seen st) x True;
     pu' \<leftarrow> aput (pu st) (pu_index st) (of_nat x);
     Some (st\<lparr>seen := seen', num_threads := num_threads st + 1, pu := pu', pu_index := pu_index st + 1\<rparr>)
   }"

definition visit_core :: "cpu_masks \<Rightarrow> nat \<Rightarrow> topo_state \<Rightarrow> topo_state option" where
  "visit_core hw x st = do {
     st \<leftarrow> take_thread x (st\<lparr>num_cores := num_cores st + 1\<rparr>);
     foldM (unless_seen take_thread) (cpu_sibling_mask hw x) st
   }"

definition visit_cpu :: "cpu_masks \<Rightarrow> nat \<Rightarrow> topo_state \<Rightarrow> topo_state option" where
  "visit_cpu hw x st = foldM (unless_seen (visit_core hw)) (cpu_core_mask hw x) (st\<lparr>num_cpus := num_cpus st + 1\<rparr>)"

definition visit_node :: "cpu_masks \<Rightarrow> nat \<Rightarrow> topo_state \<Rightarrow> topo_state option" where
  "visit_node hw n st = foldM (unless_seen (visit_cpu hw)) (cpumask_of_node hw n) (st\<lparr>num_nodes := num_nodes st + 1\<rparr>)"

definition topo_init :: "cpu_masks \<Rightarrow> topo_state option" where
  "topo_init hw = do {
     st \<leftarrow> foldM (visit_node hw) (online_nodes hw) topo_boot;
     if num_cores st = 0 \<or> num_cpus st = 0 \<or> num_nodes st = 0 then None
     else Some (st\<lparr>num_threads := num_threads st div num_cores st, num_cores := num_cores st div num_cpus st,
       num_cpus := num_cpus st div num_nodes st\<rparr>)
   }"

section \<open>The first of every class\<close>

fun firsts :: "('a \<Rightarrow> 'b) \<Rightarrow> 'a list \<Rightarrow> 'a list" where
  "firsts f [] = []"
| "firsts f (x # xs) = x # firsts f (filter (\<lambda>y. f y \<noteq> f x) xs)"

lemma firsts_subset: "set (firsts f xs) \<subseteq> set xs"
  by (induction f xs rule: firsts.induct) auto

lemma firsts_image: "f ` set (firsts f xs) = f ` set xs"
  by (induction f xs rule: firsts.induct) auto

lemma firsts_distinct: "distinct (map f (firsts f xs))"
proof (induction f xs rule: firsts.induct)
  case (2 f x xs)
  have "f x \<notin> f ` set (firsts f (filter (\<lambda>y. f y \<noteq> f x) xs))" unfolding firsts_image by auto
  with 2 show ?case by simp
qed simp

lemma firsts_length: "length (firsts f xs) = card (f ` set xs)"
  using distinct_card[OF firsts_distinct[of f xs]] by (simp add: firsts_image)

lemma firsts_id: "distinct xs \<Longrightarrow> firsts (\<lambda>x. x) xs = xs"
proof (induction xs)
  case (Cons x xs)
  then have "filter (\<lambda>y. y \<noteq> x) xs = xs" by (auto intro: filter_True)
  with Cons show ?case by simp
qed simp

section \<open>The loops\<close>

text \<open>The units found so far, in order; everything found is marked as seen.\<close>

definition tracks :: "nat list \<Rightarrow> nat \<Rightarrow> nat \<Rightarrow> nat \<Rightarrow> topo_state \<Rightarrow> bool" where
  "tracks L nn nc nk st \<longleftrightarrow> distinct L \<and> (\<forall>x \<in> set L. x < 256) \<and> length (pu st) = 256 \<and> length (seen st) = 256 \<and>
     (\<forall>x < 256. seen st ! x \<longleftrightarrow> x \<in> set L) \<and> pu_index st = length L \<and> num_threads st = length L \<and>
     take (length L) (pu st) = map of_nat L \<and> num_nodes st = nn \<and> num_cpus st = nc \<and> num_cores st = nk"

definition complete :: "nat set \<Rightarrow> (nat \<Rightarrow> nat) \<Rightarrow> nat list \<Rightarrow> bool" where
  "complete cpus f L \<longleftrightarrow> set L \<subseteq> cpus \<and> (\<forall>x \<in> set L. \<forall>y \<in> cpus. f y = f x \<longrightarrow> y \<in> set L)"

lemma take_thread_ok:
  assumes "tracks L nn nc nk st" "x < 256" "x \<notin> set L"
  shows "wp (take_thread x st) (tracks (L @ [x]) nn nc nk)"
proof -
  have "card (insert x (set L)) \<le> card {..<256 :: nat}"
    using assms by (intro card_mono) (auto simp: tracks_def)
  then have len: "length L < 256" using assms distinct_card[of L] by (simp add: tracks_def)
  have "take (length L) (pu st) = map of_nat L" "length (pu st) = 256" using assms(1) by (simp_all add: tracks_def)
  then have "take (Suc (length L)) ((pu st)[length L := of_nat x]) = map of_nat L @ [of_nat x]"
    using len by (simp add: take_Suc_conv_app_nth)
  with assms len show ?thesis by (auto simp: take_thread_def tracks_def nth_list_update)
qed

lemma visit_all:
  assumes body: "\<And>x L nc nk st. x \<in> cpus \<Longrightarrow> tracks L nn nc nk st \<Longrightarrow> complete cpus f L \<Longrightarrow> x \<notin> set L \<Longrightarrow>
      wp (body x st) (tracks (L @ blk x) nn (nc + dc x) (nk + dk x))"
    and blk: "\<And>x. x \<in> cpus \<Longrightarrow> set (blk x) = {y \<in> cpus. f y = f x}"
    and bound: "\<forall>x \<in> cpus. x < 256"
    and st: "tracks L nn nc nk st" "complete cpus f L" "set xs \<subseteq> cpus"
  shows "wp (foldM (unless_seen body) xs st) (\<lambda>st'. let ns = firsts f (filter (\<lambda>x. x \<notin> set L) xs) in
    tracks (L @ concat (map blk ns)) nn (nc + sum_list (map dc ns)) (nk + sum_list (map dk ns)) st')"
  using st
proof (induction xs arbitrary: L nc nk st)
  case (Cons x xs)
  have x: "x \<in> cpus" "x < 256" "set xs \<subseteq> cpus" using Cons.prems(3) bound by auto
  then have mark: "aget (seen st) x = Some (x \<in> set L)" using Cons.prems(1) by (simp add: tracks_def)
  show ?case
  proof (cases "x \<in> set L")
    case True
    then show ?thesis using Cons.IH[OF Cons.prems(1,2) x(3)] mark by (simp add: unless_seen_def)
  next
    case False
    from body[OF x(1) Cons.prems(1,2) False] obtain st1 where st1: "body x st = Some st1"
      "tracks (L @ blk x) nn (nc + dc x) (nk + dk x) st1"
      by (auto elim: wpE)
    have comp: "complete cpus f (L @ blk x)" using Cons.prems(2) blk[OF x(1)] by (auto simp: complete_def)
    have rest: "filter (\<lambda>y. y \<notin> set (L @ blk x)) xs = filter (\<lambda>y. f y \<noteq> f x) (filter (\<lambda>y. y \<notin> set L) xs)"
      using blk[OF x(1)] x(3) by (auto intro!: filter_cong)
    show ?thesis
      using Cons.IH[OF st1(2) comp x(3)] mark False st1(1) unfolding rest
      by (simp add: unless_seen_def Let_def add.assoc)
  qed
qed (simp add: Let_def)

section \<open>The machine\<close>

text \<open>
  What the kernel's masks say: the cpus that are online, and by \<open>node\<close>, \<open>pkg\<close> and \<open>core\<close> the NUMA node, the
  package and the core of each. Cpus of a core are in one package and cpus of a package in one node.
\<close>

definition masks_ok :: "cpu_masks \<Rightarrow> nat set \<Rightarrow> (nat \<Rightarrow> nat) \<Rightarrow> (nat \<Rightarrow> nat) \<Rightarrow> (nat \<Rightarrow> nat) \<Rightarrow> bool" where
  "masks_ok hw cpus node pkg core \<longleftrightarrow> (\<forall>x \<in> cpus. x < 256) \<and> cpus \<noteq> {} \<and>
     distinct (online_nodes hw) \<and> node ` cpus \<subseteq> set (online_nodes hw) \<and>
     (\<forall>n. distinct (cpumask_of_node hw n) \<and> set (cpumask_of_node hw n) = {x \<in> cpus. node x = n}) \<and>
     (\<forall>x \<in> cpus. distinct (cpu_core_mask hw x) \<and> set (cpu_core_mask hw x) = {y \<in> cpus. pkg y = pkg x}) \<and>
     (\<forall>x \<in> cpus. distinct (cpu_sibling_mask hw x) \<and> set (cpu_sibling_mask hw x) = {y \<in> cpus. core y = core x}) \<and>
     (\<forall>x \<in> cpus. \<forall>y \<in> cpus. (core x = core y \<longrightarrow> pkg x = pkg y) \<and> (pkg x = pkg y \<longrightarrow> node x = node y))"

lemma masks_okD:
  assumes "masks_ok hw cpus node pkg core"
  shows "\<forall>x \<in> cpus. x < 256" "distinct (cpumask_of_node hw n)" "set (cpumask_of_node hw n) = {x \<in> cpus. node x = n}"
    "x \<in> cpus \<Longrightarrow> set (cpu_core_mask hw x) = {y \<in> cpus. pkg y = pkg x}"
    "x \<in> cpus \<Longrightarrow> distinct (cpu_sibling_mask hw x)"
    "x \<in> cpus \<Longrightarrow> set (cpu_sibling_mask hw x) = {y \<in> cpus. core y = core x}"
    "x \<in> cpus \<Longrightarrow> y \<in> cpus \<Longrightarrow> core x = core y \<Longrightarrow> pkg x = pkg y"
    "x \<in> cpus \<Longrightarrow> y \<in> cpus \<Longrightarrow> pkg x = pkg y \<Longrightarrow> node x = node y"
  using assms unfolding masks_ok_def by blast+

text \<open>The units in the order in which the code finds them.\<close>

definition core_cpus :: "cpu_masks \<Rightarrow> nat \<Rightarrow> nat list" where
  "core_cpus hw x = x # filter (\<lambda>y. y \<noteq> x) (cpu_sibling_mask hw x)"

definition pkg_cores :: "cpu_masks \<Rightarrow> (nat \<Rightarrow> nat) \<Rightarrow> nat \<Rightarrow> nat list" where
  "pkg_cores hw core x = firsts core (cpu_core_mask hw x)"

definition node_pkgs :: "cpu_masks \<Rightarrow> (nat \<Rightarrow> nat) \<Rightarrow> nat \<Rightarrow> nat list" where
  "node_pkgs hw pkg n = firsts pkg (cpumask_of_node hw n)"

definition pkg_cpus :: "cpu_masks \<Rightarrow> (nat \<Rightarrow> nat) \<Rightarrow> nat \<Rightarrow> nat list" where
  "pkg_cpus hw core x = concat (map (core_cpus hw) (pkg_cores hw core x))"

definition node_cpus :: "cpu_masks \<Rightarrow> (nat \<Rightarrow> nat) \<Rightarrow> (nat \<Rightarrow> nat) \<Rightarrow> nat \<Rightarrow> nat list" where
  "node_cpus hw pkg core n = concat (map (pkg_cpus hw core) (node_pkgs hw pkg n))"

lemma core_cpus_set:
  assumes "masks_ok hw cpus node pkg core" "x \<in> cpus"
  shows "set (core_cpus hw x) = {y \<in> cpus. core y = core x}" "length (core_cpus hw x) = card {y \<in> cpus. core y = core x}"
proof -
  show s: "set (core_cpus hw x) = {y \<in> cpus. core y = core x}"
    using assms(2) masks_okD(6)[OF assms] by (auto simp: core_cpus_def)
  have "distinct (core_cpus hw x)" using masks_okD(5)[OF assms] by (simp add: core_cpus_def)
  from distinct_card[OF this] show "length (core_cpus hw x) = card {y \<in> cpus. core y = core x}" by (simp add: s)
qed

lemma firsts_cover:
  assumes "set xs = {y \<in> cpus. P y}" "\<And>y. y \<in> cpus \<Longrightarrow> P y \<Longrightarrow> set (blk y) = {z \<in> cpus. f z = f y}"
    and "\<And>y z. y \<in> cpus \<Longrightarrow> z \<in> cpus \<Longrightarrow> f y = f z \<Longrightarrow> P y \<Longrightarrow> P z"
  shows "set (concat (map blk (firsts f xs))) = {y \<in> cpus. P y}"
proof (intro set_eqI iffI)
  fix z assume "z \<in> set (concat (map blk (firsts f xs)))"
  then obtain y where y: "y \<in> set (firsts f xs)" "z \<in> set (blk y)" by auto
  then have "y \<in> cpus" "P y" using firsts_subset[of f xs] assms(1) by auto
  then show "z \<in> {y \<in> cpus. P y}" using y(2) assms(2)[of y] assms(3)[of y z] by auto
next
  fix z assume z: "z \<in> {y \<in> cpus. P y}"
  then have "f z \<in> f ` set (firsts f xs)" unfolding firsts_image using assms(1) by auto
  then obtain y where y: "y \<in> set (firsts f xs)" "f z = f y" by auto
  then have "y \<in> cpus" "P y" using firsts_subset[of f xs] assms(1) by auto
  then have "z \<in> set (blk y)" using assms(2)[of y] y(2) z by auto
  with y(1) show "z \<in> set (concat (map blk (firsts f xs)))" by auto
qed

lemma pkg_cpus_set:
  assumes "masks_ok hw cpus node pkg core" "x \<in> cpus"
  shows "set (pkg_cpus hw core x) = {y \<in> cpus. pkg y = pkg x}"
  unfolding pkg_cpus_def pkg_cores_def
proof (rule firsts_cover)
  show "set (cpu_core_mask hw x) = {y \<in> cpus. pkg y = pkg x}" using masks_okD(4)[OF assms] .
  show "pkg z = pkg x" if "y \<in> cpus" "z \<in> cpus" "core y = core z" "pkg y = pkg x" for y z
    using masks_okD(7)[OF assms(1)] that by metis
qed (use core_cpus_set[OF assms(1)] in simp)

lemma node_cpus_set:
  assumes "masks_ok hw cpus node pkg core"
  shows "set (node_cpus hw pkg core n) = {y \<in> cpus. node y = n}"
  unfolding node_cpus_def node_pkgs_def
proof (rule firsts_cover)
  show "set (cpumask_of_node hw n) = {y \<in> cpus. node y = n}" using masks_okD(3)[OF assms] .
  show "node z = n" if "y \<in> cpus" "z \<in> cpus" "pkg y = pkg z" "node y = n" for y z
    using masks_okD(8)[OF assms(1)] that by metis
qed (use pkg_cpus_set[OF assms(1)] in simp)

section \<open>What the code finds\<close>

lemma visit_core_ok:
  assumes hw: "masks_ok hw cpus node pkg core" and x: "x \<in> cpus"
    and st: "tracks L nn nc nk st" "complete cpus core L" "x \<notin> set L"
  shows "wp (visit_core hw x st) (tracks (L @ core_cpus hw x) nn (nc + 0) (nk + 1))"
proof -
  have bound: "\<forall>x \<in> cpus. x < 256" by (rule masks_okD(1)[OF hw])
  have "tracks L nn nc (Suc nk) (st\<lparr>num_cores := num_cores st + 1\<rparr>)" using st(1) by (simp add: tracks_def)
  from take_thread_ok[OF this _ st(3)] obtain st1 where st1: "take_thread x (st\<lparr>num_cores := num_cores st + 1\<rparr>) = Some st1"
    "tracks (L @ [x]) nn nc (Suc nk) st1"
    using bound x by (auto elim: wpE)
  have sub: "set (cpu_sibling_mask hw x) \<subseteq> cpus" using masks_okD(6)[OF hw x] by auto
  have comp: "complete cpus (\<lambda>x. x) (L @ [x])" using st(2) x by (auto simp: complete_def)
  have out: "y \<notin> set L" if "y \<in> set (cpu_sibling_mask hw x)" for y
    using that st(2,3) x masks_okD(6)[OF hw x] by (auto simp: complete_def)
  have new: "filter (\<lambda>y. y \<notin> set (L @ [x])) (cpu_sibling_mask hw x) = filter (\<lambda>y. y \<noteq> x) (cpu_sibling_mask hw x)"
    using out by (auto intro!: filter_cong)
  have dist: "distinct (filter (\<lambda>y. y \<noteq> x) (cpu_sibling_mask hw x))" using masks_okD(5)[OF hw x] by simp
  have "wp (foldM (unless_seen take_thread) (cpu_sibling_mask hw x) st1) (\<lambda>st'.
      let ns = firsts (\<lambda>x. x) (filter (\<lambda>y. y \<notin> set (L @ [x])) (cpu_sibling_mask hw x)) in
      tracks ((L @ [x]) @ concat (map (\<lambda>y. [y]) ns)) nn (nc + sum_list (map (\<lambda>_. 0) ns)) (Suc nk + sum_list (map (\<lambda>_. 0) ns)) st')"
    by (rule visit_all[where cpus = cpus, OF _ _ bound st1(2) comp sub]) (use bound in \<open>auto intro: take_thread_ok\<close>)
  then show ?thesis
    unfolding new firsts_id[OF dist] visit_core_def st1(1) Option.bind.bind_lunit by (simp add: core_cpus_def Let_def)
qed

lemma complete_finer:
  assumes "complete cpus f L" "\<And>x y. x \<in> cpus \<Longrightarrow> y \<in> cpus \<Longrightarrow> g x = g y \<Longrightarrow> f x = f y"
  shows "complete cpus g L"
  unfolding complete_def
proof (intro conjI ballI impI)
  fix x y assume xy: "x \<in> set L" "y \<in> cpus" "g y = g x"
  then have "x \<in> cpus" using assms(1) by (auto simp: complete_def)
  then have "f y = f x" using assms(2)[of y x] xy by simp
  then show "y \<in> set L" using assms(1) xy by (auto simp: complete_def)
qed (use assms(1) in \<open>simp add: complete_def\<close>)

lemma visit_cpu_ok:
  assumes hw: "masks_ok hw cpus node pkg core" and x: "x \<in> cpus"
    and st: "tracks L nn nc nk st" "complete cpus pkg L" "x \<notin> set L"
  shows "wp (visit_cpu hw x st) (tracks (L @ pkg_cpus hw core x) nn (nc + 1) (nk + length (pkg_cores hw core x)))"
proof -
  have st1: "tracks L nn (Suc nc) nk (st\<lparr>num_cpus := num_cpus st + 1\<rparr>)" using st(1) by (simp add: tracks_def)
  have comp: "complete cpus core L" by (rule complete_finer[OF st(2)]) (rule masks_okD(7)[OF hw])
  have sub: "set (cpu_core_mask hw x) \<subseteq> cpus" using masks_okD(4)[OF hw x] by auto
  have out: "y \<notin> set L" if "y \<in> set (cpu_core_mask hw x)" for y
    using that st(2,3) x masks_okD(4)[OF hw x] by (auto simp: complete_def)
  then have new: "filter (\<lambda>y. y \<notin> set L) (cpu_core_mask hw x) = cpu_core_mask hw x" by (auto intro: filter_True)
  have "wp (foldM (unless_seen (visit_core hw)) (cpu_core_mask hw x) (st\<lparr>num_cpus := num_cpus st + 1\<rparr>)) (\<lambda>st'.
      let ns = firsts core (filter (\<lambda>y. y \<notin> set L) (cpu_core_mask hw x)) in
      tracks (L @ concat (map (core_cpus hw) ns)) nn (Suc nc + sum_list (map (\<lambda>_. 0) ns)) (nk + sum_list (map (\<lambda>_. 1) ns)) st')"
    by (rule visit_all[OF _ _ masks_okD(1)[OF hw] st1 comp sub])
      (use visit_core_ok[OF hw] core_cpus_set(1)[OF hw] in auto)
  then show ?thesis unfolding new by (simp add: visit_cpu_def pkg_cpus_def pkg_cores_def Let_def sum_list_triv)
qed

lemma visit_node_ok:
  assumes hw: "masks_ok hw cpus node pkg core"
    and st: "tracks L nn nc nk st" "complete cpus pkg L" "\<forall>x \<in> set L. node x \<noteq> n"
  shows "wp (visit_node hw n st) (tracks (L @ node_cpus hw pkg core n) (nn + 1) (nc + length (node_pkgs hw pkg n))
    (nk + sum_list (map (\<lambda>x. length (pkg_cores hw core x)) (node_pkgs hw pkg n))))"
proof -
  have st1: "tracks L (Suc nn) nc nk (st\<lparr>num_nodes := num_nodes st + 1\<rparr>)" using st(1) by (simp add: tracks_def)
  have sub: "set (cpumask_of_node hw n) \<subseteq> cpus" using masks_okD(3)[OF hw] by auto
  have "y \<notin> set L" if "y \<in> set (cpumask_of_node hw n)" for y
    using that st(3) masks_okD(3)[OF hw] by auto
  then have new: "filter (\<lambda>y. y \<notin> set L) (cpumask_of_node hw n) = cpumask_of_node hw n" by (auto intro: filter_True)
  have "wp (foldM (unless_seen (visit_cpu hw)) (cpumask_of_node hw n) (st\<lparr>num_nodes := num_nodes st + 1\<rparr>)) (\<lambda>st'.
      let ns = firsts pkg (filter (\<lambda>y. y \<notin> set L) (cpumask_of_node hw n)) in
      tracks (L @ concat (map (pkg_cpus hw core) ns)) (Suc nn) (nc + sum_list (map (\<lambda>_. 1) ns))
        (nk + sum_list (map (\<lambda>x. length (pkg_cores hw core x)) ns)) st')"
    by (rule visit_all[OF _ _ masks_okD(1)[OF hw] st1 st(2) sub])
      (use visit_cpu_ok[OF hw] pkg_cpus_set[OF hw] in auto)
  then show ?thesis unfolding new by (simp add: visit_node_def node_cpus_def node_pkgs_def Let_def sum_list_triv)
qed

lemma visit_nodes_ok:
  assumes hw: "masks_ok hw cpus node pkg core"
    and st: "tracks L nn nc nk st" "complete cpus pkg L" "\<forall>x \<in> set L. node x \<notin> set ns" "distinct ns"
  shows "wp (foldM (visit_node hw) ns st) (tracks (L @ concat (map (node_cpus hw pkg core) ns)) (nn + length ns)
    (nc + length (concat (map (node_pkgs hw pkg) ns)))
    (nk + sum_list (map (\<lambda>x. length (pkg_cores hw core x)) (concat (map (node_pkgs hw pkg) ns)))))"
  using st
proof (induction ns arbitrary: L nn nc nk st)
  case (Cons n ns)
  from visit_node_ok[OF hw Cons.prems(1,2), of n] Cons.prems(3) obtain st1 where st1: "visit_node hw n st = Some st1"
    "tracks (L @ node_cpus hw pkg core n) (nn + 1) (nc + length (node_pkgs hw pkg n))
      (nk + sum_list (map (\<lambda>x. length (pkg_cores hw core x)) (node_pkgs hw pkg n))) st1"
    by (auto elim: wpE)
  have comp: "complete cpus pkg (L @ node_cpus hw pkg core n)"
    unfolding complete_def
  proof (intro conjI ballI impI)
    fix x y assume xy: "x \<in> set (L @ node_cpus hw pkg core n)" "y \<in> cpus" "pkg y = pkg x"
    then have "x \<in> cpus" using Cons.prems(2) by (auto simp: complete_def node_cpus_set[OF hw])
    then have "node y = node x" using masks_okD(8)[OF hw xy(2)] xy(3) by blast
    with xy Cons.prems(2) show "y \<in> set (L @ node_cpus hw pkg core n)" by (auto simp: complete_def node_cpus_set[OF hw])
  qed (use Cons.prems(2) in \<open>auto simp: complete_def node_cpus_set[OF hw]\<close>)
  have out: "\<forall>x \<in> set (L @ node_cpus hw pkg core n). node x \<notin> set ns"
    using Cons.prems(3,4) by (auto simp: node_cpus_set[OF hw])
  from Cons.IH[OF st1(2) comp out] Cons.prems(4) st1(1) show ?case by (simp add: add.assoc)
qed simp

section \<open>Blocks\<close>

lemma concat_concat_map: "concat (map (\<lambda>x. concat (map h (k x))) xs) = concat (map h (concat (map k xs)))"
  by (induction xs) simp_all

lemma blocks_length: "\<forall>n \<in> set ns. length (blk n) = m \<Longrightarrow> length (concat (map blk ns)) = length ns * m"
  by (induction ns) simp_all

lemma blocks_nth:
  assumes "\<forall>n \<in> set ns. length (blk n) = m" "p < length ns * m"
  shows "concat (map blk ns) ! p = blk (ns ! (p div m)) ! (p mod m)" "p div m < length ns" "p mod m < m"
  using assms
proof (induction ns arbitrary: p)
  case (Cons n ns)
  case 1
  show ?case
  proof (cases "p < m")
    case False
    then have "0 < m" "m \<le> p" using 1 by (cases m; simp)+
    then have "p div m = Suc ((p - m) div m)" "p mod m = (p - m) mod m"
      by (simp_all add: le_div_geq le_mod_geq)
    with 1 False Cons.IH(1)[of "p - m"] show ?thesis by (simp add: nth_append)
  qed (use 1 in \<open>simp add: nth_append\<close>)
next
  case (Cons n ns)
  case 2
  then show ?case by (simp add: less_mult_imp_div_less)
next
  case (Cons n ns)
  case 3
  then show ?case by (cases m) auto
qed simp_all

lemma blocks_same:
  assumes "\<forall>n \<in> set ns. length (blk n) = m \<and> (\<forall>y \<in> set (blk n). f y = f n)" "distinct (map f ns)"
    and "p < length ns * m" "q < length ns * m"
  shows "f (concat (map blk ns) ! p) = f (concat (map blk ns) ! q) \<longleftrightarrow> p div m = q div m"
proof -
  have len: "\<forall>n \<in> set ns. length (blk n) = m" using assms(1) by simp
  have name: "f (concat (map blk ns) ! i) = f (ns ! (i div m))" if i: "i < length ns * m" for i
    using blocks_nth[OF len i] assms(1) by (simp add: nth_mem)
  have "f (ns ! i) = f (ns ! j) \<longleftrightarrow> i = j" if "i < length ns" "j < length ns" for i j
    using nth_eq_iff_index_eq[OF assms(2), of i j] that by simp
  then show ?thesis
    using name[OF assms(3)] name[OF assms(4)] blocks_nth(2)[OF len assms(3)] blocks_nth(2)[OF len assms(4)] by simp
qed

lemma names_distinct:
  assumes "\<And>x. x \<in> set xs \<Longrightarrow> distinct (map f (h x))" "distinct (map g xs)"
    and "\<And>x y. x \<in> set xs \<Longrightarrow> y \<in> set (h x) \<Longrightarrow> y \<in> cpus \<and> c y = g x"
    and "\<And>y z. y \<in> cpus \<Longrightarrow> z \<in> cpus \<Longrightarrow> f y = f z \<Longrightarrow> c y = c z"
  shows "distinct (map f (concat (map h xs)))"
  using assms(1-3)
proof (induction xs)
  case (Cons x xs)
  have "f y \<noteq> f z" if yz: "y \<in> set (h x)" "z \<in> set (concat (map h xs))" for y z
  proof
    assume eq: "f y = f z"
    from yz(2) obtain x' where x': "x' \<in> set xs" "z \<in> set (h x')" by auto
    have "y \<in> cpus \<and> c y = g x" "z \<in> cpus \<and> c z = g x'" using Cons.prems(3) yz(1) x' by auto
    with assms(4)[OF _ _ eq] have "g x = g x'" by simp
    with Cons.prems(2) x'(1) show False by auto
  qed
  then have "set (map f (h x)) \<inter> set (map f (concat (map h xs))) = {}" by auto
  moreover have "distinct (map f (h x))" "distinct (map f (concat (map h xs)))"
    using Cons.IH Cons.prems by auto
  ultimately show ?case by simp
qed simp

section \<open>A regular machine\<close>

text \<open>\<open>C\<close> packages to a node, \<open>K\<close> cores to a package, \<open>T\<close> cpus to a core.\<close>

definition regular :: "cpu_masks \<Rightarrow> nat set \<Rightarrow> (nat \<Rightarrow> nat) \<Rightarrow> (nat \<Rightarrow> nat) \<Rightarrow> (nat \<Rightarrow> nat) \<Rightarrow> nat \<Rightarrow> nat \<Rightarrow> nat \<Rightarrow> bool" where
  "regular hw cpus node pkg core C K T \<longleftrightarrow>
     (\<forall>n \<in> set (online_nodes hw). card (pkg ` {x \<in> cpus. node x = n}) = C) \<and>
     (\<forall>x \<in> cpus. card (core ` {y \<in> cpus. pkg y = pkg x}) = K) \<and> (\<forall>x \<in> cpus. card {y \<in> cpus. core y = core x} = T)"

text \<open>Neighbours in the list are neighbours in the machine.\<close>

definition in_machine_order :: "(nat \<Rightarrow> nat) \<Rightarrow> (nat \<Rightarrow> nat) \<Rightarrow> (nat \<Rightarrow> nat) \<Rightarrow> nat \<Rightarrow> nat \<Rightarrow> nat \<Rightarrow> nat list \<Rightarrow> bool" where
  "in_machine_order node pkg core C K T L \<longleftrightarrow> (\<forall>p < length L. \<forall>q < length L.
     (core (L ! p) = core (L ! q) \<longleftrightarrow> p div T = q div T) \<and>
     (pkg (L ! p) = pkg (L ! q) \<longleftrightarrow> p div (K * T) = q div (K * T)) \<and>
     (node (L ! p) = node (L ! q) \<longleftrightarrow> p div (C * (K * T)) = q div (C * (K * T))))"

lemma topo_init_ok:
  assumes hw: "masks_ok hw cpus node pkg core" and reg: "regular hw cpus node pkg core C K T"
  shows "wp (topo_init hw) (\<lambda>st. num_nodes st = length (online_nodes hw) \<and> num_cpus st = C \<and> num_cores st = K \<and> num_threads st = T \<and>
    0 < C \<and> 0 < K \<and> 0 < T \<and> length (pu st) = 256 \<and> card cpus = length (online_nodes hw) * (C * (K * T)) \<and>
    (\<exists>L. take (card cpus) (pu st) = map of_nat L \<and> set L = cpus \<and> distinct L \<and> in_machine_order node pkg core C K T L))"
proof -
  let ?ns = "online_nodes hw" and ?cc = "core_cpus hw" and ?pc = "pkg_cores hw core" and ?np = "node_pkgs hw pkg"
  let ?pkgs = "concat (map ?np ?ns)"
  let ?cores = "concat (map ?pc ?pkgs)"
  let ?L = "concat (map (node_cpus hw pkg core) ?ns)"
  have pkgs: "x \<in> cpus \<and> node x = n" if "x \<in> set (?np n)" for x n
    using that firsts_subset[of pkg] masks_okD(3)[OF hw] by (fastforce simp: node_pkgs_def)
  then have in_pkgs: "x \<in> cpus" if "x \<in> set ?pkgs" for x using that by auto
  have cores: "y \<in> cpus \<and> pkg y = pkg x" if "x \<in> cpus" "y \<in> set (?pc x)" for x y
    using that firsts_subset[of core] masks_okD(4)[OF hw] by (fastforce simp: pkg_cores_def)
  then have in_cores: "x \<in> cpus" if "x \<in> set ?cores" for x using that in_pkgs by auto
  have np: "length (?np n) = C" if "n \<in> set ?ns" for n
    using reg that by (simp add: node_pkgs_def firsts_length masks_okD(3)[OF hw] regular_def)
  have pc: "length (?pc x) = K" if "x \<in> cpus" for x
    using reg that by (simp add: pkg_cores_def firsts_length masks_okD(4)[OF hw] regular_def)
  have cc: "length (?cc x) = T" if "x \<in> cpus" for x
    using reg that by (simp add: core_cpus_set[OF hw that] regular_def)
  have L_pkgs: "?L = concat (map (pkg_cpus hw core) ?pkgs)" by (simp only: node_cpus_def[abs_def] concat_concat_map)
  then have L_cores: "?L = concat (map ?cc ?cores)" by (simp only: pkg_cpus_def[abs_def] concat_concat_map)
  have n_pkgs: "length ?pkgs = length ?ns * C" by (rule blocks_length) (use np in blast)
  have n_cores: "length ?cores = length ?ns * C * K"
    using blocks_length[of ?pkgs ?pc K] pc in_pkgs by (simp only: n_pkgs) blast
  have len_pkg: "length (pkg_cpus hw core x) = K * T" if "x \<in> cpus" for x
    unfolding pkg_cpus_def using blocks_length[of "?pc x" ?cc T] cc cores[OF that] pc[OF that] by auto
  have len_node: "length (node_cpus hw pkg core n) = C * (K * T)" if "n \<in> set ?ns" for n
    unfolding node_cpus_def using blocks_length[of "?np n" "pkg_cpus hw core" "K * T"] len_pkg pkgs np[OF that] by auto
  have n_L: "length ?L = length ?ns * (C * (K * T))" by (rule blocks_length) (use len_node in blast)
  have set_L: "set ?L = cpus"
    using hw by (auto simp: node_cpus_set[OF hw] masks_ok_def)
  have d_ns: "distinct (map (\<lambda>n. n) ?ns)" using hw by (simp add: masks_ok_def)
  have d_pkgs: "distinct (map pkg ?pkgs)"
  proof (rule names_distinct[OF _ d_ns, where c = node and cpus = cpus])
    show "distinct (map pkg (?np n))" for n by (simp add: node_pkgs_def firsts_distinct)
    show "y \<in> cpus \<and> node y = n" if "y \<in> set (?np n)" for n y using pkgs[OF that] .
  qed (rule masks_okD(8)[OF hw])
  have d_cores: "distinct (map core ?cores)"
  proof (rule names_distinct[OF _ d_pkgs, where c = pkg and cpus = cpus])
    show "distinct (map core (?pc x))" for x by (simp add: pkg_cores_def firsts_distinct)
    show "y \<in> cpus \<and> pkg y = pkg x" if "x \<in> set ?pkgs" "y \<in> set (?pc x)" for x y using cores[OF in_pkgs[OF that(1)] that(2)] .
  qed (rule masks_okD(7)[OF hw])
  have start: "tracks [] 0 0 0 topo_boot" by (simp add: tracks_def topo_boot_def)
  have sum: "sum_list (map (\<lambda>x. length (?pc x)) ?pkgs) = length ?cores" by (simp add: length_concat comp_def)
  obtain st where st: "foldM (visit_node hw) ?ns topo_boot = Some st" and tr: "tracks ?L (length ?ns) (length ?pkgs) (length ?cores) st"
    using visit_nodes_ok[OF hw start, of ?ns] d_ns unfolding sum by (auto simp: complete_def elim!: wpE)
  have "distinct ?L" using tr by (simp add: tracks_def)
  then have card: "card cpus = length ?L" using distinct_card set_L by metis
  have "cpus \<noteq> {}" using hw unfolding masks_ok_def by blast
  then have "length ?L \<noteq> 0" unfolding set_L[symmetric] by (simp only: set_empty length_0_conv) simp
  then have "length ?ns * (C * (K * T)) \<noteq> 0" unfolding n_L .
  then have pos: "0 < length ?ns" "0 < C" "0 < K" "0 < T" by (simp_all only: mult_eq_0_iff) simp_all
  have order: "in_machine_order node pkg core C K T ?L"
    unfolding in_machine_order_def
  proof (intro allI impI conjI)
    fix p q assume pq: "p < length ?L" "q < length ?L"
    have "core (concat (map ?cc ?cores) ! p) = core (concat (map ?cc ?cores) ! q) \<longleftrightarrow> p div T = q div T"
      by (rule blocks_same[OF _ d_cores]) (use pq n_L n_cores cc in_cores core_cpus_set(1)[OF hw] in \<open>auto simp: mult.assoc\<close>)
    then show "core (?L ! p) = core (?L ! q) \<longleftrightarrow> p div T = q div T" unfolding L_cores .
    have "pkg (concat (map (pkg_cpus hw core) ?pkgs) ! p) = pkg (concat (map (pkg_cpus hw core) ?pkgs) ! q) \<longleftrightarrow> p div (K * T) = q div (K * T)"
      by (rule blocks_same[OF _ d_pkgs]) (use pq n_L n_pkgs len_pkg in_pkgs pkg_cpus_set[OF hw] in \<open>auto simp: mult.assoc\<close>)
    then show "pkg (?L ! p) = pkg (?L ! q) \<longleftrightarrow> p div (K * T) = q div (K * T)" unfolding L_pkgs .
  next
    fix p q assume pq: "p < length ?L" "q < length ?L"
    have len: "\<forall>n \<in> set ?ns. length (node_cpus hw pkg core n) = C * (K * T)" using len_node by blast
    have name: "node (?L ! i) = ?ns ! (i div (C * (K * T)))" if i: "i < length ?L" for i
    proof -
      note b = blocks_nth[OF len i[unfolded n_L]]
      from b have "?L ! i \<in> set (node_cpus hw pkg core (?ns ! (i div (C * (K * T)))))"
        using len by (simp add: nth_mem)
      then show ?thesis by (simp add: node_cpus_set[OF hw])
    qed
    show "node (?L ! p) = node (?L ! q) \<longleftrightarrow> p div (C * (K * T)) = q div (C * (K * T))"
      unfolding name[OF pq(1)] name[OF pq(2)]
      using nth_eq_iff_index_eq[of ?ns] d_ns blocks_nth(2)[OF len] pq unfolding n_L by simp
  qed
  have "take (length ?L) (pu st) = map of_nat ?L" using tr by (simp add: tracks_def)
  moreover have "num_threads st div num_cores st = T" "num_cores st div num_cpus st = K" "num_cpus st div num_nodes st = C"
    "num_nodes st = length ?ns" "num_cores st \<noteq> 0" "num_cpus st \<noteq> 0" "length (pu st) = 256"
    using tr pos n_L unfolding tracks_def n_pkgs n_cores by (auto simp: mult.assoc)
  ultimately show ?thesis
    unfolding topo_init_def st Option.bind.bind_lunit using pos card n_L set_L \<open>distinct ?L\<close> order
    by (auto intro!: exI[of _ ?L])
qed

section \<open>Examples\<close>

text \<open>Two nodes with one package each, two cores to a package, and the second threads of the cores numbered last.\<close>

definition demo_core :: "nat \<Rightarrow> nat" where
  "demo_core x = x mod 4"

definition demo_node :: "nat \<Rightarrow> nat" where
  "demo_node x = demo_core x div 2"

definition demo_masks :: cpu_masks where
  "demo_masks = \<lparr>online_nodes = [0, 1],
     cpumask_of_node = \<lambda>n. filter (\<lambda>x. demo_node x = n) [0..<8],
     cpu_core_mask = \<lambda>x. filter (\<lambda>y. demo_node y = demo_node x) [0..<8],
     cpu_sibling_mask = \<lambda>x. filter (\<lambda>y. demo_core y = demo_core x) [0..<8]\<rparr>"

lemma demo_masks_ok: "masks_ok demo_masks {..<8} demo_node demo_node demo_core"
proof -
  have "demo_node x \<in> {0, 1}" for x
  proof -
    have "demo_node x < 2" by (simp add: demo_node_def demo_core_def less_mult_imp_div_less)
    then show ?thesis by (simp add: less_2_cases_iff)
  qed
  then have "demo_node ` {..<8} \<subseteq> {0, 1}" by (rule image_subsetI)
  moreover have "{..<8 :: nat} \<noteq> {}" by (simp add: lessThan_empty_iff)
  moreover have "set (filter P [0..<8]) = {x \<in> {..<8}. P x}" for P :: "nat \<Rightarrow> bool" by auto
  ultimately show ?thesis
    unfolding masks_ok_def demo_masks_def cpu_masks.simps by (intro conjI ballI allI) (simp_all add: demo_node_def)
qed

lemma demo_regular: "regular demo_masks {..<8} demo_node demo_node demo_core 1 2 2"
proof -
  have "\<forall>n \<in> set [0, 1]. card (set (map demo_node (filter (\<lambda>x. demo_node x = n) [0..<8]))) = 1" by code_simp
  moreover have "\<forall>x \<in> set [0..<8]. card (set (map demo_core (filter (\<lambda>y. demo_node y = demo_node x) [0..<8]))) = 2" by code_simp
  moreover have "\<forall>x \<in> set [0..<8]. card (set (filter (\<lambda>y. demo_core y = demo_core x) [0..<8])) = 2" by code_simp
  moreover have "{x \<in> {..<8}. P x} = set (filter P [0..<8])" for P :: "nat \<Rightarrow> bool" by auto
  moreover have "{..<8} = set [0..<8 :: nat]" by auto
  ultimately show ?thesis by (simp only: regular_def demo_masks_def cpu_masks.simps set_map[symmetric])
qed

text \<open>One package over two nodes: it is counted in the first node only, and half a package to a node is none.\<close>

definition split_masks :: cpu_masks where
  "split_masks = \<lparr>online_nodes = [0, 1],
     cpumask_of_node = \<lambda>n. if n = 0 then [0, 1] else if n = 1 then [2, 3] else [],
     cpu_core_mask = \<lambda>x. [0, 1, 2, 3],
     cpu_sibling_mask = \<lambda>x. [x]\<rparr>"

lemma split_package: "map_option (\<lambda>st. (num_nodes st, num_cpus st, num_cores st, num_threads st)) (topo_init split_masks) = Some (2, 0, 4, 1)"
  by code_simp

section \<open>Properties\<close>

text \<open>
  C18: the detected machine. On a machine with \<open>C\<close> packages to a node, \<open>K\<close> cores to a package and \<open>T\<close> cpus to a core,
  and cpu numbers below 256, the detection stays inside its arrays, finds these four numbers, and lists every
  online cpu exactly once, so that the cpus of a core, of a package and of a node are next to each other: the list
  is the row of leaves of the machine's tree.
\<close>
theorem topo_init_spec:
  assumes "masks_ok hw cpus node pkg core" "regular hw cpus node pkg core C K T"
  shows "\<exists>st L. topo_init hw = Some st \<and>
    (num_nodes st, num_cpus st, num_cores st, num_threads st) = (length (online_nodes hw), C, K, T) \<and>
    card cpus = length (online_nodes hw) * (C * (K * T)) \<and>
    take (card cpus) (pu st) = map of_nat L \<and> set L = cpus \<and> distinct L \<and> in_machine_order node pkg core C K T L"
  using topo_init_ok[OF assms] unfolding wp_iff by auto

theorem topo_init_spec_witness:
  "\<exists>st L. topo_init demo_masks = Some st \<and> (num_nodes st, num_cpus st, num_cores st, num_threads st) = (2, 1, 2, 2) \<and>
    take 8 (pu st) = map of_nat L \<and> in_machine_order demo_node demo_node demo_core 1 2 2 L"
proof -
  have "length (online_nodes demo_masks) = 2" "card {..<8 :: nat} = 8" by (simp_all add: demo_masks_def)
  from topo_init_spec[OF demo_masks_ok demo_regular, unfolded this] show ?thesis by (elim exE conjE) (intro exI conjI)
qed

end
