(* ===== verification/Cdsm_Main.thy ===== *)
theory Cdsm_Main
  imports Cdsm_History Cdsm_Map Cdsm_Topo
begin

text \<open>
  Loading and unloading the module: \<open>init_module\<close> and \<open>cleanup_module\<close> of \<open>src/spcd_main.c\<close> with the registration of
  the probes (\<open>src/probes.c\<close>), of the files (\<open>src/procfs.c\<close>) and of the two kernel threads, and the way from the
  detected machine to the mapping thread.

  \<open>boot_env\<close> holds the kernel: its logarithms, what its allocators and \<open>register_jprobe\<close> return for a symbol, whether
  \<open>proc_mkdir\<close> and \<open>kthread_create\<close> succeed, the address of \<open>sched_setaffinity\<close>, and the masks of the cpus. The module
  is its own state and what it has registered with the kernel; freed memory is remembered, because the pointers to
  it are not cleared.
\<close>

section \<open>The code\<close>

record boot_env =
  be_roundup_pow_of_two :: "int \<Rightarrow> int"
  be_ilog2 :: "int \<Rightarrow> int"
  be_answers :: answers
  be_register :: "string \<Rightarrow> int"
  be_mkdir :: bool
  be_kthread :: "string \<Rightarrow> bool"
  be_setaffinity :: bool
  be_masks :: cpu_masks

record kernel =
  k_mod :: spcd_state
  k_probes :: "string list"
  k_entries :: "string list"
  spcd_proc_root :: string
  sched_setaffinity_p :: bool
  spcd_pf_thread :: bool
  spcd_map_thread :: bool
  k_threads :: "string list"
  k_topo :: topo_state
  matrix_freed :: bool
  mem_freed :: bool

definition register_probe :: "boot_env \<Rightarrow> string \<Rightarrow> kernel \<Rightarrow> kernel" where
  "register_probe env symbol k = (if be_register env symbol = 0 then k\<lparr>k_probes := k_probes k @ [symbol]\<rparr> else k)"

definition unregister_probe :: "string \<Rightarrow> kernel \<Rightarrow> kernel" where
  "unregister_probe symbol k = k\<lparr>k_probes := filter (\<lambda>s. s \<noteq> symbol) (k_probes k)\<rparr>"

definition base_probes :: "string list" where
  "base_probes = [''handle_pte_fault'', ''acct_update_integrals'', ''do_fork'']"

definition pf_probes :: "string list" where
  "pf_probes = [''__delete_from_page_cache'', ''unmap_page_range'']"

definition spcd_probes_init :: "boot_env \<Rightarrow> kernel \<Rightarrow> kernel" where
  "spcd_probes_init env k = (let k = fold (register_probe env) base_probes k in
     if do_pf (sp_cfg (k_mod k))
     then fold (register_probe env) pf_probes (k\<lparr>k_mod := (k_mod k)\<lparr>fix_pte_is_real := True\<rparr>\<rparr>)
     else k)"

definition spcd_probes_cleanup :: "kernel \<Rightarrow> kernel" where
  "spcd_probes_cleanup k = (let k = fold unregister_probe base_probes k in
     if do_pf (sp_cfg (k_mod k)) then fold unregister_probe pf_probes k else k)"

text \<open>Without its directory, the module creates its files in the root of procfs.\<close>

definition proc_files :: "string list" where
  "proc_files = [''matrix'', ''pids'', ''reset'', ''shift'', ''faults'']"

definition spcd_proc_init :: "boot_env \<Rightarrow> kernel \<Rightarrow> kernel" where
  "spcd_proc_init env k = (let root = (if be_mkdir env then ''spcd/'' else '''') in
     k\<lparr>spcd_proc_root := root,
       k_entries := k_entries k @ (if be_mkdir env then [''spcd''] else []) @ map (\<lambda>f. root @ f) proc_files\<rparr>)"

text \<open>
  What the operations of the files do: \<open>matrix\<close> and \<open>pids\<close> are opened for reading with the functions that print them,
  and a write to one of the others is an event of the module.
\<close>

definition file_read :: "string \<Rightarrow> spcd_state \<Rightarrow> (int \<times> string) option option" where
  "file_read name st = (
     if name = ''matrix'' then Some (matrix_read (sp_cfg st) (sp_pids st) (sp_matrix st))
     else if name = ''pids'' then Some (pids_read (sp_pids st)) else None)"

definition file_write :: "string \<Rightarrow> string \<Rightarrow> event option" where
  "file_write name bytes = (
     if name = ''reset'' then Some (WriteReset (length bytes))
     else if name = ''shift'' then Some (WriteShift bytes)
     else if name = ''faults'' then Some (WriteFaults bytes) else None)"

definition remove_proc_entry :: "string \<Rightarrow> kernel \<Rightarrow> kernel" where
  "remove_proc_entry name k = k\<lparr>k_entries := filter (\<lambda>s. s \<noteq> name) (k_entries k)\<rparr>"

definition spcd_proc_cleanup :: "kernel \<Rightarrow> kernel" where
  "spcd_proc_cleanup k = remove_proc_entry ''spcd''
     (fold (\<lambda>f. remove_proc_entry (spcd_proc_root k @ f)) (rev proc_files) k)"

definition spcd_map_init :: "boot_env \<Rightarrow> kernel \<Rightarrow> kernel" where
  "spcd_map_init env k = (if sched_setaffinity_p k then k else k\<lparr>sched_setaffinity_p := be_setaffinity env\<rparr>)"

text \<open>A thread that cannot be created is an error pointer, which \<open>wake_up_process\<close> follows.\<close>

definition start_thread :: "boot_env \<Rightarrow> string \<Rightarrow> kernel \<Rightarrow> kernel option" where
  "start_thread env name k = (if be_kthread env name then Some (k\<lparr>k_threads := k_threads k @ [name]\<rparr>) else None)"

definition init_module :: "boot_env \<Rightarrow> int \<Rightarrow> kernel \<Rightarrow> (int \<times> kernel) option" where
  "init_module env num_faults k = do {
     let mt = be_roundup_pow_of_two env (max_threads (sp_cfg (k_mod k)));
     let cfg = (sp_cfg (k_mod k))\<lparr>max_threads := mt, max_threads_bits := be_ilog2 env mt, spcd_num_faults := num_faults\<rparr>;
     printed \<leftarrow> shl_int 1 (spcd_mem_hash_bits cfg);
     m \<leftarrow> reset_stats (be_answers env) ((k_mod k)\<lparr>sp_cfg := cfg\<rparr>);
     let k = spcd_map_init env (spcd_proc_init env (spcd_probes_init env (k\<lparr>k_mod := m\<rparr>)));
     k \<leftarrow> (if do_pf cfg then map_option (\<lambda>k. k\<lparr>spcd_pf_thread := True\<rparr>) (start_thread env ''spcd_pf_thread'' k) else Some k);
     t \<leftarrow> topo_init (be_masks env);
     let k = k\<lparr>k_topo := t\<rparr>;
     k \<leftarrow> (if do_map cfg then map_option (\<lambda>k. k\<lparr>spcd_map_thread := True\<rparr>) (start_thread env ''spcd_map_thread'' k) else Some k);
     Some (0, k)
   }"

definition kthread_stop :: "string \<Rightarrow> kernel \<Rightarrow> kernel" where
  "kthread_stop name k = k\<lparr>k_threads := filter (\<lambda>s. s \<noteq> name) (k_threads k)\<rparr>"

definition stop_threads :: "kernel \<Rightarrow> kernel" where
  "stop_threads k = (let k = (if spcd_pf_thread k then kthread_stop ''spcd_pf_thread'' k else k) in
     if spcd_map_thread k then kthread_stop ''spcd_map_thread'' k else k)"

definition free_matrix :: "kernel \<Rightarrow> kernel" where
  "free_matrix k = (if matrix (sp_matrix (k_mod k)) = None then k else k\<lparr>matrix_freed := True\<rparr>)"

definition spcd_mem_cleanup :: "kernel \<Rightarrow> kernel" where
  "spcd_mem_cleanup k = (if mem (sp_mem (k_mod k)) = None then k else k\<lparr>mem_freed := True\<rparr>)"

text \<open>The steps of \<open>cleanup_module\<close>, in their order.\<close>

definition cleanup_steps :: "(kernel \<Rightarrow> kernel) list" where
  "cleanup_steps = [stop_threads, free_matrix, spcd_proc_cleanup, spcd_probes_cleanup, spcd_mem_cleanup]"

definition run_steps :: "(kernel \<Rightarrow> kernel) list \<Rightarrow> kernel \<Rightarrow> kernel" where
  "run_steps steps k = fold (\<lambda>step k. step k) steps k"

definition cleanup_module :: "kernel \<Rightarrow> kernel" where
  "cleanup_module k = run_steps cleanup_steps k"

text \<open>
  A page fault calls the handler of \<open>pte_fault_probe\<close> while this probe is registered. \<open>kfree\<close> and \<open>vfree\<close> do not
  change the pointers \<open>spcd_matrix.matrix\<close> and \<open>mem\<close>, and the handler does not test them: \<open>inc_comm\<close> and
  \<open>spcd_get_mem\<close> go through them, which is undefined once their memory is freed. The handler therefore runs on a
  state without the freed arrays, on which exactly the runs that access one of them have no result; the pointers
  are put back afterwards.
\<close>

definition hide_freed :: "kernel \<Rightarrow> spcd_state \<Rightarrow> spcd_state" where
  "hide_freed k m = (let m = (if matrix_freed k then m\<lparr>sp_matrix := (sp_matrix m)\<lparr>matrix := None\<rparr>\<rparr> else m) in
     if mem_freed k then m\<lparr>sp_mem := (sp_mem m)\<lparr>mem := None\<rparr>\<rparr> else m)"

definition keep_freed :: "kernel \<Rightarrow> spcd_state \<Rightarrow> spcd_state" where
  "keep_freed k m = (let m = (if matrix_freed k then m\<lparr>sp_matrix := sp_matrix (k_mod k)\<rparr> else m) in
     if mem_freed k then m\<lparr>sp_mem := sp_mem (k_mod k)\<rparr> else m)"

definition kernel_fault :: "hash_fun \<Rightarrow> pte_ops \<Rightarrow> u64 \<Rightarrow> int \<Rightarrow> u64 \<Rightarrow> u64 \<Rightarrow> kernel \<Rightarrow> (u64 \<times> kernel) option" where
  "kernel_fault hash ops cycles pid address pte k =
     (if ''handle_pte_fault'' \<in> set (k_probes k) then do {
        (pte, m) \<leftarrow> pte_fault_handler hash ops cycles pid address pte (hide_freed k (k_mod k));
        Some (pte, k\<lparr>k_mod := keep_freed k m\<rparr>)
      } else Some (pte, k))"

section \<open>Loading\<close>

text \<open>The state of the module's variables before it is loaded, with the parameters that the user gave.\<close>

definition unloaded :: "config \<Rightarrow> kernel" where
  "unloaded cfg = \<lparr>k_mod = \<lparr>sp_cfg = cfg, sp_pids = pid_boot, sp_mem = \<lparr>mem = None, spcd_addr_conflict = 0\<rparr>,
       sp_matrix = \<lparr>matrix = None, nthreads = 0\<rparr>,
       sp_pf = \<lparr>proc = None, spcd_pf_extra = 0, walk_found = False, cycles_read = 0\<rparr>,
       spcd_pf = 0, spcd_pte_fixes = 0, spcd_vma_shared_flag = 1, fix_pte_is_real = False\<rparr>,
     k_probes = [], k_entries = [], spcd_proc_root = [], sched_setaffinity_p = False, spcd_pf_thread = False,
     spcd_map_thread = False, k_threads = [], k_topo = topo_boot, matrix_freed = False, mem_freed = False\<rparr>"

text \<open>What the kernel documents of its logarithms.\<close>

definition logs_ok :: "boot_env \<Rightarrow> bool" where
  "logs_ok env \<longleftrightarrow> (\<forall>n > 0. \<exists>b. be_roundup_pow_of_two env n = 2 ^ b \<and> n \<le> 2 ^ b \<and> (0 < b \<longrightarrow> 2 ^ (b - 1) < n)) \<and>
     (\<forall>b. be_ilog2 env (2 ^ b) = int b)"

text \<open>The parameters with which the module can be loaded, and a kernel that has the memory.\<close>

definition settings_ok :: "config \<Rightarrow> bool" where
  "settings_ok cfg \<longleftrightarrow> 0 < max_threads cfg \<and> max_threads cfg \<le> 2 ^ 14 \<and> 0 \<le> spcd_shift cfg \<and> spcd_shift cfg \<le> 12 \<and>
     0 < spcd_mem_hash_bits cfg \<and> spcd_mem_hash_bits cfg \<le> 30"

definition kernel_ready :: "boot_env \<Rightarrow> bool" where
  "kernel_ready env \<longleftrightarrow> logs_ok env \<and> vmalloc_mem (be_answers env) \<and> kmalloc_proc (be_answers env) \<and> (\<forall>name. be_kthread env name)"

lemma settings_power:
  assumes "logs_ok env" "0 < n"
  obtains b where "be_roundup_pow_of_two env n = 2 ^ b" "be_ilog2 env (2 ^ b) = int b" "n \<le> 2 ^ b"
    "\<And>m. n \<le> 2 ^ m \<Longrightarrow> b \<le> m"
proof -
  obtain b where b: "be_roundup_pow_of_two env n = 2 ^ b" "n \<le> 2 ^ b" "0 < b \<longrightarrow> 2 ^ (b - 1) < n"
    using assms(1,2) unfolding logs_ok_def by blast
  have "b \<le> m" if "n \<le> 2 ^ m" for m
  proof (rule ccontr)
    assume "\<not> b \<le> m"
    then have "(2 :: int) ^ m \<le> 2 ^ (b - 1)" by (intro power_increasing) simp_all
    moreover have "2 ^ (b - 1) < n" using b(3) \<open>\<not> b \<le> m\<close> by linarith
    ultimately show False using that by linarith
  qed
  with b assms(1) show thesis by (intro that) (simp_all add: logs_ok_def)
qed

lemma fold_register:
  "fold (register_probe env) names k = k\<lparr>k_probes := k_probes k @ filter (\<lambda>s. be_register env s = 0) names\<rparr>"
  by (induction names arbitrary: k) (simp_all add: register_probe_def)

lemma fold_unregister:
  "fold unregister_probe names k = k\<lparr>k_probes := filter (\<lambda>s. s \<notin> set names) (k_probes k)\<rparr>"
  by (induction names arbitrary: k) (simp_all add: unregister_probe_def conj_commute)

lemma fold_remove:
  "fold (\<lambda>f. remove_proc_entry (root @ f)) names k = k\<lparr>k_entries := filter (\<lambda>s. s \<notin> (\<lambda>f. root @ f) ` set names) (k_entries k)\<rparr>"
  by (induction names arbitrary: k) (simp_all add: remove_proc_entry_def conj_commute)

text \<open>The probes that a kernel lets the module register.\<close>

definition module_probes :: "boot_env \<Rightarrow> config \<Rightarrow> string list" where
  "module_probes env cfg = filter (\<lambda>s. be_register env s = 0) (base_probes @ (if do_pf cfg then pf_probes else []))"

definition module_threads :: "config \<Rightarrow> string list" where
  "module_threads cfg = (if do_pf cfg then [''spcd_pf_thread''] else []) @ (if do_map cfg then [''spcd_map_thread''] else [])"

text \<open>The settings with \<open>max_threads\<close> rounded up to the next power of two.\<close>

definition rounded :: "config \<Rightarrow> int \<Rightarrow> config \<Rightarrow> bool" where
  "rounded cfg num_faults cfg' \<longleftrightarrow> (\<exists>b. cfg' = cfg\<lparr>max_threads := 2 ^ b, max_threads_bits := int b, spcd_num_faults := num_faults\<rparr> \<and>
     max_threads cfg \<le> 2 ^ b \<and> (\<forall>m. max_threads cfg \<le> 2 ^ m \<longrightarrow> b \<le> m))"

text \<open>What loading yields.\<close>

definition loaded_as :: "hash_fun \<Rightarrow> boot_env \<Rightarrow> config \<Rightarrow> int \<Rightarrow> topo_state \<Rightarrow> kernel \<Rightarrow> bool" where
  "loaded_as hash env cfg num_faults t k \<longleftrightarrow> sys_ok hash (k_mod k) \<and> sp_pids (k_mod k) = pid_boot \<and>
     rounded cfg num_faults (sp_cfg (k_mod k)) \<and>
     fix_pte_is_real (k_mod k) = do_pf cfg \<and> k_probes k = module_probes env cfg \<and>
     k_entries k = (if be_mkdir env then [''spcd''] else []) @ map (\<lambda>f. spcd_proc_root k @ f) proc_files \<and>
     spcd_proc_root k = (if be_mkdir env then ''spcd/'' else '''') \<and>
     k_threads k = module_threads cfg \<and> spcd_pf_thread k = do_pf cfg \<and> spcd_map_thread k = do_map cfg \<and>
     k_topo k = t \<and> \<not> matrix_freed k \<and> \<not> mem_freed k"

lemma init_module_ok:
  assumes env: "kernel_ready env" and cfg: "settings_ok cfg" and hash: "hash_32_ok hash" and t: "topo_init (be_masks env) = Some t"
  shows "wp (init_module env num_faults (unloaded cfg)) (\<lambda>(r, k). r = 0 \<and> loaded_as hash env cfg num_faults t k)"
proof -
  have S: "0 < max_threads cfg" "max_threads cfg \<le> 2 ^ 14" "0 \<le> spcd_shift cfg" "spcd_shift cfg \<le> 12"
    "0 < spcd_mem_hash_bits cfg" "spcd_mem_hash_bits cfg \<le> 30" using cfg by (simp_all add: settings_ok_def)
  have logs: "logs_ok env" using env by (simp add: kernel_ready_def)
  obtain b where b: "be_roundup_pow_of_two env (max_threads cfg) = 2 ^ b" "be_ilog2 env (2 ^ b) = int b" "max_threads cfg \<le> 2 ^ b"
    "\<And>m. max_threads cfg \<le> 2 ^ m \<Longrightarrow> b \<le> m"
    using settings_power[OF logs S(1)] by blast
  let ?cfg = "cfg\<lparr>max_threads := 2 ^ b, max_threads_bits := int b, spcd_num_faults := num_faults\<rparr>"
  have shl: "\<exists>x. shl_int 1 (spcd_mem_hash_bits cfg) = Some x"
  proof -
    have "(2 :: int) ^ nat (spcd_mem_hash_bits cfg) \<le> 2 ^ 30" using S(6) by (intro power_increasing) simp_all
    moreover have "(0 :: int) \<le> 2 ^ nat (spcd_mem_hash_bits cfg)" by simp
    ultimately show ?thesis using S(5,6) by (simp add: shl_int_def cint_def in_int_def del: zero_le_power)
  qed
  obtain ms where ms: "spcd_mem_init ?cfg True \<lparr>mem = None, spcd_addr_conflict = 0\<rparr> = Some ms" "mem_wf ?cfg (2 ^ b) ms"
    using spcd_mem_init_fresh[of ?cfg "2 ^ b" "\<lparr>mem = None, spcd_addr_conflict = 0\<rparr>"] S(5,6) by auto
  let ?pf = "\<lparr>proc = None, spcd_pf_extra = 0, walk_found = False, cycles_read = 0\<rparr>"
  obtain pf ps where pf: "spcd_pf_thread_init ?cfg True (kallsyms (be_answers env)) ?pf = Some pf" "proc pf = Some ps" "length ps = 2 ^ b"
    by (simp add: spcd_pf_thread_init_def Let_def nat_power_eq)
  have alloc: "vmalloc_mem (be_answers env)" "kmalloc_proc (be_answers env)" "\<And>name. be_kthread env name"
    using env by (simp_all add: kernel_ready_def)
  have stats: "reset_stats (be_answers env) ((k_mod (unloaded cfg))\<lparr>sp_cfg := ?cfg\<rparr>) =
      Some ((k_mod (unloaded cfg))\<lparr>sp_cfg := ?cfg, sp_mem := ms, spcd_pte_fixes := 0, spcd_pf := 0, spcd_vma_shared_flag := 1, sp_pf := pf\<rparr>)"
    using ms(1) pf(1) alloc by (simp add: reset_stats_def unloaded_def)
  have ok: "sys_ok hash (m\<lparr>sp_cfg := ?cfg, sp_mem := ms, spcd_pte_fixes := 0, spcd_pf := 0, spcd_vma_shared_flag := 1, sp_pf := pf, fix_pte_is_real := r\<rparr>)"
    if "sp_pids m = pid_boot" "matrix (sp_matrix m) = None" for m r
    using that hash S(3,4) b(4)[OF S(2)] ms(2) pf(2,3) by (simp add: sys_ok_def cfg_ok_def dim_int_def nat_power_eq)
  have rnd: "rounded cfg num_faults ?cfg" using b(3,4) unfolding rounded_def by blast
  show ?thesis
    using shl stats t b(1,2) rnd ok[of "k_mod (unloaded cfg)"] alloc(3)
    by (auto simp: init_module_def Let_def start_thread_def spcd_map_init_def spcd_proc_init_def spcd_probes_init_def fold_register
        loaded_as_def module_probes_def module_threads_def unloaded_def)
qed

section \<open>Running\<close>

text \<open>No more threads are active than are numbered.\<close>

lemma active_le_numbered:
  assumes "pid_wf hash mt pids"
  shows "spcd_active_threads pids \<le> spcd_num_threads pids"
proof -
  let ?f = "\<lambda>h. nat (ps_tid (spcd_pid pids ! h))"
  have slot: "0 \<le> ps_tid (spcd_pid pids ! h)" "ps_tid (spcd_pid pids ! h) < spcd_num_threads pids"
    "spcd_pid_reverse pids ! ?f h = spcd_pid pids ! h" "pid_slot hash (ps_pid (spcd_pid pids ! h)) = h"
    if "h \<in> live_slots pids" for h
    using assms that by (auto simp: pid_wf_def Let_def)
  have "inj_on ?f (live_slots pids)"
    by (rule inj_onI) (metis slot(3,4))
  moreover have "?f ` live_slots pids \<subseteq> {..<nat (spcd_num_threads pids)}" using slot(1,2) by fastforce
  ultimately have "card (live_slots pids) \<le> nat (spcd_num_threads pids)"
    using card_inj_on_le[of ?f "live_slots pids" "{..<nat (spcd_num_threads pids)}"] by simp
  moreover have "0 \<le> spcd_num_threads pids" "spcd_active_threads pids = int (card (live_slots pids))"
    using assms by (simp_all add: pid_wf_def)
  ultimately show ?thesis by (simp only: le_nat_iff)
qed

lemma state_input_ok:
  assumes "sys_ok hash st" "max_threads_bits (sp_cfg st) \<le> 7"
  shows "input_ok (max_threads_bits (sp_cfg st)) (sp_pids st, sp_matrix st)"
  using assms(1)
proof (cases rule: sys_ok_cases)
  case boot
  then show ?thesis by (simp add: input_ok_def active_n_def spcd_get_active_threads_def pid_boot_def)
next
  case run
  let ?b = "max_threads_bits (sp_cfg st)"
  have cfg: "0 \<le> ?b" "max_threads (sp_cfg st) = 2 ^ nat ?b" using assms(1) by (simp_all add: sys_ok_def cfg_ok_def dim_int_def)
  have le: "spcd_get_active_threads (sp_pids st) \<le> 2 ^ nat ?b"
  proof -
    have "spcd_num_threads (sp_pids st) \<le> max_threads (sp_cfg st) \<or> spcd_num_threads (sp_pids st) \<le> 0"
      using run(2) by (auto simp: pid_wf_def)
    moreover have "(0 :: int) < 2 ^ nat ?b" by simp
    ultimately show ?thesis
      using active_le_numbered[OF run(2)] cfg(2) unfolding spcd_get_active_threads_def by linarith
  qed
  have "(2 :: int) ^ nat ?b \<le> 2 ^ 7" using assms(2) cfg(1) by (intro power_increasing) simp_all
  with le have "active_n (sp_pids st) \<le> 128" "int (active_n (sp_pids st)) \<le> dim_int ?b"
    by (simp_all add: active_n_def dim_int_def)
  moreover have "length (spcd_pid_reverse (sp_pids st)) = 16384" using run(2) by (simp add: pid_wf_def)
  ultimately show ?thesis using run(3) by (simp add: input_ok_def MAX_THREADS_def)
qed

text \<open>A machine whose cpus are numbered without gaps has the units that the mapping thread needs.\<close>

lemma topo_machine_ok:
  assumes hw: "masks_ok hw {..<P} node pkg core" "regular hw {..<P} node pkg core C K T"
  shows "wp (topo_init hw) (\<lambda>t. machine_ok [num_nodes t, num_cpus t, num_cores t, num_threads t] (pu t))"
proof -
  let ?N = "length (online_nodes hw)"
  obtain t L where t: "topo_init hw = Some t" "num_nodes t = ?N" "num_cpus t = C" "num_cores t = K" "num_threads t = T"
    "0 < C" "0 < K" "0 < T" "length (pu t) = 256" "P = ?N * (C * (K * T))"
    and L: "take P (pu t) = map of_nat L" "set L = {..<P}" "distinct L"
    using topo_init_ok[OF hw] by (auto simp: wp_iff)
  have "P \<noteq> 0" using hw(1) by (auto simp: masks_ok_def)
  then have N: "0 < ?N" using t(10) by auto
  have P: "P \<le> 256"
  proof (rule ccontr)
    assume "\<not> P \<le> 256"
    then show False using masks_okD(1)[OF hw(1)] by auto
  qed
  have len: "length L = P" using distinct_card[OF L(3)] L(2) by simp
  have ids: "pu t ! n = of_nat (L ! n)" "L ! n < P" if n: "n < P" for n
  proof -
    have "take P (pu t) ! n = map of_nat L ! n" by (simp add: L(1))
    then show "pu t ! n = of_nat (L ! n)" using n len by simp
    show "L ! n < P" using nth_mem[of n L] L(2) len n by simp
  qed
  have small: "unat (of_nat x :: u32) = x" if "x < P" for x
  proof -
    have "x < 2 ^ 32" using that P by simp
    then show ?thesis by (simp add: unat_of_nat)
  qed
  have dist: "distinct (map of_nat L :: u32 list)"
    unfolding distinct_map using L(2,3) small by (auto intro!: inj_onI) (metis lessThan_iff small)
  have prod: "prod_list [?N, C, K, T] = P" using t(10) by simp
  have bounds: "?N \<le> P" "?N * C \<le> P" "?N * (C * K) \<le> P"
    unfolding t(10) using t(6-8) by (simp_all add: mult.assoc[symmetric])
  have "tree_size [?N, C, K, T] = 1 + ?N + ?N * C + ?N * (C * K) + P"
    unfolding t(10) by (simp add: algebra_simps)
  with bounds P have size: "tree_size [?N, C, K, T] \<le> 2 ^ 15" by simp
  show ?thesis
    unfolding wp_iff t(1) using t N P prod size ids small dist L(1)
    by (intro exI[of _ t]) (simp add: machine_ok_def)
qed

section \<open>Unloading\<close>

lemma stop_threads_eq:
  "stop_threads k = k\<lparr>k_threads := filter (\<lambda>s. \<not> (spcd_pf_thread k \<and> s = ''spcd_pf_thread'') \<and> \<not> (spcd_map_thread k \<and> s = ''spcd_map_thread''))
     (k_threads k)\<rparr>"
  by (simp add: stop_threads_def kthread_stop_def Let_def conj_commute)

lemma free_matrix_eq: "free_matrix k = k\<lparr>matrix_freed := matrix_freed k \<or> matrix (sp_matrix (k_mod k)) \<noteq> None\<rparr>"
  by (simp add: free_matrix_def)

lemma mem_cleanup_eq: "spcd_mem_cleanup k = k\<lparr>mem_freed := mem_freed k \<or> mem (sp_mem (k_mod k)) \<noteq> None\<rparr>"
  by (simp add: spcd_mem_cleanup_def)

lemma proc_cleanup_eq:
  "spcd_proc_cleanup k = k\<lparr>k_entries := filter (\<lambda>s. s \<noteq> ''spcd'' \<and> s \<notin> (\<lambda>f. spcd_proc_root k @ f) ` set proc_files) (k_entries k)\<rparr>"
  unfolding spcd_proc_cleanup_def fold_remove by (simp only: remove_proc_entry_def set_rev) (simp add: conj_commute)

lemma probes_cleanup_eq:
  "spcd_probes_cleanup k = k\<lparr>k_probes := filter (\<lambda>s. s \<notin> set (base_probes @ (if do_pf (sp_cfg (k_mod k)) then pf_probes else []))) (k_probes k)\<rparr>"
  by (simp add: spcd_probes_cleanup_def fold_unregister Let_def conj_commute)

lemmas cleanup_eqs = stop_threads_eq free_matrix_eq mem_cleanup_eq proc_cleanup_eq probes_cleanup_eq

lemma cleanup_module_eq:
  "cleanup_module k = spcd_mem_cleanup (spcd_probes_cleanup (spcd_proc_cleanup (free_matrix (stop_threads k))))"
  by (simp add: cleanup_module_def run_steps_def cleanup_steps_def)

lemma cleanup_lists:
  assumes "loaded_as hash env cfg num_faults t k" "do_pf (sp_cfg st) = do_pf cfg"
  shows "k_probes (cleanup_module (k\<lparr>k_mod := st\<rparr>)) = []" "k_entries (cleanup_module (k\<lparr>k_mod := st\<rparr>)) = []"
    "k_threads (cleanup_module (k\<lparr>k_mod := st\<rparr>)) = []"
    "matrix_freed (cleanup_module (k\<lparr>k_mod := st\<rparr>)) \<longleftrightarrow> matrix (sp_matrix st) \<noteq> None"
    "mem_freed (cleanup_module (k\<lparr>k_mod := st\<rparr>)) \<longleftrightarrow> mem (sp_mem st) \<noteq> None"
proof -
  note k = assms(1)[unfolded loaded_as_def]
  show "k_probes (cleanup_module (k\<lparr>k_mod := st\<rparr>)) = []"
    using k assms(2) by (simp add: cleanup_module_eq cleanup_eqs module_probes_def filter_empty_conv)
  show "k_entries (cleanup_module (k\<lparr>k_mod := st\<rparr>)) = []"
    using k by (auto simp: cleanup_module_eq cleanup_eqs filter_empty_conv)
  show "k_threads (cleanup_module (k\<lparr>k_mod := st\<rparr>)) = []"
    using k by (auto simp: cleanup_module_eq cleanup_eqs module_threads_def)
  show "matrix_freed (cleanup_module (k\<lparr>k_mod := st\<rparr>)) \<longleftrightarrow> matrix (sp_matrix st) \<noteq> None"
    "mem_freed (cleanup_module (k\<lparr>k_mod := st\<rparr>)) \<longleftrightarrow> mem (sp_mem st) \<noteq> None"
    using k by (simp_all add: cleanup_module_eq cleanup_eqs)
qed

lemma check_comm_no_matrix:
  assumes "matrix m = None" "addr_to_page cfg addr = Some p" "hash_32_ok hash" "mem_wf cfg n ms"
    and "u \<in> set (block_window hash cfg ms p)" "u \<noteq> tid"
  shows "spcd_check_comm hash cfg cycles tid addr (ms, m) = None"
proof -
  obtain t where t: "mem ms = Some t" using assms(4) by (auto simp: mem_wf_def)
  let ?i = "mem_slot hash cfg p" and ?e = "t ! mem_slot hash cfg p"
  have i: "?i < length t" using mem_slot_less[OF assms(3,4) t] .
  have e: "pg_addr ?e = p" "u \<in> set (window ?e)" using assms(5) t by (auto simp: block_window_def Let_def split: if_splits)
  have inc: "inc_comm b tid v x y m = None" for b v x y using assms(1) by (simp add: inc_comm_def)
  have "check_sharers cfg tid new ?e m = None" for new
    using e(2) assms(6) by (auto simp: check_sharers_def Let_def get_num_sharers_def window_def inc split: if_splits)
  then show ?thesis
    using t i e(1) assms(2) by (simp add: spcd_check_comm_def spcd_get_mem_init_def spcd_get_mem_def Let_def)
qed

section \<open>A small kernel\<close>

fun demo_log :: "nat \<Rightarrow> nat" where
  "demo_log n = (if n \<le> 1 then 0 else Suc (demo_log ((n + 1) div 2)))"

fun demo_ilog :: "nat \<Rightarrow> nat" where
  "demo_ilog n = (if n < 2 then 0 else Suc (demo_ilog (n div 2)))"

declare demo_log.simps [simp del] demo_ilog.simps [simp del]

lemma demo_log_least: "n \<le> 2 ^ demo_log n \<and> (0 < demo_log n \<longrightarrow> 2 ^ (demo_log n - 1) < n)"
proof (induction n rule: demo_log.induct)
  case (1 n)
  show ?case
  proof (cases "n \<le> 1")
    case False
    let ?h = "(n + 1) div 2"
    have IH: "?h \<le> 2 ^ demo_log ?h" "0 < demo_log ?h \<longrightarrow> 2 ^ (demo_log ?h - 1) < ?h" using 1 False by simp_all
    have "2 ^ demo_log ?h < n"
    proof (cases "demo_log ?h")
      case (Suc b)
      then have "2 ^ b < ?h" using IH(2) by simp
      then have "2 ^ b \<le> ?h - 1" "2 * (?h - 1) < n" using False by linarith+
      then show ?thesis using Suc by simp
    qed (use False in simp)
    moreover have "n \<le> 2 * 2 ^ demo_log ?h" using IH(1) by linarith
    ultimately show ?thesis using False by (simp add: demo_log.simps[of n])
  qed (simp add: demo_log.simps[of n])
qed

lemma demo_ilog_power: "demo_ilog (2 ^ b) = b"
  by (induction b) (simp_all add: demo_ilog.simps)

definition demo_kernel :: boot_env where
  "demo_kernel = \<lparr>be_roundup_pow_of_two = \<lambda>n. 2 ^ demo_log (nat n), be_ilog2 = \<lambda>n. int (demo_ilog (nat n)),
     be_answers = kernel_answers, be_register = \<lambda>s. 0, be_mkdir = True, be_kthread = \<lambda>s. True, be_setaffinity = True,
     be_masks = demo_masks\<rparr>"

lemma demo_kernel_ready: "kernel_ready demo_kernel"
proof -
  have "\<exists>b. be_roundup_pow_of_two demo_kernel n = 2 ^ b \<and> n \<le> 2 ^ b \<and> (0 < b \<longrightarrow> 2 ^ (b - 1) < n)" if "0 < n" for n
  proof (intro exI conjI impI)
    let ?b = "demo_log (nat n)"
    show "be_roundup_pow_of_two demo_kernel n = 2 ^ ?b" by (simp add: demo_kernel_def)
    have "int (nat n) \<le> int (2 ^ ?b)" using demo_log_least[of "nat n"] by (simp only: of_nat_le_iff)
    then show "n \<le> 2 ^ ?b" using that by simp
    assume "0 < ?b"
    then have "int (2 ^ (?b - 1)) < int (nat n)" using demo_log_least[of "nat n"] by (simp only: of_nat_less_iff)
    then show "2 ^ (?b - 1) < n" using that by simp
  qed
  moreover have "be_ilog2 demo_kernel (2 ^ b) = int b" for b
    by (simp add: demo_kernel_def nat_power_eq demo_ilog_power)
  ultimately show ?thesis
    by (simp add: kernel_ready_def logs_ok_def) (simp add: demo_kernel_def kernel_answers_def)
qed

lemma demo_settings_ok: "settings_ok demo_config"
  by (simp add: settings_ok_def demo_config_def)

lemma demo_kernel_masks: "masks_ok (be_masks demo_kernel) {..<8} demo_node demo_node demo_core"
    "regular (be_masks demo_kernel) {..<8} demo_node demo_node demo_core 1 2 2"
  using demo_masks_ok demo_regular by (simp_all add: demo_kernel_def)

section \<open>Properties\<close>

text \<open>
  C3: the loaded module runs. Loaded with admissible parameters, at most 128 threads, on a regular machine whose cpus
  are numbered without gaps, and by a kernel that has the memory, the module starts in its invariant, with
  \<open>max_threads\<close> rounded up to the next power of two, the probes, files and threads that the parameters ask for, and
  the machine's numbers. From then on, whatever admissible events lead from round to round, the mapping thread
  started on this machine runs through every round.
\<close>
theorem loaded_module_runs:
  assumes env: "kernel_ready env" and cfg: "settings_ok cfg" "max_threads cfg \<le> 128" and hash: "hash_32_ok hash" and ops: "pfn_ok ops"
    and hw: "masks_ok (be_masks env) {..<P} node pkg core" "regular (be_masks env) {..<P} node pkg core C K T"
  shows "\<exists>k t. init_module env num_faults (unloaded cfg) = Some (0, k) \<and> loaded_as hash env cfg num_faults t k \<and>
    (\<forall>menv states. env_ok (max_threads_bits (sp_cfg (k_mod k))) 4 menv \<and>
        (\<forall>st \<in> set states. \<exists>es. sys_reaches hash ops kst (k_mod k) es st) \<longrightarrow>
      (\<exists>st log. spcd_map_func menv (sp_cfg (k_mod k)) [num_nodes t, num_cpus t, num_cores t, num_threads t] (pu t)
        (map (\<lambda>st. (sp_pids st, sp_matrix st)) states) = Some (st, log)))"
proof -
  obtain t where t: "topo_init (be_masks env) = Some t" "machine_ok [num_nodes t, num_cpus t, num_cores t, num_threads t] (pu t)"
    using topo_machine_ok[OF hw] by (auto elim: wpE)
  obtain k where k: "init_module env num_faults (unloaded cfg) = Some (0, k)" "loaded_as hash env cfg num_faults t k"
    using init_module_ok[OF env cfg(1) hash t(1), of num_faults] unfolding wp_iff by auto
  have ok: "sys_ok hash (k_mod k)" and "rounded cfg num_faults (sp_cfg (k_mod k))" using k(2) by (simp_all add: loaded_as_def)
  then have bits: "max_threads_bits (sp_cfg (k_mod k)) \<le> 7" using cfg(2) by (fastforce simp: rounded_def)
  have "\<exists>st log. spcd_map_func menv (sp_cfg (k_mod k)) [num_nodes t, num_cpus t, num_cores t, num_threads t] (pu t)
        (map (\<lambda>st. (sp_pids st, sp_matrix st)) states) = Some (st, log)"
    if menv: "env_ok (max_threads_bits (sp_cfg (k_mod k))) 4 menv"
      and states: "\<forall>st \<in> set states. \<exists>es. sys_reaches hash ops kst (k_mod k) es st" for menv states
  proof -
    have "input_ok (max_threads_bits (sp_cfg (k_mod k))) (sp_pids st, sp_matrix st)" if "st \<in> set states" for st
    proof -
      obtain es where es: "sys_reaches hash ops kst (k_mod k) es st" using states \<open>st \<in> set states\<close> by blast
      have same: "max_threads_bits (sp_cfg st) = max_threads_bits (sp_cfg (k_mod k))" using reaches_keeps[OF es] by simp
      show ?thesis using state_input_ok[OF reaches_ok[OF es ok ops]] bits unfolding same by simp
    qed
    then have "\<forall>inp \<in> set (map (\<lambda>st. (sp_pids st, sp_matrix st)) states). input_ok (max_threads_bits (sp_cfg (k_mod k))) inp" by auto
    note inps = this
    have four: "length [num_nodes t, num_cpus t, num_cores t, num_threads t] = 4" by simp
    from spcd_map_func_ok[OF menv[folded four] refl t(2) inps] show ?thesis by blast
  qed
  with k show ?thesis by blast
qed

theorem loaded_module_runs_witness:
  "\<exists>k t st log. init_module demo_kernel 9 (unloaded demo_config) = Some (0, k) \<and>
    loaded_as low_bits_hash demo_kernel demo_config 9 t k \<and>
    spcd_map_func demo_env (sp_cfg (k_mod k)) [num_nodes t, num_cpus t, num_cores t, num_threads t] (pu t)
      [(sp_pids (k_mod k), sp_matrix (k_mod k))] = Some (st, log)"
proof -
  have cfg: "max_threads demo_config \<le> 128" by (simp add: demo_config_def)
  obtain k t where k: "init_module demo_kernel 9 (unloaded demo_config) = Some (0, k)" "loaded_as low_bits_hash demo_kernel demo_config 9 t k"
    and run: "\<forall>menv states. env_ok (max_threads_bits (sp_cfg (k_mod k))) 4 menv \<and>
        (\<forall>st \<in> set states. \<exists>es. sys_reaches low_bits_hash small_ops decimal_kstrtouint (k_mod k) es st) \<longrightarrow>
      (\<exists>st log. spcd_map_func menv (sp_cfg (k_mod k)) [num_nodes t, num_cpus t, num_cores t, num_threads t] (pu t)
        (map (\<lambda>st. (sp_pids st, sp_matrix st)) states) = Some (st, log))"
    using loaded_module_runs[OF demo_kernel_ready demo_settings_ok cfg low_bits_hash_ok small_ops_ok demo_kernel_masks, of 9 decimal_kstrtouint]
    by blast
  have "rounded demo_config 9 (sp_cfg (k_mod k))" using k(2) by (simp add: loaded_as_def)
  then obtain b where b: "max_threads_bits (sp_cfg (k_mod k)) = int b" "4 \<le> (2 :: int) ^ b" "\<forall>m. 4 \<le> (2 :: int) ^ m \<longrightarrow> b \<le> m"
    by (auto simp: rounded_def demo_config_def)
  have "b \<le> 2" using b(3) by (auto dest: spec[of _ 2])
  then have "b = 2" using b(2) by (auto simp: le_Suc_eq numeral_2_eq_2)
  then have "env_ok (max_threads_bits (sp_cfg (k_mod k))) 4 demo_env" using demo_env_ok b(1) by (simp add: numeral_eq_Suc)
  moreover have "sys_reaches low_bits_hash small_ops decimal_kstrtouint (k_mod k) [] (k_mod k)" by (rule sys_reaches.start)
  ultimately show ?thesis using run[rule_format, of demo_env "[k_mod k]"] k by auto
qed

text \<open>
  C27: unloading takes everything back. After any admissible events, unloading leaves no probe registered, no file in procfs and
  no thread running, and frees the table and, when there is one, the matrix.
\<close>
theorem unload_leaves_nothing:
  assumes env: "kernel_ready env" and cfg: "settings_ok cfg" and hash: "hash_32_ok hash" and ops: "pfn_ok ops"
    and t: "topo_init (be_masks env) = Some t"
  shows "\<exists>k. init_module env num_faults (unloaded cfg) = Some (0, k) \<and>
    (\<forall>es st. sys_reaches hash ops kst (k_mod k) es st \<longrightarrow> (let k' = cleanup_module (k\<lparr>k_mod := st\<rparr>) in
      k_probes k' = [] \<and> k_entries k' = [] \<and> k_threads k' = [] \<and> mem_freed k' \<and>
      (matrix_freed k' \<longleftrightarrow> matrix (sp_matrix st) \<noteq> None)))"
proof -
  obtain k where k: "init_module env num_faults (unloaded cfg) = Some (0, k)" "loaded_as hash env cfg num_faults t k"
    using init_module_ok[OF env cfg hash t, of num_faults] unfolding wp_iff by auto
  have ok: "sys_ok hash (k_mod k)" and "rounded cfg num_faults (sp_cfg (k_mod k))" using k(2) by (simp_all add: loaded_as_def)
  then have pf: "do_pf (sp_cfg (k_mod k)) = do_pf cfg" by (auto simp: rounded_def)
  have "let k' = cleanup_module (k\<lparr>k_mod := st\<rparr>) in
      k_probes k' = [] \<and> k_entries k' = [] \<and> k_threads k' = [] \<and> mem_freed k' \<and>
      (matrix_freed k' \<longleftrightarrow> matrix (sp_matrix st) \<noteq> None)" if es: "sys_reaches hash ops kst (k_mod k) es st" for es st
  proof -
    have "do_pf (sp_cfg st) = do_pf cfg" using reaches_keeps[OF es] pf by simp
    moreover have "mem (sp_mem st) \<noteq> None" using reaches_ok[OF es ok ops] by (auto simp: sys_ok_def mem_wf_def)
    ultimately show ?thesis using cleanup_lists[OF k(2), of st] by (simp add: Let_def)
  qed
  with k(1) show ?thesis by blast
qed

theorem unload_leaves_nothing_witness:
  "\<exists>k. init_module demo_kernel 9 (unloaded demo_config) = Some (0, k) \<and> k_probes (cleanup_module k) = [] \<and>
    k_entries (cleanup_module k) = [] \<and> k_threads (cleanup_module k) = []"
proof -
  obtain t where t: "topo_init (be_masks demo_kernel) = Some t" using topo_init_ok[OF demo_kernel_masks] by (auto elim: wpE)
  obtain k where k: "init_module demo_kernel 9 (unloaded demo_config) = Some (0, k)"
    and all: "\<forall>es st. sys_reaches low_bits_hash small_ops decimal_kstrtouint (k_mod k) es st \<longrightarrow> (let k' = cleanup_module (k\<lparr>k_mod := st\<rparr>) in
      k_probes k' = [] \<and> k_entries k' = [] \<and> k_threads k' = [] \<and> mem_freed k' \<and> (matrix_freed k' \<longleftrightarrow> matrix (sp_matrix st) \<noteq> None))"
    using unload_leaves_nothing[OF demo_kernel_ready demo_settings_ok low_bits_hash_ok small_ops_ok t, of 9 decimal_kstrtouint] by blast
  have "sys_reaches low_bits_hash small_ops decimal_kstrtouint (k_mod k) [] (k_mod k)" by (rule sys_reaches.start)
  with all have "let k' = cleanup_module (k\<lparr>k_mod := k_mod k\<rparr>) in
      k_probes k' = [] \<and> k_entries k' = [] \<and> k_threads k' = [] \<and> mem_freed k' \<and> (matrix_freed k' \<longleftrightarrow> matrix (sp_matrix (k_mod k)) \<noteq> None)"
    by blast
  then show ?thesis using k by (simp add: Let_def)
qed

text \<open>Three kinds of page faults: without the probe, with all arrays, and with a freed matrix that it needs.\<close>

lemma fault_unprobed: "''handle_pte_fault'' \<notin> set (k_probes k) \<Longrightarrow> kernel_fault hash ops cycles pid address pte k \<noteq> None"
  by (simp add: kernel_fault_def)

lemma fault_handled:
  assumes "sys_ok hash (k_mod k)" "pfn_ok ops" "0 < pid" "\<not> matrix_freed k" "\<not> mem_freed k"
  shows "kernel_fault hash ops cycles pid address pte k \<noteq> None"
  using fault_refines[OF assms(1,3,2), of cycles address pte] assms(4,5)
  by (auto simp: kernel_fault_def hide_freed_def wp_iff split: prod.splits)

lemma fault_freed:
  assumes ok: "sys_ok hash (k_mod k)" and k: "''handle_pte_fault'' \<in> set (k_probes k)" "matrix_freed k" "\<not> mem_freed k"
    and tid: "spcd_get_tid hash pid (sp_pids (k_mod k)) = Some tid" "tid \<noteq> -1"
    and pte: "fst (fix_pte ops (fix_pte_is_real (k_mod k)) (pte, 0)) = pte'" "pte_pfn ops pte' \<noteq> 0"
    and other: "u \<in> set (block_window hash (sp_cfg (k_mod k)) (sp_mem (k_mod k)) (fault_block (sp_cfg (k_mod k)) (pte_pfn ops pte') address))" "u \<noteq> tid"
  shows "kernel_fault hash ops cycles pid address pte k = None"
proof -
  let ?m = "k_mod k"
  have cfg: "hash_32_ok hash" "mem_wf (sp_cfg ?m) (max_threads (sp_cfg ?m)) (sp_mem ?m)" "0 \<le> spcd_shift (sp_cfg ?m)" "spcd_shift (sp_cfg ?m) \<le> 12"
    using ok unfolding sys_ok_def cfg_ok_def by blast+
  let ?addr = "push_bit PAGE_SHIFT (pte_pfn ops pte') OR (address AND (PAGE_SIZE - 1))"
  have page: "addr_to_page (sp_cfg ?m) ?addr = Some (fault_block (sp_cfg ?m) (pte_pfn ops pte') address)"
    using cfg(3,4) by (simp add: addr_to_page_def fault_block_def)
  have none: "spcd_check_comm hash (sp_cfg ?m) cycles tid ?addr (sp_mem ?m, (sp_matrix ?m)\<lparr>matrix := None\<rparr>) = None"
    by (rule check_comm_no_matrix[OF _ page cfg(1,2) other]) simp
  obtain f where fx: "fix_pte ops (fix_pte_is_real ?m) (pte, spcd_pte_fixes ?m) = (pte', f)"
    using pte(1) fix_pte_fst[of ops "fix_pte_is_real ?m" pte "spcd_pte_fixes ?m"] by (cases "fix_pte ops (fix_pte_is_real ?m) (pte, spcd_pte_fixes ?m)") simp
  show ?thesis
    using k tid pte(2) fx none by (simp add: kernel_fault_def hide_freed_def pte_fault_handler_def Let_def)
qed

text \<open>What the first steps of \<open>cleanup_module\<close> leave of what a page fault depends on.\<close>

lemma cleanup_prefix:
  assumes "\<not> matrix_freed k" "\<not> mem_freed k" "matrix (sp_matrix (k_mod k)) \<noteq> None" "''handle_pte_fault'' \<in> set (k_probes k)"
  shows "let k' = run_steps (take n cleanup_steps) k in k_mod k' = k_mod k \<and> (''handle_pte_fault'' \<in> set (k_probes k') \<longleftrightarrow> n \<le> 3) \<and>
    (matrix_freed k' \<longleftrightarrow> 2 \<le> n) \<and> (n \<le> 4 \<longrightarrow> \<not> mem_freed k')"
proof -
  consider "n = 0" | "n = 1" | "n = 2" | "n = 3" | "n = 4" | "5 \<le> n" by linarith
  then show ?thesis
    by cases (use assms in \<open>simp_all add: run_steps_def cleanup_steps_def cleanup_eqs Let_def base_probes_def\<close>)
qed

text \<open>
  C31: a page fault during unloading. \<open>cleanup_module\<close> frees the matrix as its second step and unregisters the probes
  as its fourth. A page fault of a numbered thread on a block that another thread has used has a defined result
  before the matrix is freed and after the probes are gone, and none between these two steps, where the handler
  writes to the freed matrix.
\<close>
theorem unload_window:
  assumes ok: "sys_ok hash (k_mod k)" "sp_pids (k_mod k) \<noteq> pid_boot" "pfn_ok ops" "0 < pid"
    and k: "''handle_pte_fault'' \<in> set (k_probes k)" "\<not> matrix_freed k" "\<not> mem_freed k"
    and tid: "spcd_get_tid hash pid (sp_pids (k_mod k)) = Some tid" "tid \<noteq> -1"
    and pte: "fst (fix_pte ops (fix_pte_is_real (k_mod k)) (pte, 0)) = pte'" "pte_pfn ops pte' \<noteq> 0"
    and other: "u \<in> set (block_window hash (sp_cfg (k_mod k)) (sp_mem (k_mod k)) (fault_block (sp_cfg (k_mod k)) (pte_pfn ops pte') address))" "u \<noteq> tid"
  shows "kernel_fault hash ops cycles pid address pte (run_steps (take n cleanup_steps) k) = None \<longleftrightarrow> n = 2 \<or> n = 3"
proof -
  let ?k = "run_steps (take n cleanup_steps) k"
  have "matrix (sp_matrix (k_mod k)) \<noteq> None" using ok(1,2) by (auto elim!: sys_ok_cases simp: matrix_wf_def)
  then have m: "k_mod ?k = k_mod k" and now: "''handle_pte_fault'' \<in> set (k_probes ?k) \<longleftrightarrow> n \<le> 3"
      "matrix_freed ?k \<longleftrightarrow> 2 \<le> n" "n \<le> 4 \<Longrightarrow> \<not> mem_freed ?k"
    using cleanup_prefix[OF k(2,3) _ k(1), of n] by (simp_all add: Let_def)
  consider "n < 2" | "n = 2 \<or> n = 3" | "3 < n" by linarith
  then show ?thesis
  proof cases
    case 1
    then show ?thesis using fault_handled[of hash ?k ops pid cycles address pte] ok(1,3,4) m now by simp
  next
    case 2
    then show ?thesis using fault_freed[of hash ?k pid tid ops pte pte' u address cycles] ok(1) tid pte other now unfolding m by auto
  next
    case 3
    then show ?thesis using fault_unprobed[of ?k hash ops cycles pid address pte] now by simp
  qed
qed

text \<open>The two files that are read show the abstract module.\<close>

lemma read_matrix_file:
  assumes "sys_ok hash st"
  shows "\<exists>r. matrix_read (sp_cfg st) (sp_pids st) (sp_matrix st) = Some r \<and>
    (let s = spec_of hash st; n = nat (next_tid s) in if n < 2 then r = (1, [])
      else fst r = 0 \<and> read_lines (snd r) = matrix_rows (\<lambda>i j. snd (det s) (int i) (int j)) n)"
  using assms
proof (cases rule: sys_ok_cases)
  case boot
  then show ?thesis by (simp add: spec_of_def Let_def matrix_read_def spcd_get_num_threads_def pid_boot_def)
next
  case run
  define n where "n = nat (spcd_num_threads (sp_pids st))"
  have n: "spcd_num_threads (sp_pids st) = int n" using run(2) by (simp add: pid_wf_def n_def)
  have room: "int n \<le> dim_int (max_threads_bits (sp_cfg st))"
    using run(2) assms n by (cases "n = 0") (auto simp: pid_wf_def sys_ok_def cfg_ok_def dim_int_def)
  have "sp_pids st \<noteq> pid_boot" using run(2) boot_not_wf by metis
  then have s: "next_tid (spec_of hash st) = int n" "snd (det (spec_of hash st)) = pair_count (sp_cfg st) (sp_matrix st)"
    by (simp_all add: spec_of_def n)
  show ?thesis
  proof (cases "n < 2")
    case True
    then show ?thesis using n by (simp add: s matrix_read_def spcd_get_num_threads_def)
  next
    case False
    have "read_lines (csv_lines (map (map show_nat) (matrix_rows c n))) = matrix_rows c n" for c :: "nat \<Rightarrow> nat \<Rightarrow> u32"
      using False by (intro read_csv_lines) (auto simp: matrix_rows_def)
    then show ?thesis using matrix_read_text[OF run(3) n _ room] False by (simp add: s)
  qed
qed

lemma read_pids_file:
  assumes "sys_ok hash st"
  shows "\<exists>r. pids_read (sp_pids st) = Some r \<and>
    (let s = spec_of hash st; n = nat (next_tid s) in if n = 0 then r = (1, [])
      else fst r = 0 \<and> (\<exists>ps. read_lines (snd r) = [rev ps] \<and> length ps = n \<and>
        (\<forall>pid t. tids s pid = Some t \<longrightarrow> ps ! nat t = unat (word_of_int pid :: u32))))"
  using assms
proof (cases rule: sys_ok_cases)
  case boot
  then show ?thesis by (simp add: spec_of_def Let_def pids_read_def spcd_get_num_threads_def pid_boot_def)
next
  case run
  define n where "n = nat (spcd_num_threads (sp_pids st))"
  have n: "spcd_get_num_threads (sp_pids st) = int n" using run(2) by (simp add: pid_wf_def n_def spcd_get_num_threads_def)
  have "sp_pids st \<noteq> pid_boot" using run(2) boot_not_wf by metis
  then have s: "next_tid (spec_of hash st) = int n" "tids (spec_of hash st) = live hash (sp_pids st)"
    using n by (simp_all add: spec_of_def spcd_get_num_threads_def)
  show ?thesis
  proof (cases "n = 0")
    case True
    then show ?thesis using n by (simp add: s pids_read_def)
  next
    case False
    then obtain ps where ps: "pids_read (sp_pids st) = Some (0, csv (map show_nat (rev ps)) @ newline)" "length ps = n"
      "\<forall>pid t. live hash (sp_pids st) pid = Some t \<longrightarrow> ps ! nat t = unat (word_of_int pid :: u32)"
      using pids_read_ok[OF run(2) n] by blast
    have "read_lines (csv_lines (map (map show_nat) [rev ps])) = [rev ps]"
      using False ps(2) by (intro read_csv_lines) auto
    then have "read_lines (csv (map show_nat (rev ps)) @ newline) = [rev ps]" by (simp add: csv_lines_def)
    with ps False show ?thesis by (auto simp: s)
  qed
qed



text \<open>A module in which thread 0 has used block 5 and thread 1 faults on it.\<close>

definition shared_mem :: mem_state where
  "shared_mem = \<lparr>mem = Some ((replicate 16 zero_elem)[5 := \<lparr>pg_addr = 5, mi_tsc = 0, sharer_0 = 1, sharer_1 = -1\<rparr>]), spcd_addr_conflict = 0\<rparr>"

lemma slot_five: "mem_slot low_bits_hash small_cfg 5 = 5"
  by (simp add: mem_slot_def low_bits_hash_def)

lemma shared_mem_ok: "mem_wf small_cfg 4 shared_mem" "block_window low_bits_hash small_cfg shared_mem 5 = [1]"
proof -
  have "elem_safe 4 e \<and> (pg_addr e \<noteq> 0 \<longrightarrow> distinct (window e))"
    if "e \<in> set ((replicate 16 zero_elem)[5 := \<lparr>pg_addr = 5, mi_tsc = 0, sharer_0 = 1, sharer_1 = -1\<rparr>])" for e
  proof -
    have "e = \<lparr>pg_addr = 5, mi_tsc = 0, sharer_0 = 1, sharer_1 = -1\<rparr> \<or> e = zero_elem"
      using that set_update_subset_insert by fastforce
    then show ?thesis by (auto simp: elem_safe_def window_def zero_elem_def)
  qed
  then show "mem_wf small_cfg 4 shared_mem" by (simp only: mem_wf_def) (simp add: shared_mem_def)
  show "block_window low_bits_hash small_cfg shared_mem 5 = [1]"
    by (simp add: block_window_def shared_mem_def) (simp add: slot_five window_def)
qed

theorem unload_window_witness:
  "\<exists>k. kernel_fault low_bits_hash small_ops 77 43 0 0x5001 (run_steps (take 1 cleanup_steps) k) \<noteq> None \<and>
    kernel_fault low_bits_hash small_ops 77 43 0 0x5001 (run_steps (take 2 cleanup_steps) k) = None \<and>
    kernel_fault low_bits_hash small_ops 77 43 0 0x5001 (run_steps (take 4 cleanup_steps) k) \<noteq> None"
proof -
  have wf: "pid_wf low_bits_hash 4 (spcd_pid_clear pid_boot)" by (rule pid_clear_wf) simp_all
  obtain tid pids where add: "spcd_add_pid low_bits_hash 4 43 (spcd_pid_clear pid_boot) = Some (tid, pids)"
    by (metis add_pid_cases[OF wf] surj_pair)
  have "tid = 0" using add unfolding add_pid_cases[OF wf] by (auto simp: Let_def spcd_pid_clear_def split: if_splits)
  then have "tid \<noteq> -1" by simp
  note ok = add_pid_success[OF wf _ add this] \<open>tid = 0\<close>
  have p: "pid_wf low_bits_hash 4 pids" "live low_bits_hash pids 43 = Some 0" using ok by auto
  have get: "spcd_get_tid low_bits_hash 43 pids = Some 0" using spcd_get_tid_live[OF p(1), of 43] p(2) by simp
  let ?m = "between\<lparr>sp_pids := pids, sp_mem := shared_mem\<rparr>"
  let ?k = "(unloaded small_cfg)\<lparr>k_mod := ?m, k_probes := base_probes\<rparr>"
  have "pids \<noteq> pid_boot" using p(1) boot_not_wf by blast
  moreover have "sys_ok low_bits_hash ?m"
    using between_ok(1) p(1) shared_mem_ok(1) by (auto simp: sys_ok_def between_def matrix_wf_def loaded_def)
  moreover have "fst (fix_pte small_ops True (0x5001, 0)) = 0x5001"
    by (simp add: fix_pte_def fix_pte_real_def small_ops_def bit_ops_def)
  ultimately have "kernel_fault low_bits_hash small_ops 77 43 0 0x5001 (run_steps (take n cleanup_steps) ?k) = None \<longleftrightarrow> n = 2 \<or> n = 3" for n
    using unload_window[where hash = low_bits_hash and k = ?k and ops = small_ops and pid = 43 and cycles = 77 and address = 0
        and pte = "0x5001" and pte' = "0x5001" and u = 1 and tid = 0 and n = n] small_ops_ok get shared_mem_ok(2)
    by (simp add: unloaded_def base_probes_def small_ops_def between_def loaded_def fault_block_def PAGE_SHIFT_def)
  from this[of 1] this[of 2] this[of 4] show ?thesis by (intro exI[of _ ?k]) simp
qed

end
