(* ===== verification/Cdsm_Libspcd.thy ===== *)
theory Cdsm_Libspcd
  imports Cdsm_Procfs
begin

text \<open>
  The exchange format for the communication matrix, \<open>src/libspcd.c\<close>: \<open>spcd_matrix_encode\<close> writes the magic
  number, the struct with its two pointers cleared, the pids and the cells into one block of bytes, and
  \<open>spcd_matrix_decode\<close> reads them back. Blocks of memory are lists of bytes; numbers are little-endian and the
  struct has the layout of x86-64. What \<open>malloc\<close> returns is a parameter, contents included.
\<close>

unbundle bit_operations_syntax

section \<open>Bytes\<close>

definition le32 :: "u32 \<Rightarrow> u8 list" where
  "le32 w = [ucast w, ucast (drop_bit 8 w), ucast (drop_bit 16 w), ucast (drop_bit 24 w)]"

definition read32 :: "u8 list \<Rightarrow> u32" where
  "read32 bs = (case bs of
       [a, b, c, d] \<Rightarrow> ucast a OR push_bit 8 (ucast b) OR push_bit 16 (ucast c) OR push_bit 24 (ucast d)
     | _ \<Rightarrow> 0)"

definition words_bytes :: "u32 list \<Rightarrow> u8 list" where
  "words_bytes ws = concat (map le32 ws)"

fun bytes_words :: "u8 list \<Rightarrow> u32 list" where
  "bytes_words (a # b # c # d # bs) = read32 [a, b, c, d] # bytes_words bs"
| "bytes_words bs = []"

text \<open>\<open>memcpy\<close> from and to a place in a block.\<close>

definition get_bytes :: "u8 list \<Rightarrow> nat \<Rightarrow> nat \<Rightarrow> u8 list option" where
  "get_bytes buf off n = (if off + n \<le> length buf then Some (take n (drop off buf)) else None)"

definition put_bytes :: "u8 list \<Rightarrow> nat \<Rightarrow> u8 list \<Rightarrow> u8 list option" where
  "put_bytes buf off bs =
     (if off + length bs \<le> length buf then Some (take off buf @ bs @ drop (off + length bs) buf) else None)"

section \<open>The code\<close>

definition SPCD_MAGIC :: u32 where
  "SPCD_MAGIC = 0x48151623"

record spcd_matrix_t =
  sm_num_threads :: int
  sm_max_threads :: int
  sm_pids :: "u32 list"
  sm_matrix :: "u32 list"

text \<open>The sizes are of type \<open>size_t\<close>; the struct has 24 bytes.\<close>

definition pids_size :: "int \<Rightarrow> u64" where
  "pids_size nt = 4 * word_of_int nt"

definition cells_size :: "int \<Rightarrow> u64" where
  "cells_size mt = 4 * word_of_int mt * word_of_int mt"

text \<open>\<open>addrs\<close> are the bytes of the two pointers in the struct, which the code copies and then clears.\<close>

definition spcd_matrix_encode :: "(u64 \<Rightarrow> u8 list option) \<Rightarrow> u8 list \<Rightarrow> spcd_matrix_t \<Rightarrow> u8 list option" where
  "spcd_matrix_encode alloc addrs d = do {
     let nt = sm_num_threads d;
     let mt = sm_max_threads d;
     ret \<leftarrow> alloc (4 + 24 + pids_size nt + cells_size mt);
     ret \<leftarrow> put_bytes ret 0 (le32 SPCD_MAGIC);
     ret \<leftarrow> put_bytes ret 4 (le32 (word_of_int nt) @ le32 (word_of_int mt) @ addrs);
     ret \<leftarrow> put_bytes ret 12 (replicate 8 0);
     ret \<leftarrow> put_bytes ret 20 (replicate 8 0);
     pids \<leftarrow> get_bytes (words_bytes (sm_pids d)) 0 (unat (pids_size nt));
     ret \<leftarrow> put_bytes ret 28 pids;
     cells \<leftarrow> get_bytes (words_bytes (sm_matrix d)) 0 (unat (cells_size mt));
     put_bytes ret (28 + unat (pids_size nt)) cells
   }"

text \<open>\<open>junk\<close> stands for the local variable that the code returns unassigned when the magic number is wrong.\<close>

definition spcd_matrix_decode :: "(u64 \<Rightarrow> u8 list option) \<Rightarrow> spcd_matrix_t \<Rightarrow> u8 list \<Rightarrow> spcd_matrix_t option" where
  "spcd_matrix_decode alloc junk ptr = do {
     magic \<leftarrow> get_bytes ptr 0 4;
     if read32 magic \<noteq> SPCD_MAGIC then Some (junk\<lparr>sm_num_threads := -1\<rparr>)
     else do {
       struct \<leftarrow> get_bytes ptr 4 24;
       let nt = sint (read32 (take 4 struct));
       let mt = sint (read32 (take 4 (drop 4 struct)));
       pids \<leftarrow> alloc (pids_size nt);
       cells \<leftarrow> alloc (cells_size mt);
       bs \<leftarrow> get_bytes ptr 28 (unat (pids_size nt));
       pids \<leftarrow> put_bytes pids 0 bs;
       bs \<leftarrow> get_bytes ptr (28 + unat (pids_size nt)) (unat (cells_size mt));
       cells \<leftarrow> put_bytes cells 0 bs;
       Some \<lparr>sm_num_threads = nt, sm_max_threads = mt, sm_pids = bytes_words pids, sm_matrix = bytes_words cells\<rparr>
     }
   }"

definition spcd_matrix_size :: "(u64 \<Rightarrow> u8 list option) \<Rightarrow> spcd_matrix_t \<Rightarrow> u8 list \<Rightarrow> u64 option" where
  "spcd_matrix_size alloc junk ptr = do {
     tmp \<leftarrow> spcd_matrix_decode alloc junk ptr;
     Some (4 + 24 + pids_size (sm_num_threads tmp) + cells_size (sm_max_threads tmp))
   }"

text \<open>The cells of the numbered threads only, the row of the last thread first.\<close>

definition spcd_get_small_matrix :: "(nat \<Rightarrow> u32 list option) \<Rightarrow> spcd_matrix_t \<Rightarrow> u32 list option" where
  "spcd_get_small_matrix malloc d = do {
     let nt = sm_num_threads d;
     ret \<leftarrow> malloc (unat (word_of_int nt * word_of_int nt :: u64));
     (ret, a) \<leftarrow> foldM (\<lambda>i. foldM (\<lambda>j (ret, a). do {
         row \<leftarrow> cint (if i > j then int i * sm_max_threads d else int j * sm_max_threads d);
         k \<leftarrow> cint (row + (if i > j then int j else int i));
         v \<leftarrow> agetz (sm_matrix d) k;
         ret \<leftarrow> aputz ret a v;
         a \<leftarrow> cint (a + 1);
         Some (ret, a)
       }) [0..<nat nt]) (rev [0..<nat nt]) (ret, 0);
     Some ret
   }"

definition spcd_matrix_print :: "(nat \<Rightarrow> u32 list option) \<Rightarrow> spcd_matrix_t option \<Rightarrow> string option" where
  "spcd_matrix_print malloc data = (case data of
       None \<Rightarrow> Some (''NULL'' @ newline)
     | Some d \<Rightarrow> do {
         let nt = sm_num_threads d;
         let out = ''Threads: '' @ show_int nt @ newline @ ''Max Threads: '' @ show_int (sm_max_threads d) @ newline @ ''PIDs: '';
         out \<leftarrow> foldM (\<lambda>i out. do {
             p \<leftarrow> aget (sm_pids d) i;
             Some (out @ show_int (sint p) @ (if int i \<noteq> nt - 1 then '','' else []))
           }) [0..<nat nt] out;
         let out = out @ newline @ ''Matrix:'';
         out \<leftarrow> foldM (\<lambda>j out. foldM (\<lambda>i out. do {
             small \<leftarrow> spcd_get_small_matrix malloc d;
             x \<leftarrow> cint (int j * nt);
             k \<leftarrow> cint (x + int i);
             c \<leftarrow> agetz small k;
             Some (out @ show_int (sint c) @ (if int i \<noteq> nt - 1 then '','' else []))
           }) [0..<nat nt] (out @ newline @ [CHR 0x09])) [0..<nat nt] out;
         Some (out @ newline)
       })"

section \<open>Bytes and words\<close>

lemma le32_length [simp]: "length (le32 w) = 4"
  by (simp add: le32_def)

lemma read_le32 [simp]: "read32 (le32 w) = w"
proof (rule bit_word_eqI)
  fix n assume n: "n < LENGTH(32)"
  consider "n < 8" | "8 \<le> n" "n < 16" | "16 \<le> n" "n < 24" | "24 \<le> n" by linarith
  then show "bit (read32 (le32 w)) n = bit w n"
    using n by cases (auto simp: read32_def le32_def bit_or_iff bit_push_bit_iff bit_ucast_iff bit_drop_bit_eq)
qed

lemma words_bytes_length [simp]: "length (words_bytes ws) = 4 * length ws"
  by (induction ws) (simp_all add: words_bytes_def)

lemma bytes_words_roundtrip [simp]: "bytes_words (words_bytes ws) = ws"
proof (induction ws)
  case (Cons w ws)
  have "bytes_words (le32 w @ bs) = read32 (le32 w) # bytes_words bs" for bs by (simp add: le32_def)
  with Cons show ?case by (simp add: words_bytes_def)
qed (simp add: words_bytes_def)

section \<open>The round trip\<close>

lemma get_put_same: "put_bytes buf off bs = Some buf' \<Longrightarrow> get_bytes buf' off (length bs) = Some bs"
  by (auto simp: put_bytes_def get_bytes_def split: if_splits)

lemma put_length: "put_bytes buf off bs = Some buf' \<Longrightarrow> length buf' = length buf"
  by (auto simp: put_bytes_def split: if_splits)

text \<open>What the code can encode: the numbers fit, and the arrays have the sizes they say.\<close>

definition matrix_t_ok :: "spcd_matrix_t \<Rightarrow> bool" where
  "matrix_t_ok d \<longleftrightarrow> 0 \<le> sm_num_threads d \<and> sm_num_threads d \<le> 2 ^ 15 \<and> 0 \<le> sm_max_threads d \<and> sm_max_threads d \<le> 2 ^ 15 \<and>
     length (sm_pids d) = nat (sm_num_threads d) \<and> length (sm_matrix d) = nat (sm_max_threads d) * nat (sm_max_threads d)"

definition gives_memory :: "(u64 \<Rightarrow> u8 list option) \<Rightarrow> bool" where
  "gives_memory alloc \<longleftrightarrow> (\<forall>n. \<exists>buf. alloc n = Some buf \<and> length buf = unat n)"

lemma unat_of_nat64: "n < 2 ^ 64 \<Longrightarrow> unat (of_nat n :: u64) = n"
  by (simp add: unat_of_nat)

lemma pids_size_eq: "pids_size (int n) = of_nat (4 * n)"
  by (simp add: pids_size_def)

lemma cells_size_eq: "cells_size (int n) = of_nat (4 * (n * n))"
  by (simp add: cells_size_def)

lemma sint_of_int32: "0 \<le> n \<Longrightarrow> n < 2 ^ 31 \<Longrightarrow> sint (word_of_int n :: u32) = n"
  using sint_small[of "word_of_int n :: u32"] by (simp add: uint_word_of_int_eq take_bit_int_eq_self)

text \<open>The block that the code writes.\<close>

definition encoding :: "spcd_matrix_t \<Rightarrow> u8 list" where
  "encoding d = le32 SPCD_MAGIC @ le32 (word_of_int (sm_num_threads d)) @ le32 (word_of_int (sm_max_threads d)) @
     replicate 16 0 @ words_bytes (sm_pids d) @ words_bytes (sm_matrix d)"

lemma put_append:
  assumes "length pre = off" "length old = length bs"
  shows "put_bytes (pre @ old @ post) off bs = Some (pre @ bs @ post)"
  using assms by (simp add: put_bytes_def)

lemma get_append:
  assumes "length pre = off" "length bs = n"
  shows "get_bytes (pre @ bs @ post) off n = Some bs"
  using assms by (simp add: get_bytes_def)

lemma put_all: "length buf = length bs \<Longrightarrow> put_bytes buf 0 bs = Some bs"
  by (simp add: put_bytes_def)

lemma matrix_t_sizes:
  assumes "matrix_t_ok d"
  obtains n m where "sm_num_threads d = int n" "sm_max_threads d = int m" "n \<le> 2 ^ 15" "m \<le> 2 ^ 15"
    "length (sm_pids d) = n" "length (sm_matrix d) = m * m"
    "unat (pids_size (int n)) = 4 * n" "unat (cells_size (int m)) = 4 * (m * m)"
    "4 + 24 + pids_size (int n) + cells_size (int m) = of_nat (28 + 4 * n + 4 * (m * m))"
    "unat (of_nat (28 + 4 * n + 4 * (m * m)) :: u64) = 28 + 4 * n + 4 * (m * m)"
proof -
  obtain n m where nm: "sm_num_threads d = int n" "sm_max_threads d = int m" "n \<le> 2 ^ 15" "m \<le> 2 ^ 15"
    "length (sm_pids d) = n" "length (sm_matrix d) = m * m"
    using assms unfolding matrix_t_ok_def by (metis nonneg_int_cases nat_int of_nat_le_numeral_power_cancel_iff)
  have mm: "m * m \<le> 2 ^ 30" using mult_le_mono[OF nm(4) nm(4)] by simp
  have total: "4 + 24 + pids_size (int n) + cells_size (int m) = of_nat (28 + 4 * n + 4 * (m * m))"
    by (simp add: pids_size_eq cells_size_eq)
  have sizes: "unat (pids_size (int n)) = 4 * n" "unat (cells_size (int m)) = 4 * (m * m)"
    "unat (of_nat (28 + 4 * n + 4 * (m * m)) :: u64) = 28 + 4 * n + 4 * (m * m)"
    unfolding pids_size_eq cells_size_eq by (intro unat_of_nat64; use nm(3) mm in simp)+
  show thesis by (rule that[OF nm sizes(1,2) total sizes(3)])
qed

lemma encode_ok:
  assumes d: "matrix_t_ok d" and a: "length addrs = 16" "gives_memory alloc"
  shows "spcd_matrix_encode alloc addrs d = Some (encoding d)"
proof -
  obtain n m where nm: "sm_num_threads d = int n" "sm_max_threads d = int m" "n \<le> 2 ^ 15" "m \<le> 2 ^ 15"
    "length (sm_pids d) = n" "length (sm_matrix d) = m * m"
    and sizes: "unat (pids_size (int n)) = 4 * n" "unat (cells_size (int m)) = 4 * (m * m)"
    and total: "4 + 24 + pids_size (int n) + cells_size (int m) = of_nat (28 + 4 * n + 4 * (m * m))"
    and whole: "unat (of_nat (28 + 4 * n + 4 * (m * m)) :: u64) = 28 + 4 * n + 4 * (m * m)"
    using d by (rule matrix_t_sizes)
  obtain buf where buf: "alloc (of_nat (28 + 4 * n + 4 * (m * m))) = Some buf" "length buf = 28 + 4 * n + 4 * (m * m)"
    using a(2) whole unfolding gives_memory_def by metis
  define b0 b1 b2 b3 where b: "b0 = take 4 buf" "b1 = take 24 (drop 4 buf)" "b2 = take (4 * n) (drop 28 buf)" "b3 = drop (28 + 4 * n) buf"
  have split: "buf = b0 @ b1 @ b2 @ b3"
    using append_take_drop_id[of 4 buf] append_take_drop_id[of 24 "drop 4 buf"] append_take_drop_id[of "4 * n" "drop 28 buf"]
    unfolding b by (simp add: add.commute)
  have len: "length b0 = 4" "length b1 = 24" "length b2 = 4 * n" "length b3 = 4 * (m * m)" using buf(2) by (simp_all add: b)
  obtain p1 p2 where p: "addrs = p1 @ p2" "length p1 = 8" "length p2 = 8"
    using that[of "take 8 addrs" "drop 8 addrs"] a(1) by simp
  let ?M = "le32 SPCD_MAGIC" and ?N = "le32 (word_of_int (int n))" and ?X = "le32 (word_of_int (int m))" and ?z = "replicate 8 (0 :: u8)"
  have 1: "put_bytes buf 0 ?M = Some (?M @ b1 @ b2 @ b3)"
    using put_append[of "[]" 0 b0 ?M "b1 @ b2 @ b3"] len unfolding split by simp
  have 2: "put_bytes (?M @ b1 @ b2 @ b3) 4 (?N @ ?X @ addrs) = Some (?M @ (?N @ ?X @ addrs) @ b2 @ b3)"
    using len a(1) by (intro put_append) simp_all
  have 3: "put_bytes (?M @ (?N @ ?X @ addrs) @ b2 @ b3) 12 ?z = Some (?M @ ?N @ ?X @ ?z @ p2 @ b2 @ b3)"
    using put_append[of "?M @ ?N @ ?X" 12 p1 ?z "p2 @ b2 @ b3"] p by simp
  have 4: "put_bytes (?M @ ?N @ ?X @ ?z @ p2 @ b2 @ b3) 20 ?z = Some (?M @ ?N @ ?X @ ?z @ ?z @ b2 @ b3)"
    using put_append[of "?M @ ?N @ ?X @ ?z" 20 p2 ?z "b2 @ b3"] p by simp
  have 5: "put_bytes (?M @ ?N @ ?X @ ?z @ ?z @ b2 @ b3) 28 (words_bytes (sm_pids d)) = Some (?M @ ?N @ ?X @ ?z @ ?z @ words_bytes (sm_pids d) @ b3)"
    using put_append[of "?M @ ?N @ ?X @ ?z @ ?z" 28 b2 "words_bytes (sm_pids d)" b3] len nm(5) by simp
  have 6: "put_bytes (?M @ ?N @ ?X @ ?z @ ?z @ words_bytes (sm_pids d) @ b3) (28 + 4 * n) (words_bytes (sm_matrix d)) =
      Some (?M @ ?N @ ?X @ ?z @ ?z @ words_bytes (sm_pids d) @ words_bytes (sm_matrix d))"
    using put_append[of "?M @ ?N @ ?X @ ?z @ ?z @ words_bytes (sm_pids d)" "28 + 4 * n" b3 "words_bytes (sm_matrix d)" "[]"] len nm(5,6) by simp
  have z: "replicate 16 (0 :: u8) = ?z @ ?z" by (simp only: replicate_add[symmetric]) simp
  have get: "get_bytes (words_bytes (sm_pids d)) 0 (4 * n) = Some (words_bytes (sm_pids d))"
    "get_bytes (words_bytes (sm_matrix d)) 0 (4 * (m * m)) = Some (words_bytes (sm_matrix d))"
    using nm(5,6) by (simp_all add: get_bytes_def)
  show ?thesis
    unfolding spcd_matrix_encode_def Let_def nm(1,2) total buf(1) sizes 1 2 3 4 5 6 get Option.bind.bind_lunit encoding_def z
    by simp
qed

lemma decode_ok:
  assumes d: "matrix_t_ok d" and a: "gives_memory alloc"
  shows "spcd_matrix_decode alloc junk (encoding d) = Some (spcd_matrix_t.truncate d)"
proof -
  obtain n m where nm: "sm_num_threads d = int n" "sm_max_threads d = int m" "n \<le> 2 ^ 15" "m \<le> 2 ^ 15"
    "length (sm_pids d) = n" "length (sm_matrix d) = m * m"
    and sizes: "unat (pids_size (int n)) = 4 * n" "unat (cells_size (int m)) = 4 * (m * m)"
    using d by (rule matrix_t_sizes)
  let ?M = "le32 SPCD_MAGIC" and ?N = "le32 (word_of_int (int n))" and ?X = "le32 (word_of_int (int m))" and ?z = "replicate 16 (0 :: u8)"
  let ?p = "words_bytes (sm_pids d)" and ?c = "words_bytes (sm_matrix d)"
  have enc: "encoding d = ?M @ ?N @ ?X @ ?z @ ?p @ ?c" by (simp add: encoding_def nm(1,2))
  obtain pb cb where mem: "alloc (pids_size (int n)) = Some pb" "length pb = length ?p" "alloc (cells_size (int m)) = Some cb" "length cb = length ?c"
    using a nm(5,6) sizes unfolding gives_memory_def by (metis words_bytes_length)
  have 1: "get_bytes (encoding d) 0 4 = Some ?M" using get_append[of "[]" 0 ?M 4] by (simp add: enc)
  have 2: "get_bytes (encoding d) 4 24 = Some (?N @ ?X @ ?z)" using get_append[of ?M 4 "?N @ ?X @ ?z" 24 "?p @ ?c"] by (simp add: enc)
  have 3: "get_bytes (encoding d) 28 (4 * n) = Some ?p" using get_append[of "?M @ ?N @ ?X @ ?z" 28 ?p "4 * n" ?c] nm(5) by (simp add: enc)
  have 4: "get_bytes (encoding d) (28 + 4 * n) (4 * (m * m)) = Some ?c"
    using get_append[of "?M @ ?N @ ?X @ ?z @ ?p" "28 + 4 * n" ?c "4 * (m * m)" "[]"] nm(5,6) by (simp add: enc)
  have words: "read32 (take 4 (?N @ ?X @ ?z)) = word_of_int (int n)" "read32 (take 4 (drop 4 (?N @ ?X @ ?z))) = word_of_int (int m)"
    by simp_all
  have ints: "sint (word_of_int (int n) :: u32) = int n" "sint (word_of_int (int m) :: u32) = int m"
    by (rule sint_of_int32; use nm(3,4) in simp)+
  have "spcd_matrix_decode alloc junk (encoding d) =
      Some \<lparr>sm_num_threads = int n, sm_max_threads = int m, sm_pids = bytes_words ?p, sm_matrix = bytes_words ?c\<rparr>"
    unfolding spcd_matrix_decode_def 1 2 Option.bind.bind_lunit read_le32 words Let_def ints mem sizes 3 4 put_all[OF mem(2)] put_all[OF mem(4)]
    by simp
  then show ?thesis using nm(1,2) by (simp add: spcd_matrix_t.truncate_def)
qed

lemma decode_bad_magic:
  assumes "4 \<le> length ptr" "read32 (take 4 ptr) \<noteq> SPCD_MAGIC"
  shows "spcd_matrix_decode alloc junk ptr = Some (junk\<lparr>sm_num_threads := -1\<rparr>)"
  using assms by (simp add: spcd_matrix_decode_def get_bytes_def)

section \<open>The small matrix\<close>

text \<open>A loop that appends to what is filled of an array.\<close>

definition filled :: "u32 list \<Rightarrow> u32 list \<Rightarrow> u32 list \<times> int" where
  "filled ws vs = (vs @ drop (length vs) ws, int (length vs))"

lemma fill_loop:
  assumes "\<And>x vs. x \<in> set xs \<Longrightarrow> length vs + length (g x) \<le> length ws \<Longrightarrow> f x (filled ws vs) = Some (filled ws (vs @ g x))"
    and "length vs + length (concat (map g xs)) \<le> length ws"
  shows "foldM f xs (filled ws vs) = Some (filled ws (vs @ concat (map g xs)))"
  using assms
proof (induction xs arbitrary: vs)
  case (Cons x xs)
  then have "f x (filled ws vs) = Some (filled ws (vs @ g x))" by simp
  moreover have "foldM f xs (filled ws (vs @ g x)) = Some (filled ws ((vs @ g x) @ concat (map g xs)))"
    using Cons.prems by (intro Cons.IH) simp_all
  ultimately show ?case by simp
qed simp

lemma small_matrix_ok:
  assumes d: "matrix_t_ok d" "sm_num_threads d \<le> sm_max_threads d" and a: "\<And>k. \<exists>ws. malloc k = Some ws \<and> length ws = k"
  shows "spcd_get_small_matrix malloc d = Some (concat (map (\<lambda>i. map (\<lambda>j.
    sm_matrix d ! (max i j * nat (sm_max_threads d) + min i j)) [0..<nat (sm_num_threads d)]) (rev [0..<nat (sm_num_threads d)])))"
proof -
  obtain n m where nm: "sm_num_threads d = int n" "sm_max_threads d = int m" "n \<le> 2 ^ 15" "m \<le> 2 ^ 15" "length (sm_matrix d) = m * m"
    using d(1) by (rule matrix_t_sizes)
  have le: "n \<le> m" using d(2) nm(1,2) by simp
  have mm: "m * m \<le> 2 ^ 30" using mult_le_mono[OF nm(4) nm(4)] by simp
  have nn: "n * n \<le> 2 ^ 30" using mult_le_mono[OF le le] mm by linarith
  define v where "v i j = sm_matrix d ! (max i j * m + min i j)" for i j
  define step where "step = (\<lambda>i j (ret, a). do {
         row \<leftarrow> cint (if i > j then int i * sm_max_threads d else int j * sm_max_threads d);
         k \<leftarrow> cint (row + (if i > j then int j else int i));
         v \<leftarrow> agetz (sm_matrix d) k;
         ret \<leftarrow> aputz ret a v;
         a \<leftarrow> cint (a + 1);
         Some (ret, a)
       })"
  have c: "cint (int x) = Some (int x)" if "x \<le> 2 ^ 30" for x
    using that by (simp add: cint_def in_int_def)
  have read: "do {
         row \<leftarrow> cint (if i > j then int i * sm_max_threads d else int j * sm_max_threads d);
         k \<leftarrow> cint (row + (if i > j then int j else int i));
         agetz (sm_matrix d) k
       } = Some (v i j)" if ij: "i < n" "j < n" for i j
  proof -
    have "Suc (max i j) * m \<le> m * m" using ij le by (intro mult_le_mono1) simp
    moreover have "min i j < m" using ij le by simp
    ultimately have idx: "max i j * m + min i j < length (sm_matrix d)" using nm(5) by simp
    have row: "(if i > j then int i * sm_max_threads d else int j * sm_max_threads d) = int (max i j * m)"
      "int (max i j * m) + (if i > j then int j else int i) = int (max i j * m + min i j)"
      by (simp_all add: nm(2) max_def min_def)
    have "max i j * m \<le> 2 ^ 30" "max i j * m + min i j \<le> 2 ^ 30" using idx nm(5) mm by simp_all
    note b = c[OF this(1)] c[OF this(2)]
    show ?thesis unfolding row(1) b(1) Option.bind.bind_lunit row(2) b(2) using idx by (simp only: agetz_int aget_Some v_def)
  qed
  obtain ws where ws: "malloc (n * n) = Some ws" "length ws = n * n" using a by blast
  have one: "step i j (filled ws vs) = Some (filled ws (vs @ [v i j]))" if ij: "i < n" "j < n" and k: "length vs < length ws" for i j vs
  proof -
    have "(vs @ drop (length vs) ws)[length vs := v i j] = (vs @ [v i j]) @ drop (Suc (length vs)) ws"
      using k by (simp add: list_update_append Cons_nth_drop_Suc[symmetric])
    moreover have "cint (int (length vs) + 1) = Some (int (length vs) + 1)" using c[of "Suc (length vs)"] k ws(2) nn by (simp add: add.commute)
    ultimately show ?thesis
      using read[OF ij] k by (auto simp: step_def filled_def bind_eq_Some_conv)
  qed
  have row: "foldM (step i) [0..<n] (filled ws vs) = Some (filled ws (vs @ map (v i) [0..<n]))"
    if "i < n" "length vs + n \<le> length ws" for i vs
    using fill_loop[of "[0..<n]" "\<lambda>j. [v i j]" ws "step i" vs] one that by (simp add: comp_def concat_map_singleton)
  have lens: "length (concat (map (\<lambda>i. map (v i) [0..<n]) xs)) = length xs * n" for xs by (induction xs) simp_all
  have all: "foldM (\<lambda>i. foldM (step i) [0..<n]) (rev [0..<n]) (filled ws []) =
      Some (filled ws ([] @ concat (map (\<lambda>i. map (v i) [0..<n]) (rev [0..<n]))))"
    by (rule fill_loop) (use row ws(2) lens in auto)
  have size: "unat (word_of_int (int n) * word_of_int (int n) :: u64) = n * n"
    using unat_of_nat64[of "n * n"] nn by simp
  have start: "(ws, 0) = filled ws []" by (simp add: filled_def)
  have "spcd_get_small_matrix malloc d = do {
      ret \<leftarrow> malloc (unat (word_of_int (int n) * word_of_int (int n) :: u64));
      (ret, a) \<leftarrow> foldM (\<lambda>i. foldM (step i) [0..<nat (int n)]) (rev [0..<nat (int n)]) (ret, 0);
      Some ret
    }"
    by (simp only: spcd_get_small_matrix_def Let_def step_def nm(1))
  then show ?thesis
    unfolding nm(1,2) nat_int size ws(1) Option.bind.bind_lunit start all
    using lens[of "rev [0..<n]"] ws(2) by (simp add: filled_def v_def[abs_def])
qed

section \<open>Printing\<close>

lemma print_ok:
  assumes d: "matrix_t_ok d" "sm_num_threads d \<le> sm_max_threads d" and a: "\<And>k. \<exists>ws. malloc k = Some ws \<and> length ws = k"
  shows "\<exists>out. spcd_matrix_print malloc (Some d) = Some out"
proof -
  obtain n m where nm: "sm_num_threads d = int n" "sm_max_threads d = int m" "n \<le> 2 ^ 15" "m \<le> 2 ^ 15" "length (sm_pids d) = n"
    using d(1) by (rule matrix_t_sizes)
  obtain small where small: "spcd_get_small_matrix malloc d = Some small" "length small = n * n"
  proof
    have "length (concat (map (\<lambda>i. map (g i) [0..<n]) xs)) = length xs * n" for g :: "nat \<Rightarrow> nat \<Rightarrow> u32" and xs by (induction xs) simp_all
    then show "length (the (spcd_get_small_matrix malloc d)) = n * n" by (simp add: small_matrix_ok[OF d a] nm(1))
  qed (simp add: small_matrix_ok[OF d a])
  have nn: "n * n \<le> 2 ^ 30" using mult_le_mono[OF nm(3) nm(3)] by simp
  have c: "cint (int x) = Some (int x)" if "x \<le> 2 ^ 30" for x
    using that by (simp add: cint_def in_int_def)
  have cell: "\<exists>v. do { x \<leftarrow> cint (int j * int n); k \<leftarrow> cint (x + int i); agetz small k } = Some v" if ij: "i < n" "j < n" for i j
  proof -
    have "Suc j * n \<le> n * n" using ij by (intro mult_le_mono1) simp
    then have lt: "j * n + i < n * n" using ij by simp
    then have b: "cint (int (j * n)) = Some (int (j * n))" "cint (int (j * n + i)) = Some (int (j * n + i))" by (intro c; use nn in linarith)+
    have eq: "int j * int n = int (j * n)" "int (j * n) + int i = int (j * n + i)" by simp_all
    show ?thesis unfolding eq(1) b(1) Option.bind.bind_lunit eq(2) b(2) using lt small(2) by (simp only: agetz_int aget_Some) blast
  qed
  define emit where "emit = (\<lambda>j i out. do {
      small \<leftarrow> spcd_get_small_matrix malloc d;
      x \<leftarrow> cint (int j * sm_num_threads d);
      k \<leftarrow> cint (x + int i);
      c \<leftarrow> agetz small k;
      Some (out @ show_int (sint c) @ (if int i \<noteq> sm_num_threads d - 1 then '','' else []))
    })"
  have emit: "wp (emit j i out) (\<lambda>_. True)" if "i < n" "j < n" for i j out
    using cell[OF that] by (auto simp: emit_def small(1) nm(1) bind_eq_Some_conv wp_iff)
  have row: "wp (foldM (emit j) [0..<n] out) (\<lambda>_. True)" if "j < n" for j out
    by (rule wp_foldM_all) (use emit that in auto)
  have "wp (foldM (\<lambda>j out. foldM (emit j) [0..<n] (out @ newline @ [CHR 0x09])) [0..<n] out) (\<lambda>_. True)" for out
    by (rule wp_foldM_all) (use row in auto)
  then have rows: "\<exists>r. foldM (\<lambda>j out. foldM (emit j) [0..<n] (out @ newline @ [CHR 0x09])) [0..<n] out = Some r" for out
    unfolding wp_iff by blast
  have "wp (foldM (\<lambda>i out. do {
      p \<leftarrow> aget (sm_pids d) i;
      Some (out @ show_int (sint p) @ (if int i \<noteq> sm_num_threads d - 1 then '','' else []))
    }) [0..<n] out) (\<lambda>_. True)" for out
    by (rule wp_foldM_all) (use nm(5) in auto)
  then obtain pids where pids: "foldM (\<lambda>i out. do {
      p \<leftarrow> aget (sm_pids d) i;
      Some (out @ show_int (sint p) @ (if int i \<noteq> sm_num_threads d - 1 then '','' else []))
    }) [0..<n] (''Threads: '' @ show_int (sm_num_threads d) @ newline @ ''Max Threads: '' @ show_int (sm_max_threads d) @ newline @ ''PIDs: '') = Some pids"
    unfolding wp_iff by blast
  have n: "nat (sm_num_threads d) = n" by (simp add: nm(1))
  have "spcd_matrix_print malloc (Some d) = do {
      out \<leftarrow> foldM (\<lambda>i out. do {
          p \<leftarrow> aget (sm_pids d) i;
          Some (out @ show_int (sint p) @ (if int i \<noteq> sm_num_threads d - 1 then '','' else []))
        }) [0..<n] (''Threads: '' @ show_int (sm_num_threads d) @ newline @ ''Max Threads: '' @ show_int (sm_max_threads d) @ newline @ ''PIDs: '');
      out \<leftarrow> foldM (\<lambda>j out. foldM (emit j) [0..<n] (out @ newline @ [CHR 0x09])) [0..<n] (out @ newline @ ''Matrix:'');
      Some (out @ newline)
    }"
    by (simp only: spcd_matrix_print_def option.case emit_def Let_def n)
  then show ?thesis
    unfolding pids Option.bind.bind_lunit using rows[of "pids @ newline @ ''Matrix:''"] by auto
qed

section \<open>Properties\<close>

text \<open>
  C19: the round trip of the exchange format. For a matrix struct whose arrays have the sizes it says, up to 32768
  threads, and while memory is there, the encoder writes one block of the size that \<open>spcd_matrix_size\<close> reports, and
  decoding the block gives back the struct, its pids and its cells.
\<close>
theorem encode_decode_roundtrip:
  assumes "matrix_t_ok d" "length addrs = 16" "gives_memory alloc"
  shows "\<exists>block. spcd_matrix_encode alloc addrs d = Some block \<and>
    spcd_matrix_decode alloc junk block = Some (spcd_matrix_t.truncate d) \<and>
    spcd_matrix_size alloc junk block = Some (of_nat (length block))"
proof -
  obtain n m where nm: "sm_num_threads d = int n" "sm_max_threads d = int m" "length (sm_pids d) = n" "length (sm_matrix d) = m * m"
    "4 + 24 + pids_size (int n) + cells_size (int m) = of_nat (28 + 4 * n + 4 * (m * m))"
    using assms(1) by (rule matrix_t_sizes)
  have "length (encoding d) = 28 + 4 * n + 4 * (m * m)" using nm(3,4) by (simp add: encoding_def)
  then have "spcd_matrix_size alloc junk (encoding d) = Some (of_nat (length (encoding d)))"
    using nm(1,2,5) decode_ok[OF assms(1,3), of junk] by (simp only: spcd_matrix_size_def) (simp add: spcd_matrix_t.truncate_def)
  then show ?thesis using encode_ok[OF assms] decode_ok[OF assms(1,3)] by blast
qed

definition demo_block :: "u64 \<Rightarrow> u8 list option" where
  "demo_block n = Some (replicate (unat n) 0xAA)"

definition demo_exchange :: spcd_matrix_t where
  "demo_exchange = \<lparr>sm_num_threads = 1, sm_max_threads = 2, sm_pids = [4711], sm_matrix = [0, 0, 7, 0]\<rparr>"

theorem encode_decode_roundtrip_witness:
  "\<exists>block. spcd_matrix_encode demo_block (replicate 16 1) demo_exchange = Some block \<and>
    spcd_matrix_decode demo_block demo_exchange block = Some demo_exchange"
  using encode_decode_roundtrip[of demo_exchange "replicate 16 1" demo_block demo_exchange]
  by (auto simp: matrix_t_ok_def gives_memory_def demo_block_def demo_exchange_def spcd_matrix_t.truncate_def)

text \<open>
  C26: the two exports agree. When the kernel encodes its matrix for at least two numbered threads, and a program
  decodes the block and asks for the small matrix, it reads the numbers that \<open>/proc/spcd/matrix\<close> prints, in the same
  order.
\<close>
theorem small_matrix_is_matrix_file:
  assumes m: "matrix_wf (max_threads_bits cfg) m" "matrix m = Some cells"
    and n: "spcd_get_num_threads pids = int n" "2 \<le> n" "int n \<le> dim_int (max_threads_bits cfg)" "length ps = n"
    and mem: "length addrs = 16" "gives_memory alloc" "\<forall>k. \<exists>ws. malloc k = Some ws \<and> length ws = k"
  shows "\<exists>block d ws text.
    spcd_matrix_encode alloc addrs \<lparr>sm_num_threads = spcd_get_num_threads pids, sm_max_threads = dim_int (max_threads_bits cfg),
      sm_pids = ps, sm_matrix = cells\<rparr> = Some block \<and>
    spcd_matrix_decode alloc junk block = Some d \<and> spcd_get_small_matrix malloc d = Some ws \<and>
    matrix_read cfg pids m = Some (0, text) \<and> map unat ws = concat (read_lines text)"
proof -
  let ?b = "nat (max_threads_bits cfg)"
  let ?d = "\<lparr>sm_num_threads = int n, sm_max_threads = dim_int (max_threads_bits cfg), sm_pids = ps, sm_matrix = cells\<rparr>"
  have bits: "?b \<le> 15" "length cells = 2 ^ ?b * 2 ^ ?b" using m by (auto simp: matrix_wf_def)
  have dim: "nat (dim_int (max_threads_bits cfg)) = 2 ^ ?b" by (simp add: dim_int_def nat_power_eq)
  have pow: "(2 :: int) ^ ?b \<le> 2 ^ 15" by (rule power_increasing[OF bits(1)]) simp
  have "0 \<le> dim_int (max_threads_bits cfg)" "dim_int (max_threads_bits cfg) \<le> 2 ^ 15" using pow by (simp_all add: dim_int_def)
  then have d: "matrix_t_ok ?d" using n bits(2) unfolding matrix_t_ok_def dim by (simp add: dim)
  have le: "sm_num_threads ?d \<le> sm_max_threads ?d" using n(3) by simp
  have malloc: "\<exists>ws. malloc k = Some ws \<and> length ws = k" for k using mem(3) by blast
  let ?ws = "concat (map (\<lambda>i. map (\<lambda>j. cells ! (max i j * 2 ^ ?b + min i j)) [0..<n]) (rev [0..<n]))"
  have small: "spcd_get_small_matrix malloc ?d = Some ?ws" using small_matrix_ok[OF d le malloc] dim by simp
  have count: "pair_count cfg m (int i) (int j) = cells ! (max i j * 2 ^ ?b + min i j)" if "i < n" "j < n" for i j
    using that n(3) m get_comm_eq[OF m(1), of "int i" "int j"] by (simp add: pair_count_def cell_def)
  have "read_lines (csv_lines (map (map show_nat) (matrix_rows c n))) = matrix_rows c n" for c
    using n(2) by (intro read_csv_lines) (auto simp: matrix_rows_def)
  with matrix_read_text[OF m(1) _ n(2,3), of pids] n(1)
  obtain out where out: "matrix_read cfg pids m = Some (0, out)" "read_lines out = matrix_rows (\<lambda>i j. pair_count cfg m (int i) (int j)) n"
    by (auto simp: spcd_get_num_threads_def)
  have "map unat ?ws = concat (read_lines out)"
    unfolding out(2) matrix_rows_def map_concat map_map comp_def
    by (intro arg_cong[of _ _ concat] map_cong refl) (use count in auto)
  then show ?thesis
    using encode_ok[OF d mem(1,2)] decode_ok[OF d mem(2), of junk] small out(1) n(1)
    by (intro exI[of _ "encoding ?d"] exI[of _ ?d] exI[of _ ?ws] exI[of _ out]) (simp add: spcd_matrix_t.truncate_def)
qed

theorem small_matrix_is_matrix_file_witness:
  "\<exists>block d ws text.
    spcd_matrix_encode demo_block (replicate 16 1) \<lparr>sm_num_threads = spcd_get_num_threads three_threads, sm_max_threads = dim_int 2,
      sm_pids = [1, 2, 3], sm_matrix = replicate 16 0\<rparr> = Some block \<and>
    spcd_matrix_decode demo_block demo_exchange block = Some d \<and> spcd_get_small_matrix (\<lambda>k. Some (replicate k 5)) d = Some ws \<and>
    matrix_read small_cfg three_threads small_matrix = Some (0, text) \<and> map unat ws = concat (read_lines text)"
proof -
  have m: "matrix_wf (max_threads_bits small_cfg) small_matrix" "matrix small_matrix = Some (replicate 16 0)"
    by (simp_all add: matrix_wf_def small_matrix_def)
  have n: "spcd_get_num_threads three_threads = int 3" "2 \<le> (3 :: nat)" "int 3 \<le> dim_int (max_threads_bits small_cfg)" "length [1, 2, 3 :: u32] = 3"
    by (simp_all add: three_threads_def spcd_get_num_threads_def dim_int_def)
  have mem: "length (replicate 16 (1 :: u8)) = 16" "gives_memory demo_block" "\<forall>k. \<exists>ws. Some (replicate k (5 :: u32)) = Some ws \<and> length ws = k"
    by (simp_all add: gives_memory_def demo_block_def)
  have two: "max_threads_bits small_cfg = 2" by simp
  from small_matrix_is_matrix_file[OF m n mem] show ?thesis unfolding two .
qed

end
