(* ===== verification/Cdsm_Conc.thy ===== *)
theory Cdsm_Conc
  imports Cdsm_Prelude
begin

text \<open>
  Code that runs on several processors at once. A process is what is left to do of a function, cut at its accesses to
  shared memory: a step makes one access and gives the rest, which may depend on the value read. \<open>run\<close> runs a process
  alone, \<open>conc\<close> is one step of several processes in any order, and \<open>schedule\<close> is \<open>conc\<close> with the order given.

  \<open>rg n I R p s\<close> says that \<open>p\<close>, when it last saw the state \<open>s\<close>, makes at most \<open>n\<close> more steps, all of them defined, that
  keep the invariant \<open>I\<close> and change the state only as the relation \<open>R\<close> allows, provided that the others change it only
  so too. The locale \<open>interference\<close> proves the rule for parallel composition.
\<close>

section \<open>Processes\<close>

datatype 's proc = Finished | Step "'s \<Rightarrow> ('s \<times> 's proc) option"

definition rd :: "('s \<Rightarrow> 'a option) \<Rightarrow> ('a \<Rightarrow> 's proc) \<Rightarrow> 's proc" where
  "rd f k = Step (\<lambda>s. map_option (\<lambda>v. (s, k v)) (f s))"

definition wr :: "('s \<Rightarrow> 's option) \<Rightarrow> 's proc \<Rightarrow> 's proc" where
  "wr f p = Step (\<lambda>s. map_option (\<lambda>s'. (s', p)) (f s))"

text \<open>An atomic operation that returns a value.\<close>

definition rmw :: "('s \<Rightarrow> 'a \<times> 's) \<Rightarrow> ('a \<Rightarrow> 's proc) \<Rightarrow> 's proc" where
  "rmw f k = Step (\<lambda>s. case f s of (v, s') \<Rightarrow> Some (s', k v))"

text \<open>The access that C does not define.\<close>

definition undefined_step :: "'s proc" where
  "undefined_step = Step (\<lambda>s. None)"

primrec run :: "'s proc \<Rightarrow> 's \<Rightarrow> 's option" where
  "run Finished = Some"
| "run (Step f) = (\<lambda>s. map_option (map_prod id run) (f s) \<bind> (\<lambda>(s', r). r s'))"

lemma run_rd [simp]: "run (rd f k) s = f s \<bind> (\<lambda>v. run (k v) s)"
  by (cases "f s") (simp_all add: rd_def)

lemma run_wr [simp]: "run (wr f p) s = f s \<bind> run p"
  by (cases "f s") (simp_all add: wr_def)

lemma run_rmw [simp]: "run (rmw f k) s = (case f s of (v, s') \<Rightarrow> run (k v) s')"
  by (simp add: rmw_def split: prod.split)

lemma run_undefined [simp]: "run undefined_step s = None"
  by (simp add: undefined_step_def)

section \<open>Several processes\<close>

type_synonym 's system = "'s \<times> 's proc list"

inductive conc :: "'s system \<Rightarrow> 's system \<Rightarrow> bool" where
  step: "i < length ps \<Longrightarrow> ps ! i = Step f \<Longrightarrow> f s = Some (s', p) \<Longrightarrow> conc (s, ps) (s', ps[i := p])"

inductive_cases concE: "conc (s, ps) c"

definition crashes :: "'s system \<Rightarrow> bool" where
  "crashes c \<longleftrightarrow> (\<exists>i < length (snd c). \<exists>f. snd c ! i = Step f \<and> f (fst c) = None)"

definition all_finished :: "'s system \<Rightarrow> bool" where
  "all_finished c \<longleftrightarrow> (\<forall>p \<in> set (snd c). p = Finished)"

fun schedule :: "nat list \<Rightarrow> 's system \<Rightarrow> 's system option" where
  "schedule [] c = Some c"
| "schedule (i # is) (s, ps) = aget ps i \<bind> (\<lambda>p. case p of Finished \<Rightarrow> None
     | Step f \<Rightarrow> f s \<bind> (\<lambda>(s', q). schedule is (s', ps[i := q])))"

lemma schedule_conc: "schedule is c = Some c' \<Longrightarrow> conc\<^sup>*\<^sup>* c c'"
proof (induction "is" c rule: schedule.induct)
  case (2 i "is" s ps)
  from 2(2) obtain f s' q where s: "i < length ps" "ps ! i = Step f" "f s = Some (s', q)"
      "schedule is (s', ps[i := q]) = Some c'"
    by (auto simp: bind_eq_Some_conv aget_eq_Some_iff split: proc.splits)
  have "conc\<^sup>*\<^sup>* (s', ps[i := q]) c'"
    using 2(1)[of "Step f" f "(s', q)" s' q] s by simp
  with conc.step[of i ps f s s' q, OF s(1-3)] show ?case by (rule converse_rtranclp_into_rtranclp)
qed simp

lemma conc_length: "conc c c' \<Longrightarrow> length (snd c') = length (snd c)"
  by (induction rule: conc.induct) simp

text \<open>A system that has not finished makes a step or crashes.\<close>

lemma conc_progress: "all_finished c \<or> crashes c \<or> (\<exists>c'. conc c c')"
proof (cases "all_finished c")
  case False
  then obtain i where i: "i < length (snd c)" "snd c ! i \<noteq> Finished"
    by (auto simp: all_finished_def in_set_conv_nth)
  then obtain f where f: "snd c ! i = Step f" by (cases "snd c ! i") auto
  show ?thesis
  proof (cases "f (fst c)")
    case None
    with i(1) f show ?thesis by (auto simp: crashes_def)
  next
    case (Some r)
    with i(1) f conc.step[of i "snd c" f "fst c" "fst r" "snd r"] show ?thesis by (metis prod.collapse)
  qed
qed simp

section \<open>Two processes\<close>

text \<open>The rules that run a schedule of two processes.\<close>

named_theorems two

lemma schedule_rd [two]:
  "schedule (0 # is) (s, [rd f k, q]) = f s \<bind> (\<lambda>v. schedule is (s, [k v, q]))"
  "schedule (Suc 0 # is) (s, [q, rd f k]) = f s \<bind> (\<lambda>v. schedule is (s, [q, k v]))"
  by (cases "f s"; simp add: rd_def)+

lemma schedule_wr [two]:
  "schedule (0 # is) (s, [wr f p, q]) = f s \<bind> (\<lambda>s'. schedule is (s', [p, q]))"
  "schedule (Suc 0 # is) (s, [q, wr f p]) = f s \<bind> (\<lambda>s'. schedule is (s', [q, p]))"
  by (cases "f s"; simp add: wr_def)+

lemma schedule_rmw [two]:
  "schedule (0 # is) (s, [rmw f k, q]) = (case f s of (v, s') \<Rightarrow> schedule is (s', [k v, q]))"
  "schedule (Suc 0 # is) (s, [q, rmw f k]) = (case f s of (v, s') \<Rightarrow> schedule is (s', [q, k v]))"
  by (simp_all add: rmw_def split: prod.split)

lemma crashes_rd: "f s = None \<Longrightarrow> crashes (s, [rd f k, q])"
  by (auto simp: crashes_def rd_def intro!: exI[of _ 0])

section \<open>Steps with a budget\<close>

text \<open>
  \<open>spends n \<mu> p c\<close> says that \<open>p\<close> makes at most \<open>n\<close> steps and together they increase \<open>\<mu>\<close> by at most \<open>c\<close>, whatever the
  others do in between.
\<close>

primrec spends :: "nat \<Rightarrow> ('s \<Rightarrow> int) \<Rightarrow> 's proc \<Rightarrow> int \<Rightarrow> bool" where
  "spends 0 \<mu> p c \<longleftrightarrow> p = Finished \<and> 0 \<le> c"
| "spends (Suc n) \<mu> p c \<longleftrightarrow> 0 \<le> c \<and> (case p of Finished \<Rightarrow> True
     | Step f \<Rightarrow> \<forall>s t q. f s = Some (t, q) \<longrightarrow> (\<exists>d. \<mu> t + d \<le> \<mu> s + c \<and> spends n \<mu> q d))"

lemma spends_nonneg: "spends n \<mu> p c \<Longrightarrow> 0 \<le> c"
  by (cases n) simp_all

lemma spends_Finished [simp]: "spends n \<mu> Finished c \<longleftrightarrow> 0 \<le> c"
  by (cases n) simp_all

lemma spends_rd: "0 \<le> c \<Longrightarrow> (\<And>v. spends n \<mu> (k v) c) \<Longrightarrow> spends (Suc n) \<mu> (rd f k) c"
  by (auto simp: rd_def)

lemma spends_wr:
  assumes "spends n \<mu> p c" "\<And>s t. f s = Some t \<Longrightarrow> \<mu> t \<le> \<mu> s"
  shows "spends (Suc n) \<mu> (wr f p) c"
proof -
  have "\<mu> t + c \<le> \<mu> s + c" if "f s = Some t" for s t using assms(2)[OF that] by simp
  then show ?thesis using assms(1) spends_nonneg[OF assms(1)] by (auto simp: wr_def intro!: exI[of _ c])
qed

lemma spends_rmw:
  assumes "\<And>v. spends n \<mu> (k v) c" "\<And>s. \<mu> (snd (f s)) \<le> \<mu> s + d" "0 \<le> d"
  shows "spends (Suc n) \<mu> (rmw f k) (c + d)"
proof -
  have "\<mu> t + c \<le> \<mu> s + (c + d)" if "f s = (v, t)" for s t v using assms(2)[of s] that by simp
  moreover have "0 \<le> c" using assms(1) by (rule spends_nonneg)
  ultimately show ?thesis using assms(1,3) by (auto simp: rmw_def split: prod.splits intro!: exI[of _ c])
qed

lemma sum_list_change: "i < length ds \<Longrightarrow> sum_list (ds[i := x]) = sum_list ds - ds ! i + (x :: int)"
  by (induction ds arbitrary: i) (auto split: nat.splits)

lemma spends_conc:
  assumes "conc\<^sup>*\<^sup>* c c'" "list_all2 (spends n \<mu>) (snd c) cs"
  shows "\<exists>ds. \<mu> (fst c') + sum_list ds \<le> \<mu> (fst c) + sum_list cs \<and> list_all2 (\<lambda>p d. \<exists>n. spends n \<mu> p d) (snd c') ds"
  using assms(1)
proof (induction rule: rtranclp_induct)
  case base
  show ?case using list_all2_mono[OF assms(2), of "\<lambda>p d. \<exists>n. spends n \<mu> p d"] by blast
next
  case (step d e)
  then obtain ds where ds: "\<mu> (fst d) + sum_list ds \<le> \<mu> (fst c) + sum_list cs" "list_all2 (\<lambda>p d. \<exists>n. spends n \<mu> p d) (snd d) ds" by blast
  from step(2) show ?case
  proof cases
    case (step i ps f s s' p)
    have len: "length ds = length ps" using ds(2) step(1) by (auto dest: list_all2_lengthD)
    obtain n where "spends n \<mu> (Step f) (ds ! i)" using ds(2) step len by (auto simp: list_all2_conv_all_nth)
    then obtain x m where x: "\<mu> s' + x \<le> \<mu> s + ds ! i" "spends m \<mu> p x" using step(5) by (cases n; simp) blast
    have "list_all2 (\<lambda>p d. \<exists>n. spends n \<mu> p d) (snd e) (ds[i := x])"
      using ds(2) step x(2) by (auto simp: list_all2_conv_all_nth nth_list_update)
    moreover have "sum_list (ds[i := x]) = sum_list ds - ds ! i + x"
      using len step(3) by (simp add: sum_list_change)
    ultimately show ?thesis using x(1) ds(1) step by (intro exI[of _ "ds[i := x]"]) simp
  qed
qed

text \<open>All processes together.\<close>

lemma spends_bound:
  assumes "conc\<^sup>*\<^sup>* (s, ps) c" "\<forall>p \<in> set ps. spends n \<mu> p b"
  shows "\<mu> (fst c) \<le> \<mu> s + int (length ps) * b"
proof -
  have "list_all2 (spends n \<mu>) ps (replicate (length ps) b)" using assms(2) by (simp add: list_all2_conv_all_nth)
  then obtain ds where ds: "\<mu> (fst c) + sum_list ds \<le> \<mu> s + int (length ps) * b" "list_all2 (\<lambda>p d. \<exists>n. spends n \<mu> p d) (snd c) ds"
    using spends_conc[OF assms(1)] by (fastforce simp: sum_list_replicate)
  then have "\<forall>d \<in> set ds. 0 \<le> d" by (fastforce simp: list_all2_conv_all_nth in_set_conv_nth dest: spends_nonneg)
  then show ?thesis using ds(1) sum_list_nonneg[of ds] by auto
qed

section \<open>Steps under interference\<close>

primrec rg :: "nat \<Rightarrow> ('s \<Rightarrow> bool) \<Rightarrow> ('s \<Rightarrow> 's \<Rightarrow> bool) \<Rightarrow> 's proc \<Rightarrow> 's \<Rightarrow> bool" where
  "rg 0 I R p s \<longleftrightarrow> p = Finished"
| "rg (Suc n) I R p s \<longleftrightarrow> (case p of Finished \<Rightarrow> True
     | Step f \<Rightarrow> \<forall>s'. R s s' \<longrightarrow> I s' \<longrightarrow> wp (f s') (\<lambda>(t, q). R s' t \<and> I t \<and> rg n I R q t))"

lemma rg_Finished [simp]: "rg n I R Finished s"
  by (cases n) simp_all

lemma rg_mono: "rg n I R p s \<Longrightarrow> n \<le> m \<Longrightarrow> rg m I R p s"
proof (induction n arbitrary: m p s)
  case (Suc n)
  then obtain k where m: "m = Suc k" "n \<le> k" by (cases m) auto
  with Suc show ?case by (auto split: proc.splits elim!: wp_mono)
qed simp

definition all_rg :: "('s \<Rightarrow> bool) \<Rightarrow> ('s \<Rightarrow> 's \<Rightarrow> bool) \<Rightarrow> nat list \<Rightarrow> 's system \<Rightarrow> bool" where
  "all_rg I R ns c \<longleftrightarrow>
     length ns = length (snd c) \<and> I (fst c) \<and> (\<forall>i < length ns. rg (ns ! i) I R (snd c ! i) (fst c))"

locale interference =
  fixes I :: "'s \<Rightarrow> bool" and R :: "'s \<Rightarrow> 's \<Rightarrow> bool"
  assumes R_refl: "R s s"
    and R_trans: "R s t \<Longrightarrow> R t u \<Longrightarrow> R s u"
begin

lemma rg_stable: "rg n I R p s \<Longrightarrow> R s t \<Longrightarrow> rg n I R p t"
  by (cases n) (auto split: proc.splits intro: R_trans)

lemma rg_rd:
  assumes "\<And>t. R s t \<Longrightarrow> I t \<Longrightarrow> wp (f t) (\<lambda>v. rg n I R (k v) t)"
  shows "rg (Suc n) I R (rd f k) s"
  using assms R_refl by (auto simp: rd_def elim!: wp_mono)

lemma rg_wr:
  assumes "\<And>t. R s t \<Longrightarrow> I t \<Longrightarrow> wp (f t) (\<lambda>u. R t u \<and> I u \<and> rg n I R p u)"
  shows "rg (Suc n) I R (wr f p) s"
  using assms by (auto simp: wr_def elim!: wp_mono)

lemma all_rg_no_crash: "all_rg I R ns c \<Longrightarrow> \<not> crashes c"
proof
  assume ok: "all_rg I R ns c" and "crashes c"
  then obtain i f where i: "i < length ns" "snd c ! i = Step f" "f (fst c) = None" by (auto simp: crashes_def all_rg_def)
  then have "rg (ns ! i) I R (Step f) (fst c)" "I (fst c)" using ok by (auto simp: all_rg_def)
  with i(3) R_refl[of "fst c"] show False by (cases "ns ! i") auto
qed

lemma all_rg_step:
  assumes ok: "all_rg I R ns c" and step: "conc c c'"
  shows "\<exists>ns'. all_rg I R ns' c' \<and> sum_list ns = Suc (sum_list ns') \<and> R (fst c) (fst c')"
  using step
proof cases
  case (step i ps f s s' p)
  have i: "i < length ns" and "rg (ns ! i) I R (Step f) s" "I s" using ok step by (auto simp: all_rg_def)
  then obtain n where n: "ns ! i = Suc n" "R s s'" "I s'" "rg n I R p s'"
    using step(5) R_refl[of s] by (cases "ns ! i") auto
  have "all_rg I R (ns[i := n]) c'"
    using ok step n by (auto simp: all_rg_def nth_list_update intro: rg_stable)
  moreover have "sum_list ns = Suc (sum_list (ns[i := n]))"
    using n(1) i elem_le_sum_list[OF i] by (simp add: sum_list_update)
  ultimately show ?thesis using step n(2) by auto
qed

text \<open>
  After any number of steps in any order: the number of steps is bounded, the invariant holds, no process crashes, and
  the change is one that the relation allows.
\<close>

lemma parallel:
  assumes "all_rg I R ns c" "(conc ^^ k) c c'"
  shows "k \<le> sum_list ns \<and> I (fst c') \<and> R (fst c) (fst c') \<and> \<not> crashes c'"
proof -
  have "\<exists>ns'. all_rg I R ns' c' \<and> sum_list ns = k + sum_list ns' \<and> R (fst c) (fst c')"
    using assms(2)
  proof (induction k arbitrary: c')
    case 0
    then show ?case using assms(1) R_refl by auto
  next
    case (Suc k)
    then obtain d where d: "(conc ^^ k) c d" "conc d c'" by auto
    from Suc.IH[OF d(1)] obtain ns' where ns': "all_rg I R ns' d" "sum_list ns = k + sum_list ns'" "R (fst c) (fst d)" by blast
    from all_rg_step[OF ns'(1) d(2)] ns'(2,3) show ?case by (auto intro: R_trans)
  qed
  then obtain ns' where ns': "all_rg I R ns' c'" "sum_list ns = k + sum_list ns'" "R (fst c) (fst c')" by blast
  with all_rg_no_crash[OF ns'(1)] show ?thesis by (simp add: all_rg_def)
qed

lemma parallel_ends:
  assumes "all_rg I R ns c"
  shows "\<exists>c'. conc\<^sup>*\<^sup>* c c' \<and> all_finished c'"
  using assms
proof (induction "sum_list ns" arbitrary: ns c rule: less_induct)
  case less
  show ?case
  proof (cases "all_finished c")
    case False
    then obtain d where d: "conc c d" using conc_progress[of c] all_rg_no_crash[OF less(2)] by auto
    from all_rg_step[OF less(2) d] obtain ns' where "all_rg I R ns' d" "sum_list ns' < sum_list ns" by auto
    from less(1)[OF this(2,1)] d show ?thesis by (meson converse_rtranclp_into_rtranclp)
  qed blast
qed

end

end
