(* ===== verification/Cdsm_Race.thy ===== *)
theory Cdsm_Race
  imports Cdsm_Conc Cdsm_Comm
begin

text \<open>
  Page faults on several processors at once. The probe runs \<open>spcd_check_comm\<close> (\<open>src/comm.c\<close>) on the processor of the
  faulting thread, and nothing orders the calls: the code takes no lock. Here the function is a process that makes
  every access to the table and the matrix a step of its own, in the order of the source: \<open>spcd_get_mem_init\<close> of
  \<open>src/mem.c\<close>, \<open>get_num_sharers\<close> and the \<open>switch\<close> of \<open>src/comm.c\<close>, and \<open>inc_comm\<close> of \<open>src/spcd.h\<close>, whose \<open>++\<close> is a load
  and a store. The time stamp that \<open>inc_comm\<close> ignores is not read. \<open>proc_alone\<close> says that a process that is not
  interrupted is the function \<open>spcd_check_comm\<close>.

  What holds in every order is proved by steps under interference: as long as the blocks have their elements, which
  blocks of one element cannot at once, no access leaves the table or the matrix. What does not hold are the
  theorems with a schedule.
\<close>

section \<open>The code\<close>

type_synonym shared = "mem_state \<times> spcd_comm_matrix"

definition rd_elem :: "nat \<Rightarrow> (spcd_mem_info \<Rightarrow> 'a) \<Rightarrow> ('a \<Rightarrow> shared proc) \<Rightarrow> shared proc" where
  "rd_elem i sel = rd (\<lambda>(ms, m). do { t \<leftarrow> mem ms; e \<leftarrow> aget t i; Some (sel e) })"

definition wr_elem :: "nat \<Rightarrow> (spcd_mem_info \<Rightarrow> spcd_mem_info) \<Rightarrow> shared proc \<Rightarrow> shared proc" where
  "wr_elem i f = wr (\<lambda>(ms, m). do {
     t \<leftarrow> mem ms;
     e \<leftarrow> aget t i;
     t \<leftarrow> aput t i (f e);
     Some (ms\<lparr>mem := Some t\<rparr>, m)
   })"

text \<open>\<open>spcd_addr_conflict++\<close> and the \<open>++\<close> of a cell.\<close>

definition count_conflict :: "shared proc \<Rightarrow> shared proc" where
  "count_conflict p = rd (\<lambda>(ms, m). Some (spcd_addr_conflict ms))
     (\<lambda>c. wr (\<lambda>(ms, m). Some (ms\<lparr>spcd_addr_conflict := c + 1\<rparr>, m)) p)"

definition rd_cell :: "int \<Rightarrow> (u32 \<Rightarrow> shared proc) \<Rightarrow> shared proc" where
  "rd_cell k = rd (\<lambda>(ms, m). do { a \<leftarrow> matrix m; agetz a k })"

definition wr_cell :: "int \<Rightarrow> u32 \<Rightarrow> shared proc \<Rightarrow> shared proc" where
  "wr_cell k v = wr (\<lambda>(ms, m). do { a \<leftarrow> matrix m; a \<leftarrow> aputz a k v; Some (ms, m\<lparr>matrix := Some a\<rparr>) })"

definition inc_comm_proc :: "int \<Rightarrow> int \<Rightarrow> int \<Rightarrow> shared proc \<Rightarrow> shared proc" where
  "inc_comm_proc bits first second p =
     (case (if first > second then mat_index bits first second else mat_index bits second first) of
        None \<Rightarrow> undefined_step
      | Some k \<Rightarrow> rd_cell k (\<lambda>v. wr_cell k (v + 1) p))"

definition get_mem_init_proc :: "hash_fun \<Rightarrow> config \<Rightarrow> u64 \<Rightarrow> (nat \<Rightarrow> shared proc) \<Rightarrow> shared proc" where
  "get_mem_init_proc hash cfg address cont = (case addr_to_page cfg address of
       None \<Rightarrow> undefined_step
     | Some page \<Rightarrow> let i = mem_slot hash cfg page in
         rd_elem i pg_addr (\<lambda>a.
           if a \<noteq> page then rd_elem i pg_addr (\<lambda>a.
             (if a \<noteq> 0 then count_conflict else id)
               (wr_elem i (sharer_0_update (\<lambda>_. -1)) (wr_elem i (sharer_1_update (\<lambda>_. -1))
                 (wr_elem i (pg_addr_update (\<lambda>_. page)) (cont i)))))
           else cont i))"

definition get_num_sharers_proc :: "nat \<Rightarrow> (nat \<Rightarrow> shared proc) \<Rightarrow> shared proc" where
  "get_num_sharers_proc i cont = (
     let rest = rd_elem i sharer_0 (\<lambda>a. if sint a \<noteq> -1
           then rd_elem i sharer_1 (\<lambda>b. if sint b \<noteq> -1 then cont 2 else cont 1) else cont 1)
     in rd_elem i sharer_0 (\<lambda>a. if sint a = -1
          then rd_elem i sharer_1 (\<lambda>b. if sint b = -1 then cont 0 else rest) else rest))"

text \<open>\<open>elem->sharer[1] = elem->sharer[0]; elem->sharer[0] = tid;\<close>\<close>

definition shift_proc :: "nat \<Rightarrow> int \<Rightarrow> shared proc \<Rightarrow> shared proc" where
  "shift_proc i tid p = rd_elem i sharer_0 (\<lambda>a. wr_elem i (sharer_1_update (\<lambda>_. a))
     (wr_elem i (sharer_0_update (\<lambda>_. word_of_int tid)) p))"

definition inc_sharer_proc :: "config \<Rightarrow> nat \<Rightarrow> int \<Rightarrow> (spcd_mem_info \<Rightarrow> u16) \<Rightarrow> shared proc \<Rightarrow> shared proc" where
  "inc_sharer_proc cfg i tid sel p = rd_elem i sel (\<lambda>a. inc_comm_proc (max_threads_bits cfg) tid (sint a) p)"

definition sharers_proc :: "config \<Rightarrow> nat \<Rightarrow> int \<Rightarrow> nat \<Rightarrow> shared proc \<Rightarrow> shared proc" where
  "sharers_proc cfg i tid sh p = (let inc = inc_sharer_proc cfg i tid in
     if sh = 0 then wr_elem i (sharer_0_update (\<lambda>_. word_of_int tid)) p
     else if sh = 1 then rd_elem i sharer_0 (\<lambda>a. if sint a \<noteq> tid then inc sharer_0 (shift_proc i tid p) else p)
     else
       let rest = rd_elem i sharer_0 (\<lambda>a. if sint a = tid then inc sharer_1 p
             else rd_elem i sharer_1 (\<lambda>b. if sint b = tid then inc sharer_0 (shift_proc i tid p) else p))
       in rd_elem i sharer_0 (\<lambda>a. if sint a \<noteq> tid
            then rd_elem i sharer_1 (\<lambda>b. if sint b \<noteq> tid
              then inc sharer_0 (inc sharer_1 (shift_proc i tid p)) else rest)
            else rest))"

definition check_comm_proc :: "hash_fun \<Rightarrow> config \<Rightarrow> access \<Rightarrow> shared proc" where
  "check_comm_proc hash cfg a = (case a of (tid, cycles, address) \<Rightarrow>
     get_mem_init_proc hash cfg address (\<lambda>i. get_num_sharers_proc i (\<lambda>sh.
       sharers_proc cfg i tid sh (wr_elem i (mi_tsc_update (\<lambda>_. ucast (ucast cycles :: u32))) Finished))))"

section \<open>A process alone is the function\<close>

lemma run_rd_elem [simp]: "run (rd_elem i sel k) (ms, m) = mem ms \<bind> (\<lambda>t. aget t i \<bind> (\<lambda>e. run (k (sel e)) (ms, m)))"
  by (simp add: rd_elem_def)

lemma run_wr_elem [simp]: "run (wr_elem i f p) (ms, m) =
    mem ms \<bind> (\<lambda>t. aget t i \<bind> (\<lambda>e. run p (ms\<lparr>mem := Some (t[i := f e])\<rparr>, m)))"
  by (cases "mem ms") (auto simp: wr_elem_def aget_def)

lemma inc_comm_stamps: "inc_comm bits first second old new = inc_comm bits first second 0 0"
  by (simp add: inc_comm_def fun_eq_iff)

lemma run_inc_comm_proc [simp]:
  "run (inc_comm_proc bits first second p) (ms, m) = inc_comm bits first second 0 0 m \<bind> (\<lambda>m'. run p (ms, m'))"
  by (auto simp: inc_comm_proc_def inc_comm_def rd_cell_def wr_cell_def split: option.splits bind_splits)

lemma run_get_num_sharers:
  assumes "mem ms = Some t" "i < length t"
  shows "run (get_num_sharers_proc i k) (ms, m) = run (k (get_num_sharers (t ! i))) (ms, m)"
  using assms by (simp add: get_num_sharers_proc_def get_num_sharers_def Let_def)

lemma run_sharers:
  assumes "mem ms = Some t" "i < length t"
  shows "run (sharers_proc cfg i tid (get_num_sharers (t ! i)) p) (ms, m) =
    check_sharers cfg tid ts (t ! i) m \<bind> (\<lambda>(e, m'). run p (ms\<lparr>mem := Some (t[i := e])\<rparr>, m'))"
proof -
  have same: "ms\<lparr>mem := Some t\<rparr> = ms" using assms(1) by (cases ms) simp
  show ?thesis
    using assms
    by (auto simp: same sharers_proc_def check_sharers_def inc_sharer_proc_def shift_proc_def Let_def get_num_sharers_def
        inc_comm_stamps[where old = "ucast (mi_tsc (t ! i))"] intro!: Option.bind_cong)
qed

lemma run_get_mem_init:
  "run (get_mem_init_proc hash cfg address k) (ms, m) =
    spcd_get_mem_init hash cfg address ms \<bind> (\<lambda>(i, ms'). run (k i) (ms', m))"
  by (cases ms) (auto simp: get_mem_init_proc_def spcd_get_mem_init_def spcd_get_mem_def count_conflict_def Let_def
      split: option.splits bind_splits)

lemma proc_alone:
  "run (check_comm_proc hash cfg (tid, cycles, address)) s = spcd_check_comm hash cfg cycles tid address s"
proof -
  obtain ms m where s: "s = (ms, m)" by (cases s)
  show ?thesis
  proof (cases "spcd_get_mem_init hash cfg address ms")
    case (Some r)
    obtain i ms' where r: "r = (i, ms')" by (cases r)
    then obtain t where t: "mem ms' = Some t" "i < length t"
      using Some by (auto simp: spcd_get_mem_init_def spcd_get_mem_def Let_def bind_eq_Some_conv aget_eq_Some_iff aput_eq_Some_iff split: if_splits)
    show ?thesis
      using Some r t
      by (auto simp: s check_comm_proc_def spcd_check_comm_def run_get_mem_init run_get_num_sharers
          run_sharers[of _ t i, where ts = "ucast cycles"] Let_def intro!: Option.bind_cong)
  qed (simp add: s check_comm_proc_def spcd_check_comm_def run_get_mem_init)
qed

section \<open>What holds in every order\<close>

definition table_ok :: "config \<Rightarrow> shared \<Rightarrow> bool" where
  "table_ok cfg s \<longleftrightarrow> matrix_wf (max_threads_bits cfg) (snd s) \<and>
     (\<exists>t. mem (fst s) = Some t \<and> (\<forall>e \<in> set t. elem_safe (dim_int (max_threads_bits cfg)) e))"

text \<open>An element keeps its block, and a sharer that is set stays set.\<close>

definition elem_grows :: "spcd_mem_info \<Rightarrow> spcd_mem_info \<Rightarrow> bool" where
  "elem_grows e e' \<longleftrightarrow> pg_addr e' = pg_addr e \<and> (sint (sharer_0 e) \<noteq> -1 \<longrightarrow> sint (sharer_0 e') \<noteq> -1) \<and>
     (sint (sharer_1 e) \<noteq> -1 \<longrightarrow> sint (sharer_1 e') \<noteq> -1)"

definition grows :: "shared \<Rightarrow> shared \<Rightarrow> bool" where
  "grows s s' \<longleftrightarrow> (case mem (fst s) of None \<Rightarrow> True
     | Some t \<Rightarrow> (\<exists>t'. mem (fst s') = Some t' \<and> list_all2 elem_grows t t'))"

lemma elem_grows_refl: "elem_grows e e"
  by (simp add: elem_grows_def)

lemma elem_grows_trans: "elem_grows e f \<Longrightarrow> elem_grows f g \<Longrightarrow> elem_grows e g"
  by (simp add: elem_grows_def)

interpretation races: interference "table_ok cfg" grows for cfg :: config
proof unfold_locales
  fix s t u :: shared
  show "grows s s" by (auto simp: grows_def list_all2_refl elem_grows_refl split: option.split)
  show "grows s t \<Longrightarrow> grows t u \<Longrightarrow> grows s u"
    using list_all2_trans[OF elem_grows_trans] by (auto simp: grows_def split: option.splits)
qed

definition has_elem :: "nat \<Rightarrow> shared \<Rightarrow> (spcd_mem_info \<Rightarrow> bool) \<Rightarrow> bool" where
  "has_elem i s P \<longleftrightarrow> (\<exists>t. mem (fst s) = Some t \<and> i < length t \<and> P (t ! i))"

lemma has_elem_grows: "has_elem i s P \<Longrightarrow> grows s u \<Longrightarrow> has_elem i u (\<lambda>e'. \<exists>e. P e \<and> elem_grows e e')"
  by (fastforce simp: has_elem_def grows_def list_all2_conv_all_nth)

text \<open>What is known of an element after \<open>get_num_sharers\<close> has returned \<open>sh\<close>, whatever the others do.\<close>

definition known :: "nat \<Rightarrow> spcd_mem_info \<Rightarrow> bool" where
  "known sh e \<longleftrightarrow> (1 \<le> sh \<longrightarrow> sint (sharer_0 e) \<noteq> -1) \<and> (2 \<le> sh \<longrightarrow> sint (sharer_1 e) \<noteq> -1)"

lemma known_grows: "known sh e \<Longrightarrow> elem_grows e e' \<Longrightarrow> known sh e'"
  by (auto simp: known_def elem_grows_def)

lemma has_known_grows: "has_elem i s (known sh) \<Longrightarrow> grows s u \<Longrightarrow> has_elem i u (known sh)"
  by (drule (1) has_elem_grows) (auto simp: has_elem_def intro: known_grows)

lemma sharer_bounds:
  assumes "elem_safe n e"
  shows "sint (sharer_0 e) \<noteq> -1 \<Longrightarrow> 0 \<le> sint (sharer_0 e) \<and> sint (sharer_0 e) < n"
    and "sint (sharer_1 e) \<noteq> -1 \<Longrightarrow> 0 \<le> sint (sharer_1 e) \<and> sint (sharer_1 e) < n"
  using assms by (auto simp: elem_safe_def window_def split: if_splits)

text \<open>The rules for the accesses. The first thing that a step knows of its element is \<open>P\<close>.\<close>

lemma rg_rd_elem:
  assumes "has_elem i s P"
    and "\<And>u e. grows s u \<Longrightarrow> table_ok cfg u \<Longrightarrow> elem_safe (dim_int (max_threads_bits cfg)) e \<Longrightarrow>
      \<exists>e0. P e0 \<and> elem_grows e0 e \<Longrightarrow> has_elem i u (\<lambda>x. x = e) \<Longrightarrow> rg n (table_ok cfg) grows (k (sel e)) u"
  shows "rg (Suc n) (table_ok cfg) grows (rd_elem i sel k) s"
  unfolding rd_elem_def
proof (rule races.rg_rd)
  fix u assume u: "grows s u" "table_ok cfg u"
  obtain t where t: "mem (fst u) = Some t" "i < length t" "\<exists>e0. P e0 \<and> elem_grows e0 (t ! i)"
    using has_elem_grows[OF assms(1) u(1)] by (auto simp: has_elem_def)
  moreover have "elem_safe (dim_int (max_threads_bits cfg)) (t ! i)" using u(2) t by (auto simp: table_ok_def)
  ultimately show "wp (case u of (ms, m) \<Rightarrow> mem ms \<bind> (\<lambda>t. aget t i \<bind> (\<lambda>e. Some (sel e)))) (\<lambda>v. rg n (table_ok cfg) grows (k v) u)"
    using assms(2)[OF u, of "t ! i"] by (cases u) (auto simp: has_elem_def)
qed

lemma rg_wr_elem:
  assumes "has_elem i s P"
    and "\<And>e0 e. P e0 \<Longrightarrow> elem_grows e0 e \<Longrightarrow> elem_safe (dim_int (max_threads_bits cfg)) e \<Longrightarrow>
      elem_safe (dim_int (max_threads_bits cfg)) (f e) \<and> elem_grows e (f e)"
    and "\<And>u. grows s u \<Longrightarrow> table_ok cfg u \<Longrightarrow> rg n (table_ok cfg) grows p u"
  shows "rg (Suc n) (table_ok cfg) grows (wr_elem i f p) s"
  unfolding wr_elem_def
proof (rule races.rg_wr)
  fix u assume u: "grows s u" "table_ok cfg u"
  obtain ms m where ms: "u = (ms, m)" by (cases u)
  obtain t e0 where t: "mem ms = Some t" "i < length t" "P e0" "elem_grows e0 (t ! i)"
    using has_elem_grows[OF assms(1) u(1)] by (auto simp: has_elem_def ms)
  let ?u = "(ms\<lparr>mem := Some (t[i := f (t ! i)])\<rparr>, m)"
  have "elem_safe (dim_int (max_threads_bits cfg)) (f (t ! i))" "elem_grows (t ! i) (f (t ! i))"
    using assms(2)[OF t(3,4)] u(2) t(1,2) by (auto simp: table_ok_def ms)
  then have "grows u ?u" "table_ok cfg ?u"
    using u(2) t(1,2) set_update_subset_insert[of t i "f (t ! i)"]
    by (auto simp: grows_def table_ok_def ms list_all2_conv_all_nth nth_list_update elem_grows_refl)
  then show "wp (case u of (ms, m) \<Rightarrow> mem ms \<bind> (\<lambda>t. aget t i \<bind> (\<lambda>e. aput t i (f e) \<bind> (\<lambda>t. Some (ms\<lparr>mem := Some t\<rparr>, m)))))
      (\<lambda>v. grows u v \<and> table_ok cfg v \<and> rg n (table_ok cfg) grows p v)"
    using t(1,2) assms(3)[of ?u] races.R_trans[OF u(1)] by (simp add: ms)
qed

lemma rg_inc_comm:
  assumes "0 \<le> a" "a < dim_int (max_threads_bits cfg)" "0 \<le> b" "b < dim_int (max_threads_bits cfg)"
    and "\<And>u. grows s u \<Longrightarrow> table_ok cfg u \<Longrightarrow> rg n (table_ok cfg) grows p u" and "table_ok cfg s"
  shows "rg (Suc (Suc n)) (table_ok cfg) grows (inc_comm_proc (max_threads_bits cfg) a b p) s"
proof -
  let ?b = "max_threads_bits cfg" and ?c = "cell (nat (max_threads_bits cfg)) (nat a) (nat b)"
  have "0 \<le> ?b" "?b \<le> 15" using assms(6) by (auto simp: table_ok_def matrix_wf_def)
  from mat_index_eq[OF this assms(1-4)]
  have idx: "(if a > b then mat_index ?b a b else mat_index ?b b a) = Some (int ?c)" .
  have c: "?c < 2 ^ nat ?b * 2 ^ nat ?b" using assms(1-4) by (intro cell_less) (auto simp: dim_int_def nat_less_iff)
  show ?thesis
    unfolding inc_comm_proc_def idx option.case rd_cell_def wr_cell_def
  proof (rule races.rg_rd)
    fix u assume u: "grows s u" "table_ok cfg u"
    have "rg (Suc n) (table_ok cfg) grows (wr (\<lambda>(ms, m). matrix m \<bind> (\<lambda>a. aputz a (int ?c) v \<bind> (\<lambda>a. Some (ms, m\<lparr>matrix := Some a\<rparr>)))) p) u" for v
    proof (rule races.rg_wr)
      fix w assume w: "grows u w" "table_ok cfg w"
      obtain ms m a' where m: "w = (ms, m)" "matrix m = Some a'" "length a' = 2 ^ nat ?b * 2 ^ nat ?b"
        using w(2) by (cases w) (auto simp: table_ok_def matrix_wf_def)
      let ?w = "(ms, m\<lparr>matrix := Some (a'[?c := v])\<rparr>)"
      have "grows w ?w" by (cases "mem ms") (simp_all add: grows_def m(1) list_all2_refl elem_grows_refl)
      moreover have "table_ok cfg ?w" using w(2) m by (auto simp: table_ok_def matrix_wf_def)
      ultimately show "wp (case w of (ms, m) \<Rightarrow> matrix m \<bind> (\<lambda>a. aputz a (int ?c) v \<bind> (\<lambda>a. Some (ms, m\<lparr>matrix := Some a\<rparr>))))
          (\<lambda>x. grows w x \<and> table_ok cfg x \<and> rg n (table_ok cfg) grows p x)"
        using c m assms(5)[of ?w] races.R_trans[OF races.R_trans[OF u(1) w(1)]] by simp
    qed
    then show "wp (case u of (ms, m) \<Rightarrow> matrix m \<bind> (\<lambda>a. agetz a (int ?c)))
        (\<lambda>v. rg (Suc n) (table_ok cfg) grows (wr (\<lambda>(ms, m). matrix m \<bind> (\<lambda>a. aputz a (int ?c) (v + 1) \<bind> (\<lambda>a. Some (ms, m\<lparr>matrix := Some a\<rparr>)))) p) u)"
      using c u(2) by (cases u) (auto simp: table_ok_def matrix_wf_def)
  qed
qed

abbreviation good :: "config \<Rightarrow> nat \<Rightarrow> shared proc \<Rightarrow> shared \<Rightarrow> bool" where
  "good cfg n p s \<equiv> rg n (table_ok cfg) grows p s"

definition tid_ok :: "config \<Rightarrow> int \<Rightarrow> bool" where
  "tid_ok cfg tid \<longleftrightarrow> 0 \<le> tid \<and> tid < dim_int (max_threads_bits cfg) \<and> sint (word_of_int tid :: u16) = tid"

lemma rg_tsc: "has_elem i s P \<Longrightarrow> good cfg 1 (wr_elem i (mi_tsc_update f) Finished) s"
  unfolding One_nat_def by (erule rg_wr_elem) (auto simp: elem_grows_def elem_safe_def window_def)

lemma rg_set_0:
  assumes "has_elem i s P" "tid_ok cfg tid" "\<And>u. grows s u \<Longrightarrow> table_ok cfg u \<Longrightarrow> good cfg n p u"
  shows "good cfg (Suc n) (wr_elem i (sharer_0_update (\<lambda>_. word_of_int tid)) p) s"
  by (rule rg_wr_elem[OF assms(1)]) (use assms(2,3) in \<open>auto simp: tid_ok_def elem_safe_def window_def elem_grows_def split: if_splits\<close>)

lemma rg_shift:
  assumes k: "has_elem i s (known sh)" "1 \<le> sh" and tid: "tid_ok cfg tid"
    and p: "\<And>u. grows s u \<Longrightarrow> table_ok cfg u \<Longrightarrow> good cfg n p u"
  shows "good cfg (n + 3) (shift_proc i tid p) s"
proof -
  have "good cfg (Suc (Suc n)) (wr_elem i (sharer_1_update (\<lambda>_. a)) (wr_elem i (sharer_0_update (\<lambda>_. word_of_int tid)) p)) u"
    if u: "grows s u" and a: "0 \<le> sint a" "sint a < dim_int (max_threads_bits cfg)" for u and a :: u16
  proof (rule rg_wr_elem[OF has_known_grows[OF k(1) u]])
    fix e0 e assume "known sh e0" "elem_grows e0 e" and e: "elem_safe (dim_int (max_threads_bits cfg)) e"
    then have "known sh e" by (blast intro: known_grows)
    then show "elem_safe (dim_int (max_threads_bits cfg)) (e\<lparr>sharer_1 := a\<rparr>) \<and> elem_grows e (e\<lparr>sharer_1 := a\<rparr>)"
      using k(2) a e by (auto simp: elem_safe_def window_def elem_grows_def known_def split: if_splits)
  next
    fix w assume w: "grows u w" "table_ok cfg w"
    note sw = races.R_trans[OF u w(1)]
    show "good cfg (Suc n) (wr_elem i (sharer_0_update (\<lambda>_. word_of_int tid)) p) w"
      by (rule rg_set_0[OF has_known_grows[OF k(1) sw] tid]) (use p races.R_trans[OF sw] in auto)
  qed
  then have "good cfg (Suc (Suc (Suc n))) (shift_proc i tid p) s"
    unfolding shift_proc_def
    by (intro rg_rd_elem[OF k(1)]) (use k(2) sharer_bounds(1) in \<open>auto simp: known_def elem_grows_def\<close>)
  then show ?thesis by (simp add: numeral_3_eq_3)
qed

lemma rg_inc_sharer:
  assumes k: "has_elem i s (known sh)" and sel: "sel = sharer_0 \<and> 1 \<le> sh \<or> sel = sharer_1 \<and> 2 \<le> sh" and tid: "tid_ok cfg tid"
    and p: "\<And>u. grows s u \<Longrightarrow> table_ok cfg u \<Longrightarrow> good cfg n p u"
  shows "good cfg (n + 3) (inc_sharer_proc cfg i tid sel p) s"
proof -
  have "good cfg (Suc (Suc (Suc n))) (inc_sharer_proc cfg i tid sel p) s"
    unfolding inc_sharer_proc_def
  proof (rule rg_rd_elem[OF k])
    fix u e assume u: "grows s u" "table_ok cfg u" "elem_safe (dim_int (max_threads_bits cfg)) e" "\<exists>e0. known sh e0 \<and> elem_grows e0 e"
    have "known sh e" using u(4) by (blast intro: known_grows)
    then have "sint (sel e) \<noteq> -1" using sel by (auto simp: known_def)
    then have "0 \<le> sint (sel e)" "sint (sel e) < dim_int (max_threads_bits cfg)" using sel sharer_bounds[OF u(3)] by auto
    then show "good cfg (Suc (Suc n)) (inc_comm_proc (max_threads_bits cfg) tid (sint (sel e)) p) u"
      using tid u(1,2) p races.R_trans[OF u(1)] by (intro rg_inc_comm) (auto simp: tid_ok_def)
  qed
  then show ?thesis by (simp add: numeral_3_eq_3)
qed

text \<open>The \<open>switch\<close>, the counting of the sharers, and the whole function on a block that has its element.\<close>

lemma rg_inc_shift:
  assumes k: "has_elem i s (known sh)" "1 \<le> sh" and tid: "tid_ok cfg tid"
    and p: "\<And>u. grows s u \<Longrightarrow> table_ok cfg u \<Longrightarrow> good cfg n p u"
  shows "good cfg (n + 6) (inc_sharer_proc cfg i tid sharer_0 (shift_proc i tid p)) s"
    and "2 \<le> sh \<Longrightarrow>
      good cfg (n + 9) (inc_sharer_proc cfg i tid sharer_0 (inc_sharer_proc cfg i tid sharer_1 (shift_proc i tid p))) s"
proof -
  note ku = has_known_grows[OF k(1)]
  have shift: "good cfg (n + 3) (shift_proc i tid p) u" if u: "grows s u" for u
    by (rule rg_shift[OF ku[OF u] k(2) tid]) (rule p[OF races.R_trans[OF u]])
  have inc: "good cfg (m + 3) (inc_sharer_proc cfg i tid sel q) u"
    if u: "grows s u" and sel: "sel = sharer_0 \<and> 1 \<le> sh \<or> sel = sharer_1 \<and> 2 \<le> sh"
      and q: "\<And>w. grows s w \<Longrightarrow> table_ok cfg w \<Longrightarrow> good cfg m q w" for u sel m q
    by (rule rg_inc_sharer[OF ku[OF u] sel tid]) (rule q[OF races.R_trans[OF u]])
  show "good cfg (n + 6) (inc_sharer_proc cfg i tid sharer_0 (shift_proc i tid p)) s"
    using inc[OF races.R_refl, of sharer_0 "n + 3"] shift k(2) by (simp add: add.assoc)
  assume "2 \<le> sh"
  then have "good cfg (n + 6) (inc_sharer_proc cfg i tid sharer_1 (shift_proc i tid p)) u" if "grows s u" for u
    using inc[OF that, of sharer_1 "n + 3"] shift by (simp add: add.assoc)
  then show "good cfg (n + 9) (inc_sharer_proc cfg i tid sharer_0 (inc_sharer_proc cfg i tid sharer_1 (shift_proc i tid p))) s"
    using inc[OF races.R_refl, of sharer_0 "n + 6"] k(2) by (simp add: add.assoc)
qed

lemma rg_two_sharers:
  assumes k: "has_elem i s (known sh)" "2 \<le> sh" and tid: "tid_ok cfg tid"
    and p: "\<And>u. grows s u \<Longrightarrow> table_ok cfg u \<Longrightarrow> good cfg n p u"
  shows "good cfg (n + 12) (sharers_proc cfg i tid sh p) s"
proof -
  let ?inc = "inc_sharer_proc cfg i tid"
  let ?third = "\<lambda>b. if sint b = tid then ?inc sharer_0 (shift_proc i tid p) else p"
  let ?fourth = "\<lambda>a. if sint a = tid then ?inc sharer_1 p else rd_elem i sharer_1 ?third"
  let ?rest = "rd_elem i sharer_0 ?fourth"
  let ?second = "\<lambda>b. if sint b \<noteq> tid then ?inc sharer_0 (?inc sharer_1 (shift_proc i tid p)) else ?rest"
  let ?first = "\<lambda>a. if sint a \<noteq> tid then rd_elem i sharer_1 ?second else ?rest"
  note ku = has_known_grows[OF k(1)]
  have k1: "1 \<le> sh" using k(2) by simp
  have third: "good cfg (n + 6) (?third b) u" if u: "grows s u" "table_ok cfg u" for b u
    using rg_inc_shift(1)[OF ku[OF u(1)] k1 tid] p races.R_trans[OF u(1)] rg_mono[OF p[OF u], of "n + 6"] by simp
  have "good cfg (Suc (n + 6)) (rd_elem i sharer_1 ?third) u" if u: "grows s u" for u
    by (rule rg_rd_elem[OF ku[OF u]]) (rule third[OF races.R_trans[OF u]])
  moreover have "good cfg (Suc (n + 6)) (?inc sharer_1 p) u" if u: "grows s u" for u
    using rg_mono[OF rg_inc_sharer[OF ku[OF u] _ tid, of sharer_1 n p], of "Suc (n + 6)"] p races.R_trans[OF u] k(2) by simp
  ultimately have fourth: "good cfg (Suc (n + 6)) (?fourth a) u" if "grows s u" for a u
    using that by simp
  have "good cfg (Suc (Suc (n + 6))) ?rest u" if u: "grows s u" for u
    by (rule rg_rd_elem[OF ku[OF u]]) (rule fourth[OF races.R_trans[OF u]])
  note rest = rg_mono[OF this]
  have second: "good cfg (n + 10) (?second b) u" if u: "grows s u" for b u
    using rest[OF u, of "n + 10"] rg_mono[OF rg_inc_shift(2)[OF ku[OF u] k1 tid _ k(2)], of n p "n + 10"] p races.R_trans[OF u] by simp
  have "good cfg (Suc (n + 10)) (rd_elem i sharer_1 ?second) u" if u: "grows s u" for u
    by (rule rg_rd_elem[OF ku[OF u]]) (rule second[OF races.R_trans[OF u]])
  then have "good cfg (Suc (n + 10)) (?first a) u" if "grows s u" for a u
    using that rest[OF that, of "Suc (n + 10)"] by simp
  then have "good cfg (Suc (Suc (n + 10))) (rd_elem i sharer_0 ?first) s" by (intro rg_rd_elem[OF k(1)])
  then show ?thesis unfolding sharers_proc_def Let_def using k(2) by (simp add: add.commute del: rg.simps)
qed

lemma rg_sharers:
  assumes k: "has_elem i s (known sh)" and tid: "tid_ok cfg tid"
    and p: "\<And>u. grows s u \<Longrightarrow> table_ok cfg u \<Longrightarrow> good cfg n p u"
  shows "good cfg (n + 12) (sharers_proc cfg i tid sh p) s"
proof -
  consider "sh = 0" | "sh = 1" | "2 \<le> sh" by linarith
  then show ?thesis
  proof cases
    case 1
    then have "good cfg (Suc n) (sharers_proc cfg i tid sh p) s"
      using rg_set_0[OF k tid p] by (simp add: sharers_proc_def)
    then show ?thesis by (rule rg_mono) simp
  next
    case 2
    let ?k = "\<lambda>a. if sint a \<noteq> tid then inc_sharer_proc cfg i tid sharer_0 (shift_proc i tid p) else p"
    have "good cfg (n + 6) (?k a) u" if u: "grows s u" "table_ok cfg u" for a u
      using rg_inc_shift(1)[OF has_known_grows[OF k u(1)] _ tid, of n p] p races.R_trans[OF u(1)] 2
        rg_mono[OF p[OF u], of "n + 6"] by simp
    then have "good cfg (Suc (n + 6)) (rd_elem i sharer_0 ?k) s" by (intro rg_rd_elem[OF k])
    then show ?thesis unfolding sharers_proc_def Let_def using 2 by (auto elim!: rg_mono)
  qed (rule rg_two_sharers[OF k _ tid p])
qed

lemma rg_num_sharers:
  assumes k: "has_elem i s P"
    and p: "\<And>u sh. grows s u \<Longrightarrow> table_ok cfg u \<Longrightarrow> has_elem i u (known sh) \<Longrightarrow> good cfg n (cont sh) u"
  shows "good cfg (n + 4) (get_num_sharers_proc i cont) s"
proof -
  let ?last = "\<lambda>b. if sint b \<noteq> -1 then cont 2 else cont 1"
  let ?mid = "\<lambda>a. if sint a \<noteq> -1 then rd_elem i sharer_1 ?last else cont 1"
  let ?rest = "rd_elem i sharer_0 ?mid"
  let ?other = "\<lambda>b. if sint b = -1 then cont 0 else ?rest"
  have last: "good cfg (Suc n) (rd_elem i sharer_1 ?last) u" if u: "grows s u" "has_elem i u (known 1)" for u
  proof (rule rg_rd_elem[OF u(2)])
    fix w e assume w: "grows u w" "table_ok cfg w" "\<exists>e0. known 1 e0 \<and> elem_grows e0 e" "has_elem i w (\<lambda>x. x = e)"
    then have "known 1 e" by (blast intro: known_grows)
    then have "has_elem i w (known (if sint (sharer_1 e) \<noteq> -1 then 2 else 1))"
      using w(4) by (auto simp: has_elem_def known_def)
    then show "good cfg n (?last (sharer_1 e)) w" using p[OF races.R_trans[OF u(1) w(1)] w(2)] by (auto split: if_splits)
  qed
  have rest: "good cfg (Suc (Suc n)) ?rest u" if u: "grows s u" "has_elem i u (known 1)" for u
  proof (rule rg_rd_elem[OF u(2)])
    fix w e assume w: "grows u w" "\<exists>e0. known 1 e0 \<and> elem_grows e0 e"
    then have "known 1 e" by (blast intro: known_grows)
    then show "good cfg (Suc n) (?mid (sharer_0 e)) w"
      using last[OF races.R_trans[OF u(1) w(1)] has_known_grows[OF u(2) w(1)]] by (simp add: known_def del: rg.simps)
  qed
  have other: "good cfg (Suc (Suc (Suc n))) (rd_elem i sharer_1 ?other) u" if u: "grows s u" for u
  proof (rule rg_rd_elem[OF has_elem_grows[OF k u]])
    fix w e assume w: "grows u w" "table_ok cfg w" "elem_safe (dim_int (max_threads_bits cfg)) e" "has_elem i w (\<lambda>x. x = e)"
    note sw = races.R_trans[OF u w(1)]
    show "good cfg (Suc (Suc n)) (?other (sharer_1 e)) w"
    proof (cases "sint (sharer_1 e) = -1")
      case True
      have "has_elem i w (known 0)" using w(4) by (auto simp: has_elem_def known_def)
      then show ?thesis using rg_mono[OF p[OF sw w(2)], of 0 "Suc (Suc n)"] True by simp
    next
      case False
      then have "has_elem i w (known 1)" using w(3,4) by (auto simp: has_elem_def known_def elem_safe_def)
      then show ?thesis using rest[OF sw] False by (simp del: rg.simps)
    qed
  qed
  have "good cfg (Suc (Suc (Suc (Suc n)))) (get_num_sharers_proc i cont) s"
    unfolding get_num_sharers_proc_def Let_def
  proof (rule rg_rd_elem[OF k])
    fix u e assume u: "grows s u" "table_ok cfg u" "has_elem i u (\<lambda>x. x = e)"
    show "good cfg (Suc (Suc (Suc n))) (if sint (sharer_0 e) = -1 then rd_elem i sharer_1 ?other else ?rest) u"
    proof (cases "sint (sharer_0 e) = -1")
      case False
      then have "has_elem i u (known 1)" using u(3) by (auto simp: has_elem_def known_def)
      then show ?thesis using rg_mono[OF rest[OF u(1)], of "Suc (Suc (Suc n))"] False by (simp del: rg.simps)
    qed (use other[OF u(1)] in simp)
  qed
  then show ?thesis by (simp add: numeral_eq_Suc)
qed

text \<open>The blocks of the accesses have their elements. Two blocks of one element cannot both have it.\<close>

definition resident :: "hash_fun \<Rightarrow> config \<Rightarrow> shared \<Rightarrow> access \<Rightarrow> bool" where
  "resident hash cfg s a \<longleftrightarrow> (case a of (tid, cycles, address) \<Rightarrow> tid_ok cfg tid \<and>
     (\<exists>page. addr_to_page cfg address = Some page \<and> has_elem (mem_slot hash cfg page) s (\<lambda>e. pg_addr e = page)))"

lemma rg_check_comm:
  assumes "resident hash cfg s a"
  shows "good cfg 18 (check_comm_proc hash cfg a) s"
proof -
  obtain tid cycles address where a: "a = (tid, cycles, address)" by (cases a)
  obtain page where tid: "tid_ok cfg tid" and page: "addr_to_page cfg address = Some page"
    and el: "has_elem (mem_slot hash cfg page) s (\<lambda>e. pg_addr e = page)"
    using assms by (auto simp: resident_def a)
  let ?i = "mem_slot hash cfg page"
  let ?tsc = "wr_elem ?i (mi_tsc_update (\<lambda>_. ucast (ucast cycles :: u32))) Finished"
  let ?k = "get_num_sharers_proc ?i (\<lambda>sh. sharers_proc cfg ?i tid sh ?tsc)"
  have tsc: "good cfg 1 ?tsc u" if "grows s u" for u
    using has_elem_grows[OF el that] by (rule rg_tsc)
  have k: "good cfg (1 + 12 + 4) ?k u" if u: "grows s u" for u
    by (rule rg_num_sharers[OF has_elem_grows[OF el u]]) (rule rg_sharers[OF _ tid], assumption, rule tsc, blast intro: races.R_trans u)
  have "good cfg (Suc (1 + 12 + 4)) (check_comm_proc hash cfg a) s"
    unfolding check_comm_proc_def a prod.case get_mem_init_proc_def page option.case Let_def
  proof (rule rg_rd_elem[OF el])
    fix u e assume u: "grows s u" "\<exists>e0. pg_addr e0 = page \<and> elem_grows e0 e"
    then have "pg_addr e = page" by (auto simp: elem_grows_def)
    then show "good cfg (1 + 12 + 4) (if pg_addr e \<noteq> page then rd_elem ?i pg_addr (\<lambda>a.
        (if a \<noteq> 0 then count_conflict else id) (wr_elem ?i (sharer_0_update (\<lambda>_. -1)) (wr_elem ?i (sharer_1_update (\<lambda>_. -1))
          (wr_elem ?i (pg_addr_update (\<lambda>_. page)) ?k)))) else ?k) u"
      using k[OF u(1)] by (simp del: rg.simps)
  qed
  then show ?thesis by simp
qed

section \<open>What depends on the order\<close>

lemmas procs = check_comm_proc_def get_mem_init_proc_def get_num_sharers_proc_def sharers_proc_def shift_proc_def
  inc_sharer_proc_def rd_elem_def wr_elem_def rd_cell_def wr_cell_def count_conflict_def Let_def

lemma inc_proc_eq:
  assumes "0 \<le> bits" "bits \<le> 15" "0 \<le> a" "a < dim_int bits" "0 \<le> b" "b < dim_int bits"
  shows "inc_comm_proc bits a b p =
    rd_cell (int (cell (nat bits) (nat a) (nat b))) (\<lambda>v. wr_cell (int (cell (nat bits) (nat a) (nat b))) (v + 1) p)"
  unfolding inc_comm_proc_def mat_index_eq[OF assms] by simp

text \<open>The block of an address has its element, with two threads in its window.\<close>

definition used_by :: "hash_fun \<Rightarrow> config \<Rightarrow> shared \<Rightarrow> u64 \<Rightarrow> int \<Rightarrow> int \<Rightarrow> bool" where
  "used_by hash cfg s address a b \<longleftrightarrow> table_ok cfg s \<and> tid_ok cfg a \<and> tid_ok cfg b \<and> a \<noteq> b \<and>
     (\<exists>page. addr_to_page cfg address = Some page \<and>
       has_elem (mem_slot hash cfg page) s (\<lambda>e. pg_addr e = page \<and> window e = [a, b]))"

lemma used_byE:
  assumes "used_by hash cfg s address a b"
  obtains ms m t page cells where "s = (ms, m)" "mem ms = Some t" "mem_slot hash cfg page < length t"
    "addr_to_page cfg address = Some page" "pg_addr (t ! mem_slot hash cfg page) = page"
    "sint (sharer_0 (t ! mem_slot hash cfg page)) = a" "sint (sharer_1 (t ! mem_slot hash cfg page)) = b"
    "matrix m = Some cells" "length cells = 2 ^ nat (max_threads_bits cfg) * 2 ^ nat (max_threads_bits cfg)"
    "0 \<le> max_threads_bits cfg" "max_threads_bits cfg \<le> 15"
    "0 \<le> a" "a < dim_int (max_threads_bits cfg)" "0 \<le> b" "b < dim_int (max_threads_bits cfg)" "a \<noteq> b"
    "sint (word_of_int a :: u16) = a" "sint (word_of_int b :: u16) = b"
proof -
  obtain ms m where s: "s = (ms, m)" by (cases s)
  from assms obtain page t where e: "addr_to_page cfg address = Some page" "mem ms = Some t" "mem_slot hash cfg page < length t"
    "pg_addr (t ! mem_slot hash cfg page) = page" "window (t ! mem_slot hash cfg page) = [a, b]"
    by (auto simp: used_by_def has_elem_def s)
  moreover have "sint (sharer_0 (t ! mem_slot hash cfg page)) = a" "sint (sharer_1 (t ! mem_slot hash cfg page)) = b"
    using e(5) by (auto simp: window_def split: if_splits)
  ultimately show thesis
    using assms s that unfolding used_by_def table_ok_def matrix_wf_def tid_ok_def by auto
qed

text \<open>
  The schedules. Both threads of a window fault on the block: the second runs between the load and the store of the
  first, or after it. A third thread and the first of the window: the first one runs when the third has written one
  of the two sharers. Thread 0 and any other, on two blocks of one element: the second evicts the first block while
  thread 0 is between its two events.
\<close>

lemma agetz_neg: "agetz xs (-1) = None"
  by (simp add: agetz_def)

lemma inc_proc_evicted: "0 \<le> bits \<Longrightarrow> bits \<le> 15 \<Longrightarrow>
    inc_comm_proc bits 0 (-1) p = rd_cell (-1) (\<lambda>v. wr_cell (-1) (v + 1) p)"
  by (simp add: inc_comm_proc_def mat_index_def shl_int_def cint_def in_int_def)

lemma schedules:
  assumes used: "used_by hash cfg s address a b"
  shows "\<exists>s1. schedule (replicate 8 0 @ replicate 15 (Suc 0) @ replicate 2 0)
        (s, [check_comm_proc hash cfg (a, c1, address), check_comm_proc hash cfg (b, c2, address)]) = Some (s1, [Finished, Finished]) \<and>
      get_comm (max_threads_bits cfg) (snd s1) a b = map_option (\<lambda>c. c + 1) (get_comm (max_threads_bits cfg) (snd s) a b)"
    and "\<exists>s1. schedule (replicate 10 0 @ replicate 15 (Suc 0))
        (s, [check_comm_proc hash cfg (a, c1, address), check_comm_proc hash cfg (b, c2, address)]) = Some (s1, [Finished, Finished]) \<and>
      get_comm (max_threads_bits cfg) (snd s1) a b = map_option (\<lambda>c. c + 2) (get_comm (max_threads_bits cfg) (snd s) a b)"
    and "tid_ok cfg u \<Longrightarrow> u \<noteq> a \<Longrightarrow> u \<noteq> b \<Longrightarrow>
      \<exists>s1. schedule (replicate 14 0 @ replicate 10 (Suc 0) @ replicate 2 0)
        (s, [check_comm_proc hash cfg (u, c1, address), check_comm_proc hash cfg (a, c2, address)]) = Some (s1, [Finished, Finished]) \<and>
      get_comm (max_threads_bits cfg) (snd s1) a a = map_option (\<lambda>c. c + 1) (get_comm (max_threads_bits cfg) (snd s) a a)"
    and "a \<noteq> 0 \<Longrightarrow> b \<noteq> 0 \<Longrightarrow> addr_to_page cfg address = Some page \<Longrightarrow> page \<noteq> 0 \<Longrightarrow> addr_to_page cfg other = Some page' \<Longrightarrow> page' \<noteq> page \<Longrightarrow>
      mem_slot hash cfg page' = mem_slot hash cfg page \<Longrightarrow>
      \<exists>c. schedule (replicate 9 0 @ replicate 6 (Suc 0) @ [0])
        (s, [check_comm_proc hash cfg (0, c1, address), check_comm_proc hash cfg (u, c2, other)]) = Some c \<and> crashes c"
proof -
  let ?bits = "max_threads_bits cfg"
  obtain ms m t pg cells where e: "s = (ms, m)" "mem ms = Some t" "mem_slot hash cfg pg < length t"
    "addr_to_page cfg address = Some pg" "pg_addr (t ! mem_slot hash cfg pg) = pg"
    "sint (sharer_0 (t ! mem_slot hash cfg pg)) = a" "sint (sharer_1 (t ! mem_slot hash cfg pg)) = b"
    "matrix m = Some cells" "length cells = 2 ^ nat ?bits * 2 ^ nat ?bits" "0 \<le> ?bits" "?bits \<le> 15"
    "0 \<le> a" "a < dim_int ?bits" "0 \<le> b" "b < dim_int ?bits" "a \<noteq> b"
    "sint (word_of_int a :: u16) = a" "sint (word_of_int b :: u16) = b"
    using used by (rule used_byE)
  have c: "cell (nat ?bits) (nat i) (nat j) < length cells" if "0 \<le> i" "i < dim_int ?bits" "0 \<le> j" "j < dim_int ?bits" for i j
    using that e(9) cell_less[of "nat i" "nat ?bits" "nat j"] by (simp add: dim_int_def nat_less_iff)
  note ev = procs inc_proc_eq numeral_eq_Suc two get_comm_eq matrix_wf_def
  show "\<exists>s1. schedule (replicate 8 0 @ replicate 15 (Suc 0) @ replicate 2 0)
        (s, [check_comm_proc hash cfg (a, c1, address), check_comm_proc hash cfg (b, c2, address)]) = Some (s1, [Finished, Finished]) \<and>
      get_comm ?bits (snd s1) a b = map_option (\<lambda>c. c + 1) (get_comm ?bits (snd s) a b)"
    using e c by (simp add: ev cell_sym[of _ "nat b"] del: schedule.simps(2))
  show "\<exists>s1. schedule (replicate 10 0 @ replicate 15 (Suc 0))
        (s, [check_comm_proc hash cfg (a, c1, address), check_comm_proc hash cfg (b, c2, address)]) = Some (s1, [Finished, Finished]) \<and>
      get_comm ?bits (snd s1) a b = map_option (\<lambda>c. c + 2) (get_comm ?bits (snd s) a b)"
    using e c by (simp add: ev cell_sym[of _ "nat b"] del: schedule.simps(2))
  show "\<exists>s1. schedule (replicate 14 0 @ replicate 10 (Suc 0) @ replicate 2 0)
        (s, [check_comm_proc hash cfg (u, c1, address), check_comm_proc hash cfg (a, c2, address)]) = Some (s1, [Finished, Finished]) \<and>
      get_comm ?bits (snd s1) a a = map_option (\<lambda>c. c + 1) (get_comm ?bits (snd s) a a)"
    if u: "tid_ok cfg u" "u \<noteq> a" "u \<noteq> b"
  proof -
    let ?c = "cell (nat ?bits)"
    have r: "0 \<le> u" "u < dim_int ?bits" "sint (word_of_int u :: u16) = u" using u(1) by (simp_all add: tid_ok_def)
    have run: "\<exists>s1. schedule (replicate 14 0 @ replicate 10 (Suc 0) @ replicate 2 0)
        (s, [check_comm_proc hash cfg (u, c1, address), check_comm_proc hash cfg (a, c2, address)]) = Some (s1, [Finished, Finished]) \<and>
      P (snd s1)" if P: "\<And>x y. P (m\<lparr>matrix := Some (cells[?c (nat u) (nat a) := x, ?c (nat u) (nat b) := y,
          ?c (nat a) (nat a) := cells[?c (nat u) (nat a) := x, ?c (nat u) (nat b) := y] ! ?c (nat a) (nat a) + 1])\<rparr>)" for P
      using e c r u(2,3) by (simp add: P procs inc_proc_eq numeral_eq_Suc two del: schedule.simps(2))
    have n: "nat i < 2 ^ nat ?bits" if "0 \<le> i" "i < dim_int ?bits" for i using that by (simp add: dim_int_def nat_less_iff)
    have ne: "?c (nat u) (nat a) \<noteq> ?c (nat a) (nat a)" "?c (nat u) (nat b) \<noteq> ?c (nat a) (nat a)"
      using u(2,3) r e(12-16) n[of u] n[of a] n[of b] by (simp_all add: cell_inj doubleton_eq_iff eq_nat_nat_iff)
    show ?thesis
      by (rule run) (use e ne c[of a a] in \<open>simp add: get_comm_eq matrix_wf_def\<close>)
  qed
  show "\<exists>c. schedule (replicate 9 0 @ replicate 6 (Suc 0) @ [0])
        (s, [check_comm_proc hash cfg (0, c1, address), check_comm_proc hash cfg (u, c2, other)]) = Some c \<and> crashes c"
    if o: "a \<noteq> 0" "b \<noteq> 0" "addr_to_page cfg address = Some page" "page \<noteq> 0" "addr_to_page cfg other = Some page'" "page' \<noteq> page"
      "mem_slot hash cfg page' = mem_slot hash cfg page"
  proof -
    have pg: "pg = page" using e(4) o(3) by simp
    have "0 < dim_int ?bits" "cell (nat ?bits) 0 (nat a) < length cells"
      using c[of 0 a] e(12,13) by (simp_all add: dim_int_def)
    then show ?thesis
      using e(1,2,8,10-16) e(3-7)[unfolded pg] o(1,2,4-7)
      by (simp add: procs inc_proc_eq numeral_eq_Suc two inc_proc_evicted crashes_rd agetz_neg del: schedule.simps(2))
  qed
qed

section \<open>Properties\<close>

lemma detector_table_ok: "detector_wf hash cfg s \<Longrightarrow> table_ok cfg s"
  by (auto simp: detector_wf_def mem_wf_def table_ok_def)

lemma check_all_rg:
  assumes "table_ok cfg s" "\<forall>a \<in> set as. resident hash cfg s a"
  shows "all_rg (table_ok cfg) grows (replicate (length as) 18) (s, map (check_comm_proc hash cfg) as)"
  using assms rg_check_comm by (simp add: all_rg_def)

text \<open>A small table, in which the threads 1 and 2 have used block 5.\<close>

definition race_state :: shared where
  "race_state = (\<lparr>mem = Some ((replicate 16 zero_elem)[5 := \<lparr>pg_addr = 5, mi_tsc = 0, sharer_0 = 1, sharer_1 = 2\<rparr>]),
     spcd_addr_conflict = 0\<rparr>, small_matrix)"

lemma race_page: "addr_to_page small_cfg 0x5008 = Some 5" "addr_to_page small_cfg 0x15008 = Some 21"
  by (simp_all add: addr_to_page_def drop_bit_eq_div)

lemma race_slot: "mem_slot low_bits_hash small_cfg 5 = 5" "mem_slot low_bits_hash small_cfg 21 = 5"
  by (simp_all add: mem_slot_def low_bits_hash_def)

lemma race_tids: "tid_ok small_cfg 0" "tid_ok small_cfg 1" "tid_ok small_cfg 2" "tid_ok small_cfg 3"
  by (simp_all add: tid_ok_def dim_int_def)

lemma race_wf: "detector_wf low_bits_hash small_cfg race_state"
proof -
  have "elem_safe 4 \<lparr>pg_addr = 5, mi_tsc = 0, sharer_0 = 1, sharer_1 = 2\<rparr> \<and>
      distinct (window \<lparr>pg_addr = 5, mi_tsc = 0, sharer_0 = 1, sharer_1 = 2\<rparr>)"
    by (simp add: elem_safe_def window_def)
  moreover have "elem_safe 4 zero_elem \<and> pg_addr zero_elem = 0"
    using elem_safe_zero[of 4] by (simp add: zero_elem_def)
  ultimately show ?thesis
    using small_detector_wf set_update_subset_insert[of "replicate 16 zero_elem" 5 "\<lparr>pg_addr = 5, mi_tsc = 0, sharer_0 = 1, sharer_1 = 2\<rparr>"]
    by (auto simp: detector_wf_def mem_wf_def race_state_def dim_int_def simp del: replicate.simps)
qed

lemma race_used: "used_by low_bits_hash small_cfg race_state 0x5008 1 2"
  using detector_table_ok[OF race_wf] race_tids
  by (simp add: used_by_def race_page race_slot has_elem_def) (simp add: race_state_def window_def)

text \<open>
  C4: page faults at the same time are memory-safe on blocks that have their elements. Any number of calls of
  \<open>spcd_check_comm\<close> by valid threads, whose accesses to the table and the matrix are interleaved in any order, make at
  most 18 accesses each, none outside the table or the matrix; at every moment each sharer in the table is a valid
  thread or none, no element loses its block or a sharer that was set, and some call can go on until all have
  returned.
\<close>
theorem concurrent_faults_safe:
  assumes "table_ok cfg s" "\<forall>a \<in> set as. resident hash cfg s a"
    and "(conc ^^ k) (s, map (check_comm_proc hash cfg) as) c"
  shows "k \<le> 18 * length as \<and> table_ok cfg (fst c) \<and> grows s (fst c) \<and> \<not> crashes c \<and>
    (all_finished c \<or> (\<exists>c'. conc c c'))"
  using races.parallel[OF check_all_rg[OF assms(1,2)] assms(3)] conc_progress[of c]
  by (simp add: sum_list_replicate)

theorem concurrent_faults_safe_witness:
  "\<exists>c. (conc ^^ 1) (race_state, map (check_comm_proc low_bits_hash small_cfg) [(1, 7, 0x5008), (3, 8, 0x5008)]) c \<and>
    table_ok small_cfg (fst c) \<and> \<not> crashes c"
proof -
  let ?as = "[(1, 7, 0x5008), (3, 8, 0x5008)] :: access list"
  let ?c = "(race_state, map (check_comm_proc low_bits_hash small_cfg) ?as)"
  have res: "\<forall>a \<in> set ?as. resident low_bits_hash small_cfg race_state a"
    using race_tids by (simp add: resident_def race_page race_slot has_elem_def) (simp add: race_state_def)
  note ok = detector_table_ok[OF race_wf]
  have "\<not> all_finished ?c"
    by (simp add: all_finished_def check_comm_proc_def get_mem_init_proc_def race_page rd_elem_def rd_def Let_def)
  moreover have "\<not> crashes ?c" using races.all_rg_no_crash[OF check_all_rg[OF ok res]] .
  ultimately obtain c where c: "conc ?c c" using conc_progress[of ?c] by blast
  then have "(conc ^^ 1) ?c c" by auto
  from concurrent_faults_safe[OF ok res this] this show ?thesis by blast
qed

text \<open>
  C34: two page faults at the same time can lose an event. When the two threads that have used a block last fault on it at the
  same time, both calls count one event of the pair. One after the other they add two to its count; but there is
  an order of their accesses in which the count increases by one only, because \<open>inc_comm\<close> loads and stores the count
  without a lock.
\<close>
theorem lost_event:
  assumes "used_by hash cfg s address a b"
  defines "calls \<equiv> [check_comm_proc hash cfg (a, 0, address), check_comm_proc hash cfg (b, 0, address)]"
    and "count \<equiv> \<lambda>s. get_comm (max_threads_bits cfg) (snd s) a b"
  shows "\<exists>s1 s2. conc\<^sup>*\<^sup>* (s, calls) (s1, [Finished, Finished]) \<and> count s1 = map_option (\<lambda>c. c + 2) (count s) \<and>
    conc\<^sup>*\<^sup>* (s, calls) (s2, [Finished, Finished]) \<and> count s2 = map_option (\<lambda>c. c + 1) (count s)"
  using schedules(1,2)[OF assms(1), of 0 0] schedule_conc unfolding calls_def count_def by blast

theorem lost_event_witness:
  "\<exists>s2. conc\<^sup>*\<^sup>* (race_state, [check_comm_proc low_bits_hash small_cfg (1, 0, 0x5008), check_comm_proc low_bits_hash small_cfg (2, 0, 0x5008)])
      (s2, [Finished, Finished]) \<and>
    get_comm (max_threads_bits small_cfg) (snd s2) 1 2 =
      map_option (\<lambda>c. c + 1) (get_comm (max_threads_bits small_cfg) (snd race_state) 1 2)"
  using lost_event[OF race_used] by blast

text \<open>
  C32: two page faults at the same time can make the module write outside the matrix. Thread 0 faults on a block that two other
  threads have used, and another thread on a block with the same element. One after the other both calls return.
  But when the second one evicts the first block while thread 0 is between its two events, thread 0 reads the sharer
  \<open>-1\<close>, and \<open>inc_comm\<close> accesses the cell before the first one of the matrix.
\<close>
theorem eviction_race:
  assumes "detector_wf hash cfg s" "used_by hash cfg s address a b" "a \<noteq> 0" "b \<noteq> 0" "tid_ok cfg u"
    and "addr_to_page cfg address = Some page" "page \<noteq> 0" "addr_to_page cfg other = Some page'" "page' \<noteq> page"
    and "mem_slot hash cfg page' = mem_slot hash cfg page"
  shows "(\<exists>s1 s2. spcd_check_comm hash cfg c1 0 address s = Some s1 \<and> spcd_check_comm hash cfg c2 u other s1 = Some s2) \<and>
    (\<exists>c. conc\<^sup>*\<^sup>* (s, [check_comm_proc hash cfg (0, c1, address), check_comm_proc hash cfg (u, c2, other)]) c \<and> crashes c)"
proof
  have shift: "0 \<le> spcd_shift cfg" "spcd_shift cfg < 64" using assms(6) by (simp_all add: addr_to_page_def split: if_splits)
  have zero: "0 < dim_int (max_threads_bits cfg)" by (simp add: dim_int_def)
  obtain s1 where s1: "spcd_check_comm hash cfg c1 0 address s = Some s1" "detector_wf hash cfg s1"
    using check_comm_safe[of hash cfg "fst s" "snd s" 0 c1 address] assms(1) shift zero by (auto elim!: wpE)
  then show "\<exists>s1 s2. spcd_check_comm hash cfg c1 0 address s = Some s1 \<and> spcd_check_comm hash cfg c2 u other s1 = Some s2"
    using check_comm_safe[of hash cfg "fst s1" "snd s1" u c2 other] assms(5) shift by (auto simp: tid_ok_def elim!: wpE)
  show "\<exists>c. conc\<^sup>*\<^sup>* (s, [check_comm_proc hash cfg (0, c1, address), check_comm_proc hash cfg (u, c2, other)]) c \<and> crashes c"
    using schedules(4)[OF assms(2-4,6-10)] schedule_conc by blast
qed

theorem eviction_race_witness:
  "\<exists>c. conc\<^sup>*\<^sup>* (race_state, [check_comm_proc low_bits_hash small_cfg (0, 7, 0x5008), check_comm_proc low_bits_hash small_cfg (3, 8, 0x15008)]) c \<and>
    crashes c"
  using eviction_race[OF race_wf race_used _ _ race_tids(4) race_page(1) _ race_page(2), of 7 8] by (simp add: race_slot)

text \<open>
  A third thread and one of the two that have used the block: there is an order in which a thread counts an event with
  itself, on the diagonal of the matrix, which no history of uninterrupted calls touches.
\<close>

lemma self_event:
  assumes "used_by hash cfg s address a b" "tid_ok cfg u" "u \<noteq> a" "u \<noteq> b"
  shows "\<exists>s1. conc\<^sup>*\<^sup>* (s, [check_comm_proc hash cfg (u, 0, address), check_comm_proc hash cfg (a, 0, address)]) (s1, [Finished, Finished]) \<and>
    get_comm (max_threads_bits cfg) (snd s1) a a = map_option (\<lambda>c. c + 1) (get_comm (max_threads_bits cfg) (snd s) a a)"
  using schedules(3)[OF assms, of 0 0] schedule_conc by blast

end
