(* ===== verification/Cdsm_Race_Pid.thy ===== *)
theory Cdsm_Race_Pid
  imports Cdsm_Conc Cdsm_Pid Cdsm_Matrix
begin

text \<open>
  Forks on several processors at once. The probe calls \<open>spcd_add_pid\<close> (\<open>src/pid.c\<close>) on the processor of the parent. The
  two counters are atomic, but the test against \<open>max_threads\<close> and the test of the slot are not one step with what they
  guard. Here the function is a process, as in \<open>Cdsm_Race\<close>; copying the entry of eight bytes to the reverse array is
  one read and one write. The return value goes to \<open>k\<close>.
\<close>

section \<open>The code\<close>

definition rd_slot :: "nat \<Rightarrow> (pid_s \<Rightarrow> 'a) \<Rightarrow> ('a \<Rightarrow> pid_state proc) \<Rightarrow> pid_state proc" where
  "rd_slot h sel = rd (\<lambda>st. map_option sel (aget (spcd_pid st) h))"

definition wr_slot :: "nat \<Rightarrow> (pid_s \<Rightarrow> pid_s) \<Rightarrow> pid_state proc \<Rightarrow> pid_state proc" where
  "wr_slot h f = wr (\<lambda>st. do { e \<leftarrow> aget (spcd_pid st) h; a \<leftarrow> aput (spcd_pid st) h (f e); Some (st\<lparr>spcd_pid := a\<rparr>) })"

definition wr_reverse :: "int \<Rightarrow> pid_s \<Rightarrow> pid_state proc \<Rightarrow> pid_state proc" where
  "wr_reverse t e = wr (\<lambda>st. do { r \<leftarrow> aputz (spcd_pid_reverse st) t e; Some (st\<lparr>spcd_pid_reverse := r\<rparr>) })"

definition add_pid_proc :: "hash_fun \<Rightarrow> int \<Rightarrow> int \<Rightarrow> (int \<Rightarrow> pid_state proc) \<Rightarrow> pid_state proc" where
  "add_pid_proc hash max_threads pid k = rd (\<lambda>st. Some (spcd_get_num_threads st)) (\<lambda>n.
     if n \<ge> max_threads then k (-1)
     else let h = pid_slot hash pid in rd_slot h ps_pid (\<lambda>p.
       if p = -1 then
         wr_slot h (ps_pid_update (\<lambda>_. pid))
           (rmw (\<lambda>st. (spcd_num_threads st, st\<lparr>spcd_num_threads := spcd_num_threads st + 1\<rparr>)) (\<lambda>tid.
             wr_slot h (ps_tid_update (\<lambda>_. tid))
               (rmw (\<lambda>st. ((), st\<lparr>spcd_active_threads := spcd_active_threads st + 1\<rparr>)) (\<lambda>_.
                 rd_slot h ps_tid (\<lambda>t. rd_slot h id (\<lambda>e. wr_reverse t e (rd_slot h ps_tid k)))))))
       else k (-1)))"

section \<open>A process alone is the function\<close>

lemma both_fields: "e\<lparr>ps_pid := p, ps_tid := t\<rparr> = \<lparr>ps_pid = p, ps_tid = t\<rparr>"
  by (cases e) simp

lemma run_add_pid:
  "run (add_pid_proc hash max_threads pid k) st = spcd_add_pid hash max_threads pid st \<bind> (\<lambda>(r, st'). run (k r) st')"
proof (cases "pid_slot hash pid < length (spcd_pid st)")
  case True
  then show ?thesis
    by (cases st) (auto simp: add_pid_proc_def spcd_add_pid_def spcd_get_num_threads_def rd_slot_def wr_slot_def wr_reverse_def
        Let_def aputz_def aput_def both_fields)
qed (simp add: add_pid_proc_def spcd_add_pid_def spcd_get_num_threads_def rd_slot_def Let_def)

section \<open>What holds in every order\<close>

abbreviation numbers :: "nat \<Rightarrow> pid_state proc \<Rightarrow> int \<Rightarrow> bool" where
  "numbers n \<equiv> spends n spcd_num_threads"

lemma numbers_step:
  "0 \<le> c \<Longrightarrow> (\<And>v. numbers n (k v) c) \<Longrightarrow> numbers (Suc n) (rd_slot h sel k) c"
  "numbers n p c \<Longrightarrow> numbers (Suc n) (wr_slot h f p) c"
  "numbers n p c \<Longrightarrow> numbers (Suc n) (wr_reverse t e p) c"
proof -
  show "0 \<le> c \<Longrightarrow> (\<And>v. numbers n (k v) c) \<Longrightarrow> numbers (Suc n) (rd_slot h sel k) c"
    unfolding rd_slot_def by (rule spends_rd)
  show "numbers (Suc n) (wr_slot h f p) c" if "numbers n p c"
    unfolding wr_slot_def by (rule spends_wr[OF that]) (auto simp: bind_eq_Some_conv)
  show "numbers (Suc n) (wr_reverse t e p) c" if "numbers n p c"
    unfolding wr_reverse_def by (rule spends_wr[OF that]) (auto simp: bind_eq_Some_conv)
qed

lemma numbers_inc:
  "(\<And>v. numbers n (k v) 0) \<Longrightarrow> numbers (Suc n) (rmw (\<lambda>st. (spcd_num_threads st, st\<lparr>spcd_num_threads := spcd_num_threads st + 1\<rparr>)) k) 1"
  using spends_rmw[of n spcd_num_threads k 0 _ 1] by (simp del: spends.simps)

lemma numbers_active:
  "numbers n (k ()) 0 \<Longrightarrow> numbers (Suc n) (rmw (\<lambda>st. ((), st\<lparr>spcd_active_threads := spcd_active_threads st + 1\<rparr>)) k) 0"
  using spends_rmw[of n spcd_num_threads k 0 _ 0] by (simp del: spends.simps)

lemma numbers_add_pid: "numbers 10 (add_pid_proc hash max_threads pid (\<lambda>_. Finished)) 1"
proof -
  have "numbers (Suc (Suc (Suc (Suc (Suc (Suc (Suc (Suc (Suc (Suc 0)))))))))) (add_pid_proc hash max_threads pid (\<lambda>_. Finished)) 1"
    unfolding add_pid_proc_def Let_def
    by (rule spends_rd, simp, simp del: spends.simps add: numbers_step numbers_inc numbers_active)
  then show ?thesis by (simp add: numeral_eq_Suc del: spends.simps)
qed

text \<open>Two calls, for pids of different slots.\<close>

lemma overbook:
  assumes wf: "pid_wf hash max_threads st" "0 < max_threads" "max_threads < 16384" "spcd_num_threads st = max_threads - 1"
    and free: "ps_pid (spcd_pid st ! pid_slot hash p) = -1" "ps_pid (spcd_pid st ! pid_slot hash q) = -1"
    and slots: "pid_slot hash p \<noteq> pid_slot hash q"
  shows "\<exists>st'. schedule ([0, Suc 0] @ replicate 9 0 @ replicate 9 (Suc 0))
      (st, [add_pid_proc hash max_threads p (\<lambda>_. Finished), add_pid_proc hash max_threads q (\<lambda>_. Finished)]) =
        Some (st', [Finished, Finished]) \<and> spcd_num_threads st' = max_threads + 1 \<and>
      spcd_get_tid hash q st' = Some max_threads"
proof -
  have l: "pid_slot hash p < length (spcd_pid st)" "pid_slot hash q < length (spcd_pid st)"
    "nat (max_threads - 1) < length (spcd_pid_reverse st)" "nat max_threads < length (spcd_pid_reverse st)"
    using wf by (simp_all add: pid_wf_def)
  show ?thesis
    using wf(2,4) free l slots
    by (simp add: add_pid_proc_def spcd_get_num_threads_def rd_slot_def wr_slot_def wr_reverse_def Let_def numeral_eq_Suc two
        spcd_get_tid_def del: schedule.simps(2))
qed

text \<open>Two calls, for pids of the same slot: the second overwrites the first, but both threads are counted.\<close>

lemma slot_overwritten:
  assumes wf: "pid_wf hash max_threads st" "spcd_num_threads st + 1 < max_threads"
    and free: "ps_pid (spcd_pid st ! pid_slot hash p) = -1" and slots: "pid_slot hash p = pid_slot hash q" "p \<noteq> q"
  shows "\<exists>st'. schedule (replicate 2 0 @ replicate 2 (Suc 0) @ replicate 8 0 @ replicate 8 (Suc 0))
      (st, [add_pid_proc hash max_threads p (\<lambda>_. Finished), add_pid_proc hash max_threads q (\<lambda>_. Finished)]) =
        Some (st', [Finished, Finished]) \<and> spcd_get_tid hash p st' = Some (-1) \<and>
      spcd_get_tid hash q st' = Some (spcd_num_threads st + 1) \<and> spcd_delete_pid hash p st' = Some st' \<and>
      map_option spcd_get_active_threads (spcd_delete_pid hash q st') = Some (spcd_get_active_threads st + 1)"
proof -
  have l: "pid_slot hash q < length (spcd_pid st)" "0 \<le> spcd_num_threads st"
    "nat (spcd_num_threads st) < length (spcd_pid_reverse st)" "nat (spcd_num_threads st + 1) < length (spcd_pid_reverse st)"
    using wf by (auto simp: pid_wf_def nat_less_iff)
  show ?thesis
    using wf(2) free l slots
    by (simp add: add_pid_proc_def spcd_get_num_threads_def rd_slot_def wr_slot_def wr_reverse_def Let_def numeral_eq_Suc two
        spcd_get_tid_def spcd_delete_pid_def spcd_get_active_threads_def del: schedule.simps(2))
qed

text \<open>A number that is not below \<open>max_threads\<close> has no row in the matrix.\<close>

lemma no_row:
  assumes "matrix_wf bits m" "0 \<le> other" "other < dim_int bits"
  shows "inc_comm bits (dim_int bits) other old new m = None"
proof -
  obtain a where a: "matrix m = Some a" "length a = 2 ^ nat bits * 2 ^ nat bits" using assms(1) by (auto simp: matrix_wf_def)
  have "agetz a k = None" if k: "mat_index bits (dim_int bits) other = Some k" for k
  proof -
    have "k = int (length a) + other"
      unfolding a(2) using k by (auto simp: mat_index_def shl_int_def cint_def dim_int_def split: if_splits bind_splits)
    then have "int (length a) \<le> k" using assms(2) by simp
    then have "length a \<le> nat k" by linarith
    then show ?thesis by (simp add: agetz_def)
  qed
  then show ?thesis
    using a assms(3) by (cases "mat_index bits (dim_int bits) other") (simp_all add: inc_comm_def)
qed

section \<open>Properties\<close>

text \<open>
  Whatever the order, every call numbers at most one thread.
\<close>

lemma forks_bounded:
  assumes "conc\<^sup>*\<^sup>* (st, map (\<lambda>p. add_pid_proc hash max_threads p (\<lambda>_. Finished)) pids) c"
  shows "spcd_num_threads (fst c) \<le> spcd_num_threads st + int (length pids)"
  using spends_bound[OF assms, of 10 spcd_num_threads 1] numbers_add_pid by auto

text \<open>
  C33: two forks at the same time can exceed \<open>max_threads\<close>. When one number is left, two calls of \<open>spcd_add_pid\<close> one after the other
  give it to the first pid and refuse the second. But there is an order of their accesses in which both pass the test
  and the second pid gets the number \<open>max_threads\<close>. Counting an event of that thread then leaves the matrix.
\<close>
theorem overbooked_registry:
  assumes "pid_wf hash max_threads st" "0 < max_threads" "max_threads < 16384" "spcd_num_threads st = max_threads - 1"
    and "ps_pid (spcd_pid st ! pid_slot hash p) = -1" "ps_pid (spcd_pid st ! pid_slot hash q) = -1"
    and "pid_slot hash p \<noteq> pid_slot hash q"
    and "max_threads = dim_int bits" "matrix_wf bits m" "0 \<le> other" "other < max_threads"
  shows "(\<exists>st1. spcd_add_pid hash max_threads p st = Some (max_threads - 1, st1) \<and>
        spcd_add_pid hash max_threads q st1 = Some (-1, st1)) \<and>
    (\<exists>st2. conc\<^sup>*\<^sup>* (st, [add_pid_proc hash max_threads p (\<lambda>_. Finished), add_pid_proc hash max_threads q (\<lambda>_. Finished)])
        (st2, [Finished, Finished]) \<and> spcd_get_tid hash q st2 = Some max_threads) \<and>
    inc_comm bits max_threads other old new m = None"
proof (intro conjI)
  show "\<exists>st1. spcd_add_pid hash max_threads p st = Some (max_threads - 1, st1) \<and> spcd_add_pid hash max_threads q st1 = Some (-1, st1)"
    using assms(2,4,5) by (simp add: add_pid_cases[OF assms(1)] Let_def) (simp add: spcd_add_pid_def spcd_get_num_threads_def)
  show "\<exists>st2. conc\<^sup>*\<^sup>* (st, [add_pid_proc hash max_threads p (\<lambda>_. Finished), add_pid_proc hash max_threads q (\<lambda>_. Finished)])
      (st2, [Finished, Finished]) \<and> spcd_get_tid hash q st2 = Some max_threads"
    using overbook[OF assms(1-7)] schedule_conc by blast
  show "inc_comm bits max_threads other old new m = None" using no_row[OF assms(9,10)] assms(8,11) by simp
qed

text \<open>A registry for a single thread.\<close>

theorem overbooked_registry_witness:
  "\<exists>st2. conc\<^sup>*\<^sup>* (spcd_pid_clear pid_boot,
      [add_pid_proc low_bits_hash 1 11 (\<lambda>_. Finished), add_pid_proc low_bits_hash 1 12 (\<lambda>_. Finished)])
      (st2, [Finished, Finished]) \<and> spcd_get_tid low_bits_hash 12 st2 = Some 1"
proof -
  have "pid_wf low_bits_hash 1 (spcd_pid_clear pid_boot)" by (rule pid_clear_wf) simp_all
  moreover have "matrix_wf 0 \<lparr>matrix = Some [0], nthreads = 0\<rparr>" by (simp add: matrix_wf_def)
  ultimately show ?thesis
    using overbooked_registry[of low_bits_hash 1 "spcd_pid_clear pid_boot" 11 12 0 "\<lparr>matrix = Some [0], nthreads = 0\<rparr>" 0 0 0]
    by (simp add: spcd_pid_clear_def low_bits_slot dim_int_def del: replicate.simps)
qed

text \<open>
  C0: two forks at the same time can lose a thread. When the pids of two forks share a slot, two calls of \<open>spcd_add_pid\<close>
  one after the other register the first pid and refuse the second. But there is an order of their accesses in which
  both find the slot free: the second overwrites the first, which can then be neither found nor removed, although
  both are counted as active. The exits of both leave one active thread more than there was, so that the registry never
  sees the application end.
\<close>
theorem slot_race:
  assumes "pid_wf hash max_threads st" "spcd_num_threads st + 1 < max_threads"
    and "ps_pid (spcd_pid st ! pid_slot hash p) = -1" "pid_slot hash p = pid_slot hash q" "p \<noteq> q" "p \<noteq> -1"
  shows "(\<exists>st1. spcd_add_pid hash max_threads p st = Some (spcd_num_threads st, st1) \<and>
        spcd_add_pid hash max_threads q st1 = Some (-1, st1)) \<and>
    (\<exists>st'. conc\<^sup>*\<^sup>* (st, [add_pid_proc hash max_threads p (\<lambda>_. Finished), add_pid_proc hash max_threads q (\<lambda>_. Finished)])
        (st', [Finished, Finished]) \<and> spcd_get_tid hash p st' = Some (-1) \<and>
      spcd_get_tid hash q st' = Some (spcd_num_threads st + 1) \<and> spcd_delete_pid hash p st' = Some st' \<and>
      map_option spcd_get_active_threads (spcd_delete_pid hash q st') = Some (spcd_get_active_threads st + 1))"
proof
  obtain st1 where add: "spcd_add_pid hash max_threads p st = Some (spcd_num_threads st, st1)"
    using assms(2,3) by (simp add: add_pid_cases[OF assms(1)] Let_def)
  have "spcd_num_threads st \<noteq> -1" using assms(1) by (simp add: pid_wf_def)
  note ok = add_pid_success[OF assms(1,6) add this]
  have "ps_pid (spcd_pid st1 ! pid_slot hash q) \<noteq> -1"
    using fun_cong[OF ok(4), of p] assms(4,6) by (auto simp: live_def split: if_splits)
  then have "spcd_add_pid hash max_threads q st1 = Some (-1, st1)" by (simp add: add_pid_cases[OF ok(2)])
  with add show "\<exists>st1. spcd_add_pid hash max_threads p st = Some (spcd_num_threads st, st1) \<and>
      spcd_add_pid hash max_threads q st1 = Some (-1, st1)" by blast
qed (use slot_overwritten[OF assms(1-5)] schedule_conc in blast)

text \<open>The pids 11 and 16395 have the same lower 14 bits.\<close>

theorem slot_race_witness:
  "\<exists>st'. conc\<^sup>*\<^sup>* (spcd_pid_clear pid_boot,
      [add_pid_proc low_bits_hash 4 11 (\<lambda>_. Finished), add_pid_proc low_bits_hash 4 16395 (\<lambda>_. Finished)])
      (st', [Finished, Finished]) \<and> spcd_get_tid low_bits_hash 11 st' = Some (-1) \<and>
    map_option spcd_get_active_threads (spcd_delete_pid low_bits_hash 16395 st') = Some 1"
proof -
  have "pid_wf low_bits_hash 4 (spcd_pid_clear pid_boot)" by (rule pid_clear_wf) simp_all
  then show ?thesis
    using slot_race[of low_bits_hash 4 "spcd_pid_clear pid_boot" 11 16395]
    by (simp add: spcd_pid_clear_def low_bits_slot spcd_get_active_threads_def del: replicate.simps) blast
qed

end
